(* ===== verification/SquashPrelude.thy ===== *)
theory SquashPrelude
  imports Main "HOL-Library.Word" "HOL-Library.AList"
begin

text \<open>
  Shared vocabulary of the development: byte strings, the error values of
  \<^verbatim>\<open>errors.go\<close>, the failure monad (a sum) and the failure monad over a
  state that survives errors, Go's finite maps as association lists, the
  \<^verbatim>\<open>io.ReaderAt\<close> interface and the buffers it fills, and the notion of an
  operation whose result does not depend on what a cache holds.
\<close>

unbundle bit_operations_syntax

type_synonym byte = "8 word"
type_synonym bytes = "8 word list"
type_synonym u16 = "16 word"
type_synonym u32 = "32 word"
type_synonym u64 = "64 word"

text \<open>
  Go's \<^verbatim>\<open>int64\<close> is a 64-bit word read as two's complement: addition wraps,
  comparisons are \<open>\<le>s\<close> and \<open><s\<close>. A Go string is a byte sequence.
\<close>

type_synonym int64 = "64 word"

definition gostring :: "string \<Rightarrow> bytes" where
  "gostring s = map of_char s"

named_theorems layout_simps \<open>lengths and field positions of encoded structures\<close>
named_theorems transparent_intros \<open>closure rules for cache transparency\<close>
named_theorems steady_intros \<open>closure rules for programs that interference cannot change\<close>
named_theorems run_intros \<open>programs that run alone are the sequential operations\<close>


section \<open>Errors\<close>

text \<open>
  The sentinel errors of \<^verbatim>\<open>errors.go\<close>, the ones of the standard library that
  the code compares or passes on, and the two ways it builds others:
  \<open>NewError\<close> is \<^verbatim>\<open>errors.New\<close> or \<^verbatim>\<open>fmt.Errorf\<close> without a wrapped
  error, \<open>Wrapped\<close> and \<open>Wrapped2\<close> are \<^verbatim>\<open>fmt.Errorf\<close> with one or two
  \<^verbatim>\<open>%w\<close> verbs. Message texts are not modelled. \<open>External n\<close> stands for an
  error value made by code outside the repository.
\<close>

datatype error =
    ErrReadOnly
  | ErrBadMagic
  | ErrUnsupportedVersion
  | ErrUnsupportedCompression
  | ErrNotFound
  | ErrNotDirectory
  | ErrNotRegular
  | ErrNotSymlink
  | ErrTooManyLinks
  | ErrTooLarge
  | ErrCorrupt
  | EOF
  | ErrUnexpectedEOF
  | ErrClosed
  | ErrNotExist
  | XzErrTooLarge
  | NewError string
  | External nat
  | Wrapped error
  | Wrapped2 error error

text \<open>
  \<^verbatim>\<open>errors.Is\<close>: the error itself or anything it wraps. \<open>ErrNotFound\<close> wraps
  \<^verbatim>\<open>io/fs.ErrNotExist\<close>.
\<close>

fun errors_is :: "error \<Rightarrow> error \<Rightarrow> bool" where
  "errors_is (Wrapped e) t = (Wrapped e = t \<or> errors_is e t)"
| "errors_is (Wrapped2 e f) t = (Wrapped2 e f = t \<or> errors_is e t \<or> errors_is f t)"
| "errors_is ErrNotFound t = (t = ErrNotFound \<or> t = ErrNotExist)"
| "errors_is e t = (e = t)"

lemma errors_is_refl [simp]: "errors_is e e"
  by (cases e) auto

lemma errors_is_Wrapped [simp]: "errors_is e t \<Longrightarrow> errors_is (Wrapped e) t"
  by simp


section \<open>The failure monad and the failure monad over a state\<close>

definition bindE :: "error + 'a \<Rightarrow> ('a \<Rightarrow> error + 'b) \<Rightarrow> error + 'b" where
  "bindE m f = (case m of Inl e \<Rightarrow> Inl e | Inr a \<Rightarrow> f a)"

lemma bindE_simps [simp]:
  "bindE (Inl e) f = Inl e"
  "bindE (Inr a) f = f a"
  by (simp_all add: bindE_def)

lemma bindE_eq_Inr: "bindE m f = Inr b \<longleftrightarrow> (\<exists>a. m = Inr a \<and> f a = Inr b)"
  by (cases m) auto

text \<open>\<open>check b e\<close> is the early return \<^verbatim>\<open>if b { return e }\<close>.\<close>

definition check :: "bool \<Rightarrow> error \<Rightarrow> error + unit" where
  "check b e = (if b then Inl e else Inr ())"

lemma check_eq_Inr [simp]: "check b e = Inr u \<longleftrightarrow> \<not> b"
  by (simp add: check_def)

lemma check_simps [simp]: "check True e = Inl e" "check False e = Inr ()"
  by (simp_all add: check_def)

text \<open>
  Operations that read and update shared state. An error does not undo the
  updates made before it.
\<close>

type_synonym ('s, 'a) eff = "'s \<Rightarrow> (error + 'a) \<times> 's"

definition retM :: "'a \<Rightarrow> ('s, 'a) eff" where
  "retM a = (\<lambda>s. (Inr a, s))"

definition liftM :: "error + 'a \<Rightarrow> ('s, 'a) eff" where
  "liftM r = (\<lambda>s. (r, s))"

definition bindM :: "('s, 'a) eff \<Rightarrow> ('a \<Rightarrow> ('s, 'b) eff) \<Rightarrow> ('s, 'b) eff" where
  "bindM m f = (\<lambda>s. case m s of (Inl e, s') \<Rightarrow> (Inl e, s') | (Inr a, s') \<Rightarrow> f a s')"

definition throwM :: "error \<Rightarrow> ('s, 'a) eff" where
  "throwM e = (\<lambda>s. (Inl e, s))"

lemma retM_apply [simp]: "retM a s = (Inr a, s)"
  by (simp add: retM_def)

lemma liftM_apply [simp]: "liftM r s = (r, s)"
  by (simp add: liftM_def)

lemma throwM_apply [simp]: "throwM e s = (Inl e, s)"
  by (simp add: throwM_def)

lemma bindM_Inr [simp]: "m s = (Inr a, s') \<Longrightarrow> bindM m f s = f a s'"
  by (simp add: bindM_def)

lemma bindM_Inl [simp]: "m s = (Inl e, s') \<Longrightarrow> bindM m f s = (Inl e, s')"
  by (simp add: bindM_def)

lemma bindM_eq_Inr:
  "bindM m f s = (Inr b, s'') \<longleftrightarrow> (\<exists>a s'. m s = (Inr a, s') \<and> f a s' = (Inr b, s''))"
  by (auto simp: bindM_def split: prod.splits sum.splits)

lemma bindM_InrE:
  assumes "bindM m f s = (Inr b, s'')"
  obtains a s' where "m s = (Inr a, s')" "f a s' = (Inr b, s'')"
  using assms by (auto simp: bindM_eq_Inr)

lemma bindM_assoc: "bindM (bindM m f) g = bindM m (\<lambda>a. bindM (f a) g)"
  by (auto simp: bindM_def fun_eq_iff split: prod.splits sum.splits)


section \<open>Operations that a cache cannot change\<close>

text \<open>
  \<open>transparent I s0 m\<close>: from every state that satisfies \<open>I\<close> the operation
  \<open>m\<close> returns what it returns from \<open>s0\<close>, it keeps \<open>I\<close>, and \<open>s0\<close> is
  never updated. With \<open>I\<close> the coherence of a cache and \<open>s0\<close> the absent
  cache this says that the cache is invisible to callers.
\<close>

definition transparent :: "('s \<Rightarrow> bool) \<Rightarrow> 's \<Rightarrow> ('s, 'a) eff \<Rightarrow> bool" where
  "transparent I s0 m \<longleftrightarrow>
     snd (m s0) = s0 \<and> (\<forall>s. I s \<longrightarrow> fst (m s) = fst (m s0) \<and> I (snd (m s)))"

lemma transparentI:
  assumes "snd (m s0) = s0"
    and "\<And>s. I s \<Longrightarrow> fst (m s) = fst (m s0)"
    and "\<And>s. I s \<Longrightarrow> I (snd (m s))"
  shows "transparent I s0 m"
  using assms by (simp add: transparent_def)

lemma transparentD:
  assumes "transparent I s0 m"
  shows "snd (m s0) = s0"
    and "I s \<Longrightarrow> fst (m s) = fst (m s0)"
    and "I s \<Longrightarrow> I (snd (m s))"
  using assms by (simp_all add: transparent_def)

lemma transparent_state: "\<lbrakk>transparent I s0 m; I s; m s = (r, s')\<rbrakk> \<Longrightarrow> I s'"
  using transparentD(3) [of I s0 m s] by simp

lemma transparent_retM [transparent_intros]: "transparent I s0 (retM a)"
  by (simp add: transparent_def)

lemma transparent_liftM [transparent_intros]: "transparent I s0 (liftM r)"
  by (simp add: transparent_def)

lemma transparent_throwM [transparent_intros]: "transparent I s0 (throwM e)"
  by (simp add: transparent_def)

lemma transparent_bindM [transparent_intros]:
  assumes m: "transparent I s0 m"
    and f: "\<And>a s s'. m s = (Inr a, s') \<Longrightarrow> transparent I s0 (f a)"
  shows "transparent I s0 (bindM m f)"
proof (rule transparentI)
  show "snd (bindM m f s0) = s0"
    using transparentD(1) [OF m] transparentD(1) [OF f]
    by (cases "m s0") (auto simp: bindM_def split: sum.split)
next
  fix s assume I: "I s"
  obtain r s1 where ms: "m s = (r, s1)" by (cases "m s")
  have m0: "m s0 = (r, s0)"
    using transparentD(1) [OF m] transparentD(2) [OF m I] ms by (cases "m s0") simp
  have I1: "I s1"
    using transparentD(3) [OF m I] ms by simp
  show "fst (bindM m f s) = fst (bindM m f s0)"
    using transparentD(2) [OF f I1] ms by (cases r) (auto simp: bindM_def m0)
  show "I (snd (bindM m f s))"
    using transparentD(3) [OF f I1] ms I1 by (cases r) (auto simp: bindM_def)
qed

lemma transparent_Pair [simp, transparent_intros]: "transparent I s0 (Pair r)"
  by (simp add: transparent_def)

lemma transparent_if [transparent_intros]:
  "\<lbrakk>b \<Longrightarrow> transparent I s0 m; \<not> b \<Longrightarrow> transparent I s0 n\<rbrakk>
    \<Longrightarrow> transparent I s0 (if b then m else n)"
  by simp

lemma transparent_case_option [transparent_intros]:
  "\<lbrakk>x = None \<Longrightarrow> transparent I s0 m; \<And>a. x = Some a \<Longrightarrow> transparent I s0 (f a)\<rbrakk>
    \<Longrightarrow> transparent I s0 (case x of None \<Rightarrow> m | Some a \<Rightarrow> f a)"
  by (cases x) simp_all

lemma transparent_case_sum [transparent_intros]:
  "\<lbrakk>\<And>e. x = Inl e \<Longrightarrow> transparent I s0 (f e); \<And>a. x = Inr a \<Longrightarrow> transparent I s0 (g a)\<rbrakk>
    \<Longrightarrow> transparent I s0 (case x of Inl e \<Rightarrow> f e | Inr a \<Rightarrow> g a)"
  by (cases x) simp_all

lemma transparent_case_prod [transparent_intros]:
  "(\<And>a b. x = (a, b) \<Longrightarrow> transparent I s0 (f a b))
    \<Longrightarrow> transparent I s0 (case x of (a, b) \<Rightarrow> f a b)"
  by (cases x) simp

lemma transparent_Let [transparent_intros]:
  "(\<And>a. a = x \<Longrightarrow> transparent I s0 (f a)) \<Longrightarrow> transparent I s0 (let a = x in f a)"
  by simp

text \<open>What a transparent first step returns anywhere coherent it returns without a cache.\<close>

lemma transparent_bindM_result:
  assumes m: "transparent I s0 m"
    and f: "\<And>a. fst (m s0) = Inr a \<Longrightarrow> transparent I s0 (f a)"
  shows "transparent I s0 (bindM m f)"
proof -
  have 1: "fst (m s) = fst (m s0)" if "I s" for s using transparentD(2) [OF m that] .
  define g where "g a = (if fst (m s0) = Inr a then f a else throwM ErrCorrupt)" for a
  have g: "transparent I s0 (g a)" for a
    using f by (auto simp: g_def intro: transparent_throwM)
  then have "transparent I s0 (bindM m g)" by (intro transparent_bindM m)
  moreover have "bindM m g s = bindM m f s" if "I s \<or> s = s0" for s
    using that 1 [of s] by (cases "m s"; cases "fst (m s)") (auto simp: bindM_def g_def)
  ultimately show ?thesis by (simp add: transparent_def)
qed


section \<open>Go maps\<close>

text \<open>
  A Go map is a finite set of bindings with distinct keys. It is modelled by an
  association list that the operations keep free of duplicate keys; \<^verbatim>\<open>len\<close> is
  its length.
\<close>

type_synonym ('k, 'v) gomap = "('k \<times> 'v) list"

abbreviation map_lookup :: "('k, 'v) gomap \<Rightarrow> 'k \<Rightarrow> 'v option" where
  "map_lookup m k \<equiv> map_of m k"

abbreviation map_assign :: "('k, 'v) gomap \<Rightarrow> 'k \<Rightarrow> 'v \<Rightarrow> ('k, 'v) gomap" where
  "map_assign m k v \<equiv> AList.update k v m"

abbreviation map_delete :: "('k, 'v) gomap \<Rightarrow> 'k \<Rightarrow> ('k, 'v) gomap" where
  "map_delete m k \<equiv> AList.delete k m"

lemma length_map_assign:
  "length (map_assign m k v) = (if k \<in> fst ` set m then length m else Suc (length m))"
  by (induction m) auto

lemma keys_map_assign: "fst ` set (map_assign m k v) = insert k (fst ` set m)"
  by (induction m) auto

lemma keys_map_delete: "fst ` set (map_delete m k) = fst ` set m - {k}"
  by (induction m) auto

lemma length_map_delete:
  "distinct (map fst m) \<Longrightarrow> k \<in> fst ` set m \<Longrightarrow> length (map_delete m k) = length m - 1"
proof (induction m)
  case (Cons p m)
  obtain k' v where p: "p = (k', v)" by (cases p)
  show ?case
  proof (cases "k' = k")
    case True
    with Cons.prems p have "k \<notin> fst ` set m" by auto
    with True p show ?thesis by simp
  next
    case False
    with Cons.prems p have k: "k \<in> fst ` set m" by auto
    then have "0 < length m" by (cases m) auto
    with Cons.IH Cons.prems(1) False k p show ?thesis by simp
  qed
qed simp


section \<open>Signed reading of 64-bit words\<close>

lemma unat_bounds:
  "unat (a :: byte) < 256" "unat (b :: u16) < 65536" "unat (c :: u32) < 4294967296"
  "unat (d :: u64) < 18446744073709551616"
  by (rule order.strict_trans2 [OF unsigned_less], simp)+

lemma centered_mod:
  fixes u :: int
  assumes "0 \<le> u" "u < 2 ^ 64"
  shows "(u + 2 ^ 63) mod 2 ^ 64 - 2 ^ 63 = (if u < 2 ^ 63 then u else u - 2 ^ 64)"
proof (cases "u < 2 ^ 63")
  case True
  with assms have "(u + 2 ^ 63) mod 2 ^ 64 = u + 2 ^ 63"
    by (intro mod_pos_pos_trivial) simp_all
  with True show ?thesis by simp
next
  case False
  have "(u + 2 ^ 63) mod 2 ^ 64 = (u + 2 ^ 63 - 2 ^ 64) mod 2 ^ 64"
    by (metis minus_mod_self2)
  also have "\<dots> = u + 2 ^ 63 - 2 ^ 64"
    using False assms by (intro mod_pos_pos_trivial) simp_all
  finally show ?thesis using False by simp
qed

lemma sint64_eq: "sint (w :: int64) = (if unat w < 2 ^ 63 then int (unat w) else int (unat w) - 2 ^ 64)"
proof -
  have "sint w = (uint w + 2 ^ 63) mod 2 ^ 64 - 2 ^ 63"
    by (simp add: sint_uint signed_take_bit_eq_take_bit_shift take_bit_eq_mod)
  also have "\<dots> = (if uint w < 2 ^ 63 then uint w else uint w - 2 ^ 64)"
    using uint_lt2p [of w] by (intro centered_mod) simp_all
  finally show ?thesis
    using of_nat_less_iff [of "unat w" "2 ^ 63", where 'a = int] by simp
qed

lemma sless_0_iff: "(w :: int64) <s 0 \<longleftrightarrow> 2 ^ 63 \<le> unat w"
  using unsigned_less [of w] by (auto simp: word_sless_alt sint64_eq)

lemma sless_small:
  "unat a < 2 ^ 63 \<Longrightarrow> unat b < 2 ^ 63 \<Longrightarrow> (a :: int64) <s b \<longleftrightarrow> unat a < unat b"
  by (simp add: word_sless_alt sint64_eq flip: word_less_nat_alt word_less_def)

lemma sle_small:
  "unat a < 2 ^ 63 \<Longrightarrow> unat b < 2 ^ 63 \<Longrightarrow> (a :: int64) \<le>s b \<longleftrightarrow> unat a \<le> unat b"
  by (simp add: word_sle_eq sint64_eq flip: word_le_nat_alt word_le_def)

lemma int_diff_range:
  assumes "a < 2 ^ 63" "b < 2 ^ 63"
  shows "- (2 ^ 63) \<le> int a - int b" "int a - int b < 2 ^ 63"
  using assms by simp_all


section \<open>Buffers and \<open>io.ReaderAt\<close>\<close>

text \<open>
  \<open>fill n bs\<close> is the content of a fresh buffer of \<open>n\<close> zero bytes after
  \<open>bs\<close> was copied to its start; bytes that do not fit are dropped.
\<close>

definition fill :: "nat \<Rightarrow> bytes \<Rightarrow> bytes" where
  "fill n bs = take n (bs @ replicate n 0)"

lemma length_fill [simp, layout_simps]: "length (fill n bs) = n"
  by (simp add: fill_def)

lemma fill_id [simp]: "length bs = n \<Longrightarrow> fill n bs = bs"
  by (simp add: fill_def)

text \<open>
  The image is read through an \<^verbatim>\<open>io.ReaderAt\<close>: a function of the offset and
  the number of bytes wanted that fails or returns bytes. \<open>ReadAt rs off n\<close> is
  the call \<^verbatim>\<open>rs.ReadAt(buf, off)\<close> on a fresh buffer of \<open>n\<close> bytes, and
  returns the buffer.
\<close>

type_synonym readerAt = "int64 \<Rightarrow> nat \<Rightarrow> error + bytes"

definition ReadAt :: "readerAt \<Rightarrow> int64 \<Rightarrow> nat \<Rightarrow> error + bytes" where
  "ReadAt rs off n = (case rs off n of Inl e \<Rightarrow> Inl e | Inr bs \<Rightarrow> Inr (fill n bs))"

lemma length_ReadAt [layout_simps]: "ReadAt rs off n = Inr bs \<Longrightarrow> length bs = n"
  by (auto simp: ReadAt_def split: sum.splits)

text \<open>
  \<^verbatim>\<open>bytes.Reader\<close> of the standard library, the reader over an image held in
  memory: a negative offset is refused, a read that runs into the end reports
  \<open>EOF\<close>.
\<close>

definition bytesReader :: "bytes \<Rightarrow> readerAt" where
  "bytesReader img off n =
     (if off <s 0 then Inl (NewError ''bytes.Reader.ReadAt: negative offset'')
      else if unat off + n \<le> length img \<and> unat off < length img
           then Inr (take n (drop (unat off) img))
      else Inl EOF)"

lemma ReadAt_bytesReader:
  assumes "unat off + n \<le> length img" "0 < n" "length img < 2 ^ 63"
  shows "ReadAt (bytesReader img) off n = Inr (take n (drop (unat off) img))"
  using assms by (simp add: ReadAt_def bytesReader_def sless_0_iff)

lemma unat_of_nat63: "n < 2 ^ 63 \<Longrightarrow> unat (of_nat n :: u64) = n"
  by (simp add: unat_of_nat)

text \<open>A piece of an image is read back where it was put.\<close>

lemma ReadAt_piece:
  assumes "img = pre @ x @ post" "length img < 2 ^ 63" "x \<noteq> []" "n = length x" "off = of_nat (length pre)"
  shows "ReadAt (bytesReader img) off n = Inr x"
proof -
  have "unat off = length pre" using assms(1,2,5) by (simp add: unat_of_nat63)
  with ReadAt_bytesReader [of off n img] assms show ?thesis by simp
qed

end
