(* ===== verification/LittleEndian.thy ===== *)
theory LittleEndian
  imports SquashPrelude
begin

text \<open>
  \<^verbatim>\<open>encoding/binary.LittleEndian\<close>: \<open>le_word\<close> and \<open>le_bytes\<close> are the
  shift-and-or loops behind \<^verbatim>\<open>Uint16\<close>, \<^verbatim>\<open>Uint32\<close>, \<^verbatim>\<open>Uint64\<close> and their
  \<^verbatim>\<open>Put\<close> counterparts. The locale \<open>wire_format\<close> is the contract every
  fixed-width on-disk record meets, with the lemmas about arrays of such
  records that the fragment table, the block lists and the pointer indexes use.
\<close>

fun le_word :: "bytes \<Rightarrow> 'a::len word" where
  "le_word [] = 0"
| "le_word (b # bs) = ucast b OR push_bit 8 (le_word bs)"

fun le_bytes :: "nat \<Rightarrow> 'a::len word \<Rightarrow> bytes" where
  "le_bytes 0 w = []"
| "le_bytes (Suc n) w = ucast w # le_bytes n (drop_bit 8 w)"

lemma le_bytes_numeral [simp]:
  "le_bytes (numeral k) w = ucast w # le_bytes (pred_numeral k) (drop_bit 8 w)"
  by (simp add: numeral_eq_Suc)

declare le_bytes_numeral [simp del]

lemma length_le_bytes [simp, layout_simps]: "length (le_bytes n w) = n"
  by (induction n arbitrary: w) auto

text \<open>Decoding an encoding keeps the low \<open>8 n\<close> bits.\<close>

lemma le_word_le_bytes: "le_word (le_bytes n w) = take_bit (8 * n) w"
proof (induction n arbitrary: w)
  case 0
  show ?case by simp
next
  case (Suc n)
  show ?case
    by (rule bit_eqI) (auto simp: Suc bit_simps not_le)
qed

lemma le_bytes_le_word:
  "8 * length bs \<le> LENGTH('a::len) \<Longrightarrow> le_bytes (length bs) (le_word bs :: 'a word) = bs"
proof (induction bs)
  case Nil
  show ?case by simp
next
  case (Cons b bs)
  let ?w = "le_word bs :: 'a word"
  have fits: "8 * length bs + 8 \<le> LENGTH('a)" using Cons.prems by simp
  have hi: "\<not> bit ?w n" if "8 * length bs \<le> n" for n
  proof -
    have "?w = take_bit (8 * length bs) ?w"
      using Cons.IH fits le_word_le_bytes [of "length bs" ?w] by simp
    then show ?thesis using that by (metis bit_take_bit_iff not_less)
  qed
  have "ucast (ucast b OR push_bit 8 ?w) = b"
    by (rule bit_eqI) (use fits in \<open>auto simp: bit_simps\<close>)
  moreover have "drop_bit 8 (ucast b OR push_bit 8 ?w) = ?w"
    by (rule bit_eqI) (use fits hi in \<open>auto simp: bit_simps not_le dest: bit_imp_le_length\<close>)
  ultimately show ?case using Cons by simp
qed

definition Uint16 :: "bytes \<Rightarrow> u16" where
  "Uint16 b = le_word (take 2 b)"

definition Uint32 :: "bytes \<Rightarrow> u32" where
  "Uint32 b = le_word (take 4 b)"

definition Uint64 :: "bytes \<Rightarrow> u64" where
  "Uint64 b = le_word (take 8 b)"

definition PutUint16 :: "u16 \<Rightarrow> bytes" where
  "PutUint16 v = le_bytes 2 v"

definition PutUint32 :: "u32 \<Rightarrow> bytes" where
  "PutUint32 v = le_bytes 4 v"

definition PutUint64 :: "u64 \<Rightarrow> bytes" where
  "PutUint64 v = le_bytes 8 v"

lemma length_Put [simp, layout_simps]:
  "length (PutUint16 a) = 2" "length (PutUint32 b) = 4" "length (PutUint64 c) = 8"
  by (simp_all add: PutUint16_def PutUint32_def PutUint64_def)

lemma Uint_Put [simp, layout_simps]:
  "Uint16 (PutUint16 a @ r) = a" "Uint32 (PutUint32 b @ r) = b" "Uint64 (PutUint64 c @ r) = c"
  by (simp_all add: Uint16_def PutUint16_def Uint32_def PutUint32_def Uint64_def PutUint64_def
      le_word_le_bytes take_bit_word_eq_self)

lemma Uint_Put_nil [simp, layout_simps]:
  "Uint16 (PutUint16 a) = a" "Uint32 (PutUint32 b) = b" "Uint64 (PutUint64 c) = c"
  using Uint_Put [where r = "[]"] by simp_all

lemma Uint16_take [simp]: "Suc (Suc 0) \<le> n \<Longrightarrow> Uint16 (take n b) = Uint16 b"
  by (simp add: Uint16_def min_def)

lemma Uint32_take [simp]: "4 \<le> n \<Longrightarrow> Uint32 (take n b) = Uint32 b"
  by (simp add: Uint32_def min_def)

lemma Uint64_take [simp]: "8 \<le> n \<Longrightarrow> Uint64 (take n b) = Uint64 b"
  by (simp add: Uint64_def min_def)


section \<open>Fixed-width records and arrays of them\<close>

locale wire_format =
  fixes enc :: "'a \<Rightarrow> bytes" and dec :: "bytes \<Rightarrow> 'a" and width :: nat
  assumes length_enc: "length (enc a) = width"
    and dec_enc: "dec (enc a @ rest) = a"
begin

lemma length_array: "length (concat (map enc xs)) = length xs * width"
  by (induction xs) (simp_all add: length_enc)

lemma drop_array:
  "i \<le> length xs \<Longrightarrow> drop (i * width) (concat (map enc xs) @ rest) = concat (map enc (drop i xs)) @ rest"
proof (induction xs arbitrary: i)
  case Nil
  then show ?case by simp
next
  case (Cons x xs)
  show ?case
  proof (cases i)
    case 0
    then show ?thesis by simp
  next
    case (Suc j)
    with Cons.prems have "j \<le> length xs" by simp
    from Cons.IH [OF this] Suc show ?thesis by (simp add: length_enc)
  qed
qed

lemma dec_array: "i < length xs \<Longrightarrow> dec (drop (i * width) (concat (map enc xs) @ rest)) = xs ! i"
  using drop_array [of i xs rest] by (simp add: dec_enc Cons_nth_drop_Suc [symmetric] del: drop_append)

lemma dec_array_nil: "i < length xs \<Longrightarrow> dec (drop (i * width) (concat (map enc xs))) = xs ! i"
  using dec_array [where rest = "[]"] by simp

lemma array_in_bounds:
  assumes "i < length xs"
  shows "i * width + width \<le> length (concat (map enc xs))"
proof -
  have "Suc i * width \<le> length xs * width"
    using assms by (intro mult_le_mono1) simp
  then show ?thesis by (simp add: length_array)
qed

lemma decode_all: "map (\<lambda>i. dec (drop (i * width) (concat (map enc xs) @ rest))) [0..<length xs] = xs"
  by (rule nth_equalityI) (simp_all add: dec_array del: drop_append)

end

interpretation w16: wire_format PutUint16 Uint16 2
  by unfold_locales simp_all

interpretation w32: wire_format PutUint32 Uint32 4
  by unfold_locales simp_all

interpretation w64: wire_format PutUint64 Uint64 8
  by unfold_locales simp_all

end
