(* ===== verification/Superblock.thy ===== *)
theory Superblock
  imports LittleEndian
begin

text \<open>
  \<^verbatim>\<open>superblock.go\<close>: the 96-byte superblock at offset 0, its validation, and
  the optional compressor-options block behind it.
\<close>

definition Magic :: u32 where "Magic = 0x73717368"

definition compGZIP :: u16 where "compGZIP = 1"
definition compLZMA :: u16 where "compLZMA = 2"
definition compLZO :: u16 where "compLZO = 3"
definition compXZ :: u16 where "compXZ = 4"
definition compLZ4 :: u16 where "compLZ4 = 5"
definition compZSTD :: u16 where "compZSTD = 6"

lemmas comp_defs = compGZIP_def compLZMA_def compLZO_def compXZ_def compLZ4_def compZSTD_def

definition maxBlockSize :: u32 where "maxBlockSize = 0x100000"
definition maxBlockLog :: u16 where "maxBlockLog = 20"

definition superblockSize :: nat where "superblockSize = 96"

definition sbFlagCompressorOptions :: u16 where "sbFlagCompressorOptions = 0x0400"

definition metaBlockMax :: nat where "metaBlockMax = 8192"

record Superblock =
  sb_Magic :: u32
  sb_InodeCount :: u32
  sb_ModTime :: u32
  sb_BlockSize :: u32
  sb_FragCount :: u32
  sb_Compression :: u16
  sb_BlockLog :: u16
  sb_Flags :: u16
  sb_IDCount :: u16
  sb_VersionMajor :: u16
  sb_VersionMinor :: u16
  sb_RootInode :: u64
  sb_BytesUsed :: u64
  sb_IDTableStart :: u64
  sb_XattrTableStart :: u64
  sb_InodeTableStart :: u64
  sb_DirTableStart :: u64
  sb_FragTableStart :: u64
  sb_LookupTableStart :: u64

text \<open>The struct literal of \<open>readSuperblock\<close>: every field at its offset.\<close>

definition decodeSuperblock :: "bytes \<Rightarrow> Superblock" where
  "decodeSuperblock buf =
     \<lparr> sb_Magic = Uint32 (drop 0x00 buf),
       sb_InodeCount = Uint32 (drop 0x04 buf),
       sb_ModTime = Uint32 (drop 0x08 buf),
       sb_BlockSize = Uint32 (drop 0x0C buf),
       sb_FragCount = Uint32 (drop 0x10 buf),
       sb_Compression = Uint16 (drop 0x14 buf),
       sb_BlockLog = Uint16 (drop 0x16 buf),
       sb_Flags = Uint16 (drop 0x18 buf),
       sb_IDCount = Uint16 (drop 0x1A buf),
       sb_VersionMajor = Uint16 (drop 0x1C buf),
       sb_VersionMinor = Uint16 (drop 0x1E buf),
       sb_RootInode = Uint64 (drop 0x20 buf),
       sb_BytesUsed = Uint64 (drop 0x28 buf),
       sb_IDTableStart = Uint64 (drop 0x30 buf),
       sb_XattrTableStart = Uint64 (drop 0x38 buf),
       sb_InodeTableStart = Uint64 (drop 0x40 buf),
       sb_DirTableStart = Uint64 (drop 0x48 buf),
       sb_FragTableStart = Uint64 (drop 0x50 buf),
       sb_LookupTableStart = Uint64 (drop 0x58 buf) \<rparr>"

definition readSuperblock :: "readerAt \<Rightarrow> error + Superblock" where
  "readSuperblock rs =
     (case ReadAt rs 0 superblockSize of
        Inl e \<Rightarrow> Inl (Wrapped e)
      | Inr buf \<Rightarrow>
          (let sb = decodeSuperblock buf in
           if sb_Magic sb \<noteq> Magic then Inl ErrBadMagic
           else if sb_VersionMajor sb \<noteq> 4 \<or> sb_VersionMinor sb \<noteq> 0
             then Inl (Wrapped ErrUnsupportedVersion)
           else if sb_BlockLog sb > maxBlockLog \<or> sb_BlockSize sb > maxBlockSize \<or>
                   sb_BlockSize sb = 0 \<or> sb_BlockSize sb \<noteq> push_bit (unat (sb_BlockLog sb)) 1
             then Inl (Wrapped ErrCorrupt)
           else Inr sb))"

text \<open>The options block is read and thrown away; only its framing is checked.\<close>

definition readCompressorOptions :: "readerAt \<Rightarrow> Superblock \<Rightarrow> error + unit" where
  "readCompressorOptions rs sb =
     (if sb_Flags sb AND sbFlagCompressorOptions = 0 then Inr ()
      else case ReadAt rs (of_nat superblockSize) 2 of
        Inl e \<Rightarrow> Inl (Wrapped e)
      | Inr hdr \<Rightarrow>
          (let h = Uint16 hdr; size = unat (h AND NOT 0x8000) in
           if size = 0 \<or> size > metaBlockMax then Inl (Wrapped ErrCorrupt)
           else case ReadAt rs (of_nat (superblockSize + 2)) size of
             Inl e \<Rightarrow> Inl (Wrapped e)
           | Inr buf \<Rightarrow> Inr ()))"


section \<open>What an accepted superblock guarantees\<close>

text \<open>The limits every later computation relies on.\<close>

definition sb_ok :: "Superblock \<Rightarrow> bool" where
  "sb_ok sb \<longleftrightarrow> sb_Magic sb = Magic \<and> sb_VersionMajor sb = 4 \<and> sb_VersionMinor sb = 0 \<and>
     sb_BlockLog sb \<le> maxBlockLog \<and> sb_BlockSize sb \<le> maxBlockSize \<and> sb_BlockSize sb \<noteq> 0 \<and>
     sb_BlockSize sb = push_bit (unat (sb_BlockLog sb)) 1"

lemma readSuperblock_iff:
  "readSuperblock rs = Inr sb \<longleftrightarrow>
     (\<exists>buf. ReadAt rs 0 superblockSize = Inr buf \<and> sb = decodeSuperblock buf \<and> sb_ok sb)"
  by (auto simp: readSuperblock_def sb_ok_def Let_def not_less split: sum.splits if_splits)

lemma sb_ok_blockSize:
  assumes "sb_ok sb"
  shows "unat (sb_BlockSize sb) = 2 ^ unat (sb_BlockLog sb)"
    and "unat (sb_BlockLog sb) \<le> 20"
    and "0 < unat (sb_BlockSize sb)"
    and "unat (sb_BlockSize sb) \<le> 2 ^ 20"
proof -
  from assms show l: "unat (sb_BlockLog sb) \<le> 20"
    by (simp add: sb_ok_def maxBlockLog_def word_le_nat_alt)
  then have "(2::nat) ^ unat (sb_BlockLog sb) \<le> 2 ^ 20"
    by (intro power_increasing) simp_all
  then have "(2::nat) ^ unat (sb_BlockLog sb) < 2 ^ LENGTH(32)" by simp
  then have "unat ((2::u32) ^ unat (sb_BlockLog sb)) = 2 ^ unat (sb_BlockLog sb)"
    using unat_of_nat [where 'a = 32, of "2 ^ unat (sb_BlockLog sb)"] by simp
  with assms show "unat (sb_BlockSize sb) = 2 ^ unat (sb_BlockLog sb)"
    by (simp add: sb_ok_def)
  then show "0 < unat (sb_BlockSize sb)" by simp
  from assms have "sb_BlockSize sb \<le> maxBlockSize" unfolding sb_ok_def by blast
  then show "unat (sb_BlockSize sb) \<le> 2 ^ 20"
    by (simp add: maxBlockSize_def word_le_nat_alt)
qed

end
