(* ===== verification/Codec.thy ===== *)
theory Codec
  imports Superblock
begin

text \<open>
  \<^verbatim>\<open>decompress.go\<close> and \<^verbatim>\<open>compress.go\<close>: the block decoders and encoders
  selected by the superblock's compression id. The compression libraries are
  not part of the repository; a record \<open>codecLibs\<close> holds the calls the code
  makes to them, and every definition takes it as an argument.
\<close>

section \<open>The library calls\<close>

text \<open>
  A decoder that is an \<^verbatim>\<open>io.Reader\<close> is the bytes it yields and how it ends:
  \<open>None\<close> for \<^verbatim>\<open>io.EOF\<close>, \<open>Some e\<close> for a read error. The encoders that are
  an \<^verbatim>\<open>io.WriteCloser\<close> are the errors of their calls, in order, and the bytes
  in the buffer behind them. \<^verbatim>\<open>lzo.Decompress\<close> and \<^verbatim>\<open>lz4.UncompressBlock\<close> get the source and
  the length of a fresh buffer; they are the bytes they write at its start, and the
  count or error they return. \<^verbatim>\<open>lz4.CompressBlock\<close> is given as the slice \<^verbatim>\<open>dst[:n]\<close> of
  a buffer that always holds its output.
\<close>

type_synonym stream = "bytes \<times> error option"

record codecLibs =
  zlibNewReader :: "bytes \<Rightarrow> error + stream"
  xzNewReader :: "nat \<Rightarrow> bytes \<Rightarrow> error + stream"
  lzmaNewReader :: "nat \<Rightarrow> bytes \<Rightarrow> error + stream"
  lzmaMinDictCap :: nat
  lzoDecompressTo :: "bytes \<Rightarrow> nat \<Rightarrow> bytes \<times> (error + int)"
  lz4UncompressBlock :: "bytes \<Rightarrow> nat \<Rightarrow> bytes \<times> (error + int)"
  zstdDecodeAll :: "bytes \<Rightarrow> error + bytes"
  zlibWriter :: "bytes \<Rightarrow> error option \<times> error option \<times> bytes"
  xzWriter :: "bytes \<Rightarrow> error option \<times> error option \<times> error option \<times> bytes"
  zstdEncodeAll :: "bytes \<Rightarrow> bytes"
  lz4CompressBlock :: "bytes \<Rightarrow> error + bytes"

text \<open>\<^verbatim>\<open>io.ReadAll(io.LimitReader(r, n))\<close>: reading stops after \<open>n\<close> bytes without
  looking at what comes after them.\<close>

definition readAllLimit :: "stream \<Rightarrow> nat \<Rightarrow> error + bytes" where
  "readAllLimit r n =
     (case r of (out, end_err) \<Rightarrow>
        if n \<le> length out then Inr (take n out)
        else case end_err of None \<Rightarrow> Inr out | Some e \<Rightarrow> Inl e)"

text \<open>\<^verbatim>\<open>binary.Uvarint\<close>: value and number of bytes read, 0 for a buffer that is
  too small, negative for a value that overflows 64 bits.\<close>

fun uvarintFrom :: "nat \<Rightarrow> u64 \<Rightarrow> bytes \<Rightarrow> u64 \<times> int" where
  "uvarintFrom i x [] = (0, 0)"
| "uvarintFrom i x (b # bs) =
     (if i = 10 then (0, - int (i + 1))
      else if b < 0x80 then
        (if i = 9 \<and> b > 1 then (0, - int (i + 1))
         else (x OR push_bit (7 * i) (ucast b), int (i + 1)))
      else uvarintFrom (Suc i) (x OR push_bit (7 * i) (ucast (b AND 0x7f))) bs)"

definition Uvarint :: "bytes \<Rightarrow> u64 \<times> int" where
  "Uvarint buf = uvarintFrom 0 0 buf"


section \<open>Decoders\<close>

type_synonym decompressor = "bytes \<Rightarrow> nat \<Rightarrow> error + bytes"

definition gzipDecompress :: "codecLibs \<Rightarrow> decompressor" where
  "gzipDecompress libs src maxOut =
     (case zlibNewReader libs src of
        Inl e \<Rightarrow> Inl (Wrapped e)
      | Inr zr \<Rightarrow>
          (case readAllLimit zr (maxOut + 1) of
             Inl e \<Rightarrow> Inl (Wrapped e)
           | Inr out \<Rightarrow> if length out > maxOut then Inl (Wrapped ErrCorrupt) else Inr out))"

definition dictCeiling :: "codecLibs \<Rightarrow> nat \<Rightarrow> nat" where
  "dictCeiling libs maxOut = max maxOut (lzmaMinDictCap libs)"

definition decodeErr :: "error \<Rightarrow> error" where
  "decodeErr e = (if errors_is e XzErrTooLarge then Wrapped2 ErrCorrupt e else Wrapped e)"

definition checkXZ :: "bytes \<Rightarrow> error + unit" where
  "checkXZ src =
     (let len = length src in
      if len < 24 \<or> drop (len - 2) src \<noteq> gostring ''YZ'' then Inl (Wrapped ErrCorrupt)
      else
        (let idxSize = (unat (Uint32 (drop (len - 8) src)) + 1) * 4 in
         if idxSize > len - 24 then Inl (Wrapped ErrCorrupt)
         else
           (let idx = take idxSize (drop (len - 12 - idxSize) src);
                (records, n) = Uvarint (tl idx) in
            if idx ! 0 \<noteq> 0 \<or> n \<le> 0 \<or> records > 1 then Inl (Wrapped ErrCorrupt)
            else Inr ())))"

definition xzDecompress :: "codecLibs \<Rightarrow> decompressor" where
  "xzDecompress libs src maxOut =
     (case checkXZ src of
        Inl e \<Rightarrow> Inl e
      | Inr _ \<Rightarrow>
          (case xzNewReader libs (dictCeiling libs maxOut) src of
             Inl e \<Rightarrow> Inl (decodeErr e)
           | Inr r \<Rightarrow>
               (case readAllLimit r (maxOut + 1) of
                  Inl e \<Rightarrow> Inl (decodeErr e)
                | Inr out \<Rightarrow> if length out > maxOut then Inl (Wrapped ErrCorrupt) else Inr out)))"

definition lzmaDecompress :: "codecLibs \<Rightarrow> decompressor" where
  "lzmaDecompress libs src maxOut =
     (case lzmaNewReader libs (dictCeiling libs maxOut) src of
        Inl e \<Rightarrow> Inl (decodeErr e)
      | Inr r \<Rightarrow>
          (case readAllLimit r (maxOut + 1) of
             Inl e \<Rightarrow> Inl (decodeErr e)
           | Inr out \<Rightarrow> if length out > maxOut then Inl (Wrapped ErrCorrupt) else Inr out))"

text \<open>
  \<^verbatim>\<open>dst[:n]\<close> of a buffer with \<open>dst\<close> in it: an index outside the buffer is a run-time
  panic, given as an error value of its own.
\<close>

definition sliceTo :: "bytes \<Rightarrow> int \<Rightarrow> error + bytes" where
  "sliceTo dst n =
     (if n < 0 \<or> n > int (length dst) then Inl (NewError ''panic: slice bounds out of range'')
      else Inr (take (nat n) dst))"

definition lzoDecompress :: "codecLibs \<Rightarrow> decompressor" where
  "lzoDecompress libs src maxOut =
     (case lzoDecompressTo libs src maxOut of
        (written, Inl e) \<Rightarrow> Inl (Wrapped e)
      | (written, Inr n) \<Rightarrow> sliceTo (fill maxOut written) n)"

definition lz4Decompress :: "codecLibs \<Rightarrow> decompressor" where
  "lz4Decompress libs src maxOut =
     (case lz4UncompressBlock libs src maxOut of
        (written, Inl e) \<Rightarrow> Inl (Wrapped e)
      | (written, Inr n) \<Rightarrow> sliceTo (fill maxOut written) n)"

definition zstdDecompress :: "codecLibs \<Rightarrow> decompressor" where
  "zstdDecompress libs src maxOut =
     (case zstdDecodeAll libs src of
        Inl e \<Rightarrow> Inl (Wrapped e)
      | Inr out \<Rightarrow> if length out > maxOut then Inl (Wrapped ErrCorrupt) else Inr out)"

definition newDecompressor :: "codecLibs \<Rightarrow> u16 \<Rightarrow> error + decompressor" where
  "newDecompressor libs compression =
     (if compression = compGZIP then Inr (gzipDecompress libs)
      else if compression = compXZ then Inr (xzDecompress libs)
      else if compression = compLZO then Inr (lzoDecompress libs)
      else if compression = compZSTD then Inr (zstdDecompress libs)
      else if compression = compLZ4 then Inr (lz4Decompress libs)
      else if compression = compLZMA then Inr (lzmaDecompress libs)
      else Inl (Wrapped ErrUnsupportedCompression))"


section \<open>Encoders\<close>

record compressor =
  comp_id :: u16
  comp_compress :: "bytes \<Rightarrow> error + bytes"

definition gzipCompress :: "codecLibs \<Rightarrow> bytes \<Rightarrow> error + bytes" where
  "gzipCompress libs src =
     (case zlibWriter libs src of (write_err, close_err, b) \<Rightarrow>
        (case write_err of
           Some e \<Rightarrow> Inl e
         | None \<Rightarrow> (case close_err of Some e \<Rightarrow> Inl e | None \<Rightarrow> Inr b)))"

definition zstdCompress :: "codecLibs \<Rightarrow> bytes \<Rightarrow> error + bytes" where
  "zstdCompress libs src = Inr (zstdEncodeAll libs src)"

definition xzCompress :: "codecLibs \<Rightarrow> bytes \<Rightarrow> error + bytes" where
  "xzCompress libs src =
     (case xzWriter libs src of (new_err, write_err, close_err, b) \<Rightarrow>
        (case new_err of
           Some e \<Rightarrow> Inl e
         | None \<Rightarrow>
             (case write_err of
                Some e \<Rightarrow> Inl e
              | None \<Rightarrow> (case close_err of Some e \<Rightarrow> Inl e | None \<Rightarrow> Inr b))))"

definition lz4Compress :: "codecLibs \<Rightarrow> bytes \<Rightarrow> error + bytes" where
  "lz4Compress libs src =
     (case lz4CompressBlock libs src of
        Inl e \<Rightarrow> Inl e
      | Inr dst \<Rightarrow>
          if length dst = 0 then Inl (NewError ''squashfs: lz4 block incompressible'') else Inr dst)"

text \<open>The ids a caller of the writer chooses from.\<close>

type_synonym Compressor = u16

definition CompressGZIP :: Compressor where [simp]: "CompressGZIP = compGZIP"
definition CompressZSTD :: Compressor where [simp]: "CompressZSTD = compZSTD"
definition CompressXZ :: Compressor where [simp]: "CompressXZ = compXZ"
definition CompressLZ4 :: Compressor where [simp]: "CompressLZ4 = compLZ4"

definition newCompressor :: "codecLibs \<Rightarrow> Compressor \<Rightarrow> error + compressor" where
  "newCompressor libs c =
     (if c = 0 \<or> c = CompressGZIP then Inr \<lparr>comp_id = compGZIP, comp_compress = gzipCompress libs\<rparr>
      else if c = CompressZSTD then Inr \<lparr>comp_id = compZSTD, comp_compress = zstdCompress libs\<rparr>
      else if c = CompressXZ then Inr \<lparr>comp_id = compXZ, comp_compress = xzCompress libs\<rparr>
      else if c = CompressLZ4 then Inr \<lparr>comp_id = compLZ4, comp_compress = lz4Compress libs\<rparr>
      else Inl (Wrapped ErrUnsupportedCompression))"


section \<open>Output bounds\<close>

locale bounded_decompressor =
  fixes d :: decompressor
  assumes bounded: "d src maxOut = Inr out \<Longrightarrow> length out \<le> maxOut"
begin

lemma bounded_mono: "d src m = Inr out \<Longrightarrow> m \<le> k \<Longrightarrow> length out \<le> k"
  using bounded by (meson le_trans)

end

interpretation gzipD: bounded_decompressor "gzipDecompress libs" for libs
  by unfold_locales (auto simp: gzipDecompress_def split: sum.splits if_splits)

interpretation xzD: bounded_decompressor "xzDecompress libs" for libs
  by unfold_locales (auto simp: xzDecompress_def split: sum.splits if_splits)

interpretation lzmaD: bounded_decompressor "lzmaDecompress libs" for libs
  by unfold_locales (auto simp: lzmaDecompress_def split: sum.splits if_splits)

interpretation zstdD: bounded_decompressor "zstdDecompress libs" for libs
  by unfold_locales (auto simp: zstdDecompress_def split: sum.splits if_splits)

lemma sliceTo_length: "sliceTo dst n = Inr out \<Longrightarrow> length out \<le> length dst"
  by (auto simp: sliceTo_def split: if_splits)

interpretation lzoD: bounded_decompressor "lzoDecompress libs" for libs
  by unfold_locales (auto simp: lzoDecompress_def split: prod.splits sum.splits dest: sliceTo_length)

interpretation lz4D: bounded_decompressor "lz4Decompress libs" for libs
  by unfold_locales (auto simp: lz4Decompress_def split: prod.splits sum.splits dest: sliceTo_length)

lemma newDecompressor_bounded:
  assumes "newDecompressor libs c = Inr d"
  shows "bounded_decompressor d"
  using assms
  by (auto simp: newDecompressor_def split: if_splits
      intro: gzipD.bounded_decompressor_axioms xzD.bounded_decompressor_axioms lzoD.bounded_decompressor_axioms
        zstdD.bounded_decompressor_axioms lz4D.bounded_decompressor_axioms lzmaD.bounded_decompressor_axioms)

lemma newDecompressor_known:
  "(\<exists>d. newDecompressor libs c = Inr d) \<longleftrightarrow>
     c \<in> {compGZIP, compLZMA, compLZO, compXZ, compLZ4, compZSTD}"
  by (auto simp: newDecompressor_def)


section \<open>Encoding and decoding are inverse\<close>

text \<open>
  The layout of an .xz stream of at most one block, as the format specification has
  it: a header of 12 bytes, the block, an index that starts with a zero byte and the
  number of blocks and is a multiple of four bytes long, and a footer of 12 bytes with
  a checksum, the length of the index in words less one, the flags and the magic
  bytes.
\<close>

definition xz_stream :: "bytes \<Rightarrow> bool" where
  "xz_stream b \<longleftrightarrow>
     (\<exists>header blocks records index crc backward flags.
        b = header @ blocks @ (0 # records # index) @ crc @ PutUint32 backward @ flags @ gostring ''YZ'' \<and>
        length header = 12 \<and> records \<le> 1 \<and> length index + 2 = (unat backward + 1) * 4 \<and>
        length crc = 4 \<and> length flags = 2)"

lemma checkXZ_stream:
  assumes "xz_stream b"
  shows "checkXZ b = Inr ()"
proof -
  from assms obtain header blocks records index crc backward flags where
    b: "b = header @ blocks @ (0 # records # index) @ crc @ PutUint32 backward @ flags @ gostring ''YZ''"
    and l: "length header = 12" "records \<le> 1" "length index + 2 = (unat backward + 1) * 4" "length crc = 4" "length flags = 2"
    unfolding xz_stream_def by blast
  let ?k = "length blocks + (unat backward + 1) * 4"
  have yz: "length (gostring ''YZ'') = 2" by (simp add: gostring_def)
  have len: "length b = ?k + 24" using l yz by (simp add: b)
  have magic: "drop (length b - 2) b = gostring ''YZ''"
  proof -
    have "b = (header @ blocks @ (0 # records # index) @ crc @ PutUint32 backward @ flags) @ gostring ''YZ''" by (simp add: b)
    then show ?thesis by (metis append_eq_conv_conj diff_add_inverse2 length_append yz)
  qed
  have bw: "Uint32 (drop (length b - 8) b) = backward"
  proof -
    have "b = (header @ blocks @ (0 # records # index) @ crc) @ PutUint32 backward @ flags @ gostring ''YZ''" by (simp add: b)
    moreover have "length b - 8 = length (header @ blocks @ (0 # records # index) @ crc)" using len l by simp
    ultimately show ?thesis by (metis Uint_Put(2) append_eq_conv_conj)
  qed
  let ?n = "(unat backward + 1) * 4"
  have idx: "take ?n (drop (length b - 12 - ?n) b) = 0 # records # index"
  proof -
    have "b = (header @ blocks) @ (0 # records # index) @ crc @ PutUint32 backward @ flags @ gostring ''YZ''" by (simp add: b)
    moreover have "length b - 12 - ?n = length (header @ blocks)" "?n = length (0 # records # index)" using len l by simp_all
    ultimately show ?thesis by (metis append_eq_conv_conj)
  qed
  have "records < 0x80" using l(2) by (simp add: word_le_nat_alt word_less_nat_alt)
  then have u: "Uvarint (records # index) = (ucast records, 1)" by (simp add: Uvarint_def)
  have "unat records \<le> 1" using l(2) by (simp add: word_le_nat_alt)
  then have "take_bit 64 (unat records) = unat records" by (intro take_bit_nat_eq_self) simp
  with \<open>unat records \<le> 1\<close> have r: "\<not> ucast records > (1 :: u64)" by (simp add: word_less_nat_alt unsigned_ucast_eq)
  have k: "\<not> ?n > length b - 24" "\<not> length b < 24" using len by simp_all
  show ?thesis unfolding checkXZ_def Let_def magic bw idx using k u r by simp
qed

text \<open>
  What the libraries document: a decoder returns what the matching encoder was
  given. An xz writer makes one stream of at most one block, its reader needs a
  dictionary no larger than the data; the shared zstd decoder is capped at
  1 MiB of output; an lz4 decoder needs a buffer that holds the data. A zlib
  stream has a header, and so has the zstd frame of non-empty data.
\<close>

definition codec_libs_ok :: "codecLibs \<Rightarrow> bool" where
  "codec_libs_ok libs \<longleftrightarrow>
     (\<forall>src b. zlibWriter libs src = (None, None, b) \<longrightarrow> b \<noteq> [] \<and> zlibNewReader libs b = Inr (src, None)) \<and>
     (\<forall>src b dict. xzWriter libs src = (None, None, None, b) \<longrightarrow> length src \<le> dict \<longrightarrow>
        xz_stream b \<and> xzNewReader libs dict b = Inr (src, None)) \<and>
     (\<forall>src. length src \<le> 2 ^ 20 \<longrightarrow> zstdDecodeAll libs (zstdEncodeAll libs src) = Inr src) \<and>
     (\<forall>src. src \<noteq> [] \<longrightarrow> zstdEncodeAll libs src \<noteq> []) \<and>
     (\<forall>src b n. lz4CompressBlock libs src = Inr b \<longrightarrow> b \<noteq> [] \<longrightarrow> length src \<le> n \<longrightarrow>
        (\<exists>rest. lz4UncompressBlock libs b n = (src @ rest, Inr (int (length src)))))"

text \<open>A pair of an encoder and a decoder for blocks of at most 1 MiB.\<close>

definition codec_pair :: "(bytes \<Rightarrow> error + bytes) \<Rightarrow> decompressor \<Rightarrow> bool" where
  "codec_pair enc d \<longleftrightarrow>
     (\<forall>src out m. enc src = Inr out \<longrightarrow> length src \<le> m \<longrightarrow> length src \<le> 2 ^ 20 \<longrightarrow> d out m = Inr src)"

lemma codec_pairD:
  "\<lbrakk>codec_pair enc d; enc src = Inr out; length src \<le> m; length src \<le> 2 ^ 20\<rbrakk> \<Longrightarrow> d out m = Inr src"
  unfolding codec_pair_def by blast

lemma gzip_pair: "codec_libs_ok libs \<Longrightarrow> codec_pair (gzipCompress libs) (gzipDecompress libs)"
  unfolding codec_pair_def
  by (auto simp: codec_libs_ok_def gzipCompress_def gzipDecompress_def readAllLimit_def
      split: option.splits prod.splits)

lemma xz_pair: "codec_libs_ok libs \<Longrightarrow> codec_pair (xzCompress libs) (xzDecompress libs)"
  unfolding codec_pair_def
  by (auto simp: codec_libs_ok_def xzCompress_def xzDecompress_def readAllLimit_def dictCeiling_def checkXZ_stream
      split: option.splits prod.splits)

lemma zstd_pair: "codec_libs_ok libs \<Longrightarrow> codec_pair (zstdCompress libs) (zstdDecompress libs)"
  unfolding codec_pair_def by (auto simp: codec_libs_ok_def zstdCompress_def zstdDecompress_def)

lemma sliceTo_written: "length src \<le> m \<Longrightarrow> sliceTo (fill m (src @ rest)) (int (length src)) = Inr src"
  by (simp add: sliceTo_def fill_def min_absorb1)

lemma lz4_pair: "codec_libs_ok libs \<Longrightarrow> codec_pair (lz4Compress libs) (lz4Decompress libs)"
  unfolding codec_pair_def
  by (fastforce simp: codec_libs_ok_def lz4Compress_def lz4Decompress_def sliceTo_written split: sum.splits if_splits)

lemma newCompressor_pair:
  assumes "codec_libs_ok libs" "newCompressor libs c = Inr cmp"
  shows "\<exists>d. newDecompressor libs (comp_id cmp) = Inr d \<and> codec_pair (comp_compress cmp) d"
  using assms(2) gzip_pair [OF assms(1)] xz_pair [OF assms(1)] zstd_pair [OF assms(1)]
    lz4_pair [OF assms(1)]
  by (auto simp: newCompressor_def newDecompressor_def comp_defs split: if_splits)

text \<open>No encoder returns an empty encoding of a non-empty block.\<close>

lemma newCompressor_nonempty:
  assumes "codec_libs_ok libs" "newCompressor libs c = Inr cmp" "src \<noteq> []"
  shows "comp_compress cmp src \<noteq> Inr []"
proof -
  have "\<not> xz_stream []" by (simp add: xz_stream_def)
  moreover have "xzCompress libs src = Inr b \<Longrightarrow> xz_stream b" for b
    using assms(1) order_refl [of "length src"]
    by (fastforce simp: codec_libs_ok_def xzCompress_def split: option.splits prod.splits)
  moreover have "gzipCompress libs src \<noteq> Inr []" "zstdCompress libs src \<noteq> Inr []" "lz4Compress libs src \<noteq> Inr []"
    using assms(1,3) by (auto simp: codec_libs_ok_def gzipCompress_def zstdCompress_def lz4Compress_def
        split: option.splits prod.splits sum.splits)
  ultimately show ?thesis using assms(2) by (auto simp: newCompressor_def split: if_splits)
qed

end
