(* ===== verification/BlockCache.thy ===== *)
theory BlockCache
  imports SquashPrelude
begin

text \<open>
  \<^verbatim>\<open>cache.go\<close>: the cache of decompressed blocks, two bounded maps with
  first-in-first-out eviction. A nil \<^verbatim>\<open>*blockCache\<close> is \<open>None\<close>. The
  operations are those of a goroutine alone with the cache; \<open>Scheduler\<close> takes them apart
  around the mutex. The locale \<open>lossy_cache\<close> is the contract the readers rely on; \<open>bounded_cache\<close>
  adds what the owner of the memory relies on. Both are interpreted for the
  metadata half and for the data half.
\<close>

record metaEntry =
  me_data :: bytes
  me_next :: int64

record blockCache =
  bc_meta :: "(int64, metaEntry) gomap"
  bc_data :: "(int64, bytes) gomap"
  bc_metaCap :: nat
  bc_dataCap :: nat
  bc_metaKeys :: "int64 list"
  bc_dataKeys :: "int64 list"

definition defaultMetaCacheBlocks :: nat where "defaultMetaCacheBlocks = 16384"
definition defaultDataCacheBlocks :: nat where "defaultDataCacheBlocks = 64"

definition newBlockCache :: blockCache where
  "newBlockCache =
     \<lparr> bc_meta = [], bc_data = [],
       bc_metaCap = defaultMetaCacheBlocks, bc_dataCap = defaultDataCacheBlocks,
       bc_metaKeys = [], bc_dataKeys = [] \<rparr>"

text \<open>
  The body the two put methods share: an unknown key first makes room by
  dropping the oldest key when the map is full, then joins the key queue; the
  binding is written in every case.
\<close>

definition fifo_insert ::
  "nat \<Rightarrow> ('k, 'v) gomap \<Rightarrow> 'k list \<Rightarrow> 'k \<Rightarrow> 'v \<Rightarrow> ('k, 'v) gomap \<times> 'k list" where
  "fifo_insert cap m ks k v =
     (case map_lookup m k of
        None \<Rightarrow>
          (let (m', ks') =
             (if length m \<ge> cap \<and> length ks > 0 then (map_delete m (hd ks), tl ks) else (m, ks))
           in (map_assign m' k v, ks' @ [k]))
      | Some _ \<Rightarrow> (map_assign m k v, ks))"

type_synonym cachePtr = "blockCache option"

definition getMeta :: "cachePtr \<Rightarrow> int64 \<Rightarrow> metaEntry option" where
  "getMeta c off = (case c of None \<Rightarrow> None | Some bc \<Rightarrow> map_lookup (bc_meta bc) off)"

definition putMeta :: "cachePtr \<Rightarrow> int64 \<Rightarrow> metaEntry \<Rightarrow> cachePtr" where
  "putMeta c off e =
     (case c of
        None \<Rightarrow> None
      | Some bc \<Rightarrow>
          (let (m, ks) = fifo_insert (bc_metaCap bc) (bc_meta bc) (bc_metaKeys bc) off e
           in Some (bc\<lparr>bc_meta := m, bc_metaKeys := ks\<rparr>)))"

definition getData :: "cachePtr \<Rightarrow> int64 \<Rightarrow> bytes option" where
  "getData c off = (case c of None \<Rightarrow> None | Some bc \<Rightarrow> map_lookup (bc_data bc) off)"

definition putData :: "cachePtr \<Rightarrow> int64 \<Rightarrow> bytes \<Rightarrow> cachePtr" where
  "putData c off b =
     (case c of
        None \<Rightarrow> None
      | Some bc \<Rightarrow>
          (let (m, ks) = fifo_insert (bc_dataCap bc) (bc_data bc) (bc_dataKeys bc) off b
           in Some (bc\<lparr>bc_data := m, bc_dataKeys := ks\<rparr>)))"

lemma cache_nil [simp]:
  "getMeta None off = None" "putMeta None off e = None"
  "getData None off = None" "putData None off b = None"
  by (simp_all add: getMeta_def putMeta_def getData_def putData_def)


section \<open>The bounded queue behind both maps\<close>

lemma fifo_insert_lookup:
  assumes "map_lookup (fst (fifo_insert cap m ks k v)) k' = Some w"
  shows "k' = k \<and> w = v \<or> map_lookup m k' = Some w"
  using assms
  by (auto simp: fifo_insert_def update_conv' delete_conv' split: option.splits if_splits)

lemma fifo_insert_hit: "map_lookup (fst (fifo_insert cap m ks k v)) k = Some v"
  by (auto simp: fifo_insert_def update_conv' Let_def split: option.splits prod.splits)

text \<open>
  The map and the key queue hold the same keys, once each, and the map never
  outgrows its cap.
\<close>

definition fifo_wf :: "nat \<Rightarrow> ('k, 'v) gomap \<Rightarrow> 'k list \<Rightarrow> bool" where
  "fifo_wf cap m ks \<longleftrightarrow>
     distinct (map fst m) \<and> distinct ks \<and> set ks = fst ` set m \<and> length m \<le> cap"

lemma fifo_wf_length:
  "fifo_wf cap m ks \<Longrightarrow> length ks = length m"
  by (metis distinct_card fifo_wf_def length_map list.set_map)

lemma fifo_insert_wf:
  assumes wf: "fifo_wf cap m ks" and cap: "0 < cap"
  shows "case fifo_insert cap m ks k v of (m', ks') \<Rightarrow> fifo_wf cap m' ks'"
proof (cases "k \<in> fst ` set m")
  case True
  then obtain w where "map_lookup m k = Some w"
    by (metis map_of_eq_None_iff not_None_eq)
  with wf True show ?thesis
    by (simp add: fifo_insert_def fifo_wf_def length_map_assign distinct_update keys_map_assign
        insert_absorb)
next
  case False
  then have none: "map_lookup m k = None" by (simp add: map_of_eq_None_iff)
  show ?thesis
  proof (cases "length m \<ge> cap \<and> length ks > 0")
    case full: True
    then obtain o_k ks' where ks: "ks = o_k # ks'" by (cases ks) auto
    have o_in: "o_k \<in> fst ` set m" using wf ks by (auto simp: fifo_wf_def)
    have keys': "fst ` set (map_delete m o_k) = set ks'"
      using wf ks unfolding fifo_wf_def keys_map_delete by auto
    have len': "length (map_delete m o_k) < cap"
      using wf o_in cap by (auto simp: fifo_wf_def length_map_delete)
    have "fifo_insert cap m ks k v = (map_assign (map_delete m o_k) k v, ks' @ [k])"
      using full ks none by (simp add: fifo_insert_def)
    moreover have "k \<notin> set ks'" using False wf ks by (auto simp: fifo_wf_def)
    ultimately show ?thesis
      using wf ks len' keys'
      by (auto simp: fifo_wf_def length_map_assign distinct_update distinct_delete keys_map_assign)
  next
    case notfull: False
    then have "length m < cap" using fifo_wf_length [OF wf] cap by auto
    with notfull False none wf show ?thesis
      by (auto simp: fifo_insert_def fifo_wf_def length_map_assign distinct_update keys_map_assign)
  qed
qed

text \<open>
  What the pair of map and key queue stands for: the bindings in the order in
  which their keys arrived. On that list the put methods are a plain bounded
  queue.
\<close>

definition fifo_abs :: "('k, 'v) gomap \<Rightarrow> 'k list \<Rightarrow> ('k \<times> 'v) list" where
  "fifo_abs m ks = map (\<lambda>k. (k, the (map_lookup m k))) ks"

definition fifo_spec :: "nat \<Rightarrow> ('k \<times> 'v) list \<Rightarrow> 'k \<Rightarrow> 'v \<Rightarrow> ('k \<times> 'v) list" where
  "fifo_spec cap q k v =
     (if k \<in> fst ` set q then map (\<lambda>(k', w). (k', if k' = k then v else w)) q
      else (if length q \<ge> cap then tl q else q) @ [(k, v)])"

lemma fifo_insert_refines:
  assumes wf: "fifo_wf cap m ks" 
  shows "case fifo_insert cap m ks k v of (m', ks') \<Rightarrow>
           fifo_abs m' ks' = fifo_spec cap (fifo_abs m ks) k v"
proof -
  have keys: "fst ` set (fifo_abs m ks) = set ks" by (auto simp: fifo_abs_def image_iff)
  have len: "length (fifo_abs m ks) = length m"
    using fifo_wf_length [OF wf] by (simp add: fifo_abs_def)
  have dom: "map_lookup m k = None \<longleftrightarrow> k \<notin> set ks"
    using wf by (simp add: fifo_wf_def map_of_eq_None_iff)
  show ?thesis
  proof (cases "k \<in> set ks")
    case True
    with dom obtain w where "map_lookup m k = Some w" by auto
    with True keys show ?thesis
      by (auto simp: fifo_insert_def fifo_spec_def fifo_abs_def update_conv')
  next
    case False
    have ks0: "length ks = length m" using wf by (rule fifo_wf_length)
    show ?thesis
    proof (cases "length m \<ge> cap \<and> length ks > 0")
      case True
      then obtain o_k ks' where ks: "ks = o_k # ks'" by (cases ks) auto
      have "o_k \<notin> set ks'" using wf ks by (simp add: fifo_wf_def)
      with True False dom keys len ks show ?thesis
        by (auto simp: fifo_insert_def fifo_spec_def fifo_abs_def update_conv' delete_conv' o_def)
    next
      case notfull: False
      with ks0 have "length m < cap \<or> ks = []" by auto
      with notfull False dom keys len show ?thesis
        by (auto simp: fifo_insert_def fifo_spec_def fifo_abs_def update_conv')
    qed
  qed
qed


section \<open>The contract of a cache\<close>

locale lossy_cache =
  fixes get :: "'c \<Rightarrow> 'k \<Rightarrow> 'v option" and put :: "'c \<Rightarrow> 'k \<Rightarrow> 'v \<Rightarrow> 'c"
  assumes get_put: "get (put c k v) k' = Some w \<Longrightarrow> k' = k \<and> w = v \<or> get c k' = Some w"
begin

text \<open>
  Whatever holds of all cached bindings keeps holding when a binding that
  satisfies it is stored, however much the cache forgets.
\<close>

lemma put_keeps:
  assumes "\<And>k v. get c k = Some v \<Longrightarrow> P k v" and "P k v" and "get (put c k v) k' = Some w"
  shows "P k' w"
  using get_put [OF assms(3)] assms(1,2) by auto

lemma puts_keep:
  assumes "\<And>k v. get c k = Some v \<Longrightarrow> P k v" and "\<And>k v. (k, v) \<in> set kvs \<Longrightarrow> P k v"
    and "get (fold (\<lambda>(k, v) c. put c k v) kvs c) k' = Some w"
  shows "P k' w"
  using assms
proof (induction kvs arbitrary: c)
  case (Cons kv kvs)
  obtain k v where kv: "kv = (k, v)" by (cases kv)
  have "P k v" using Cons.prems(2) kv by auto
  then have "\<And>k1 v1. get (put c k v) k1 = Some v1 \<Longrightarrow> P k1 v1"
    using put_keeps Cons.prems(1) by metis
  with Cons kv show ?case by auto
qed simp

end

locale bounded_cache = lossy_cache get put
  for get :: "'c \<Rightarrow> 'k \<Rightarrow> 'v option" and put :: "'c \<Rightarrow> 'k \<Rightarrow> 'v \<Rightarrow> 'c" +
  fixes wf :: "'c \<Rightarrow> bool" and entries :: "'c \<Rightarrow> nat" and cap :: "'c \<Rightarrow> nat"
  assumes put_wf: "wf c \<Longrightarrow> wf (put c k v)"
    and put_cap: "cap (put c k v) = cap c"
    and wf_bound: "wf c \<Longrightarrow> entries c \<le> cap c"
    and put_hit: "wf c \<Longrightarrow> get (put c k v) k = Some v"
begin

lemma puts_wf: "wf c \<Longrightarrow> wf (fold (\<lambda>(k, v) c. put c k v) kvs c)"
  by (induction kvs arbitrary: c) (auto simp: put_wf)

lemma puts_cap: "cap (fold (\<lambda>(k, v) c. put c k v) kvs c) = cap c"
  by (induction kvs arbitrary: c) (auto simp: put_cap)

lemma puts_bound: "wf c \<Longrightarrow> entries (fold (\<lambda>(k, v) c. put c k v) kvs c) \<le> cap c"
  using wf_bound [OF puts_wf] by (simp add: puts_cap)

end

interpretation metaCache: lossy_cache getMeta putMeta
proof unfold_locales
  fix c k v k' w assume "getMeta (putMeta c k v) k' = Some w"
  then show "k' = k \<and> w = v \<or> getMeta c k' = Some w"
    by (cases c) (auto simp: getMeta_def putMeta_def Let_def split: prod.splits
        dest!: arg_cong [where f = fst] dest: fifo_insert_lookup)
qed

interpretation dataCache: lossy_cache getData putData
proof unfold_locales
  fix c k v k' w assume "getData (putData c k v) k' = Some w"
  then show "k' = k \<and> w = v \<or> getData c k' = Some w"
    by (cases c) (auto simp: getData_def putData_def Let_def split: prod.splits
        dest!: arg_cong [where f = fst] dest: fifo_insert_lookup)
qed

text \<open>The well-formedness of a cache object, both halves.\<close>

definition cache_wf :: "cachePtr \<Rightarrow> bool" where
  "cache_wf c = (case c of None \<Rightarrow> False
     | Some bc \<Rightarrow>
         0 < bc_metaCap bc \<and> 0 < bc_dataCap bc \<and>
         fifo_wf (bc_metaCap bc) (bc_meta bc) (bc_metaKeys bc) \<and>
         fifo_wf (bc_dataCap bc) (bc_data bc) (bc_dataKeys bc))"

definition metaEntries :: "cachePtr \<Rightarrow> nat" where
  "metaEntries c = (case c of None \<Rightarrow> 0 | Some bc \<Rightarrow> length (bc_meta bc))"

definition dataEntries :: "cachePtr \<Rightarrow> nat" where
  "dataEntries c = (case c of None \<Rightarrow> 0 | Some bc \<Rightarrow> length (bc_data bc))"

definition metaLimit :: "cachePtr \<Rightarrow> nat" where
  "metaLimit c = (case c of None \<Rightarrow> 0 | Some bc \<Rightarrow> bc_metaCap bc)"

definition dataLimit :: "cachePtr \<Rightarrow> nat" where
  "dataLimit c = (case c of None \<Rightarrow> 0 | Some bc \<Rightarrow> bc_dataCap bc)"

lemmas cache_size_defs = metaEntries_def dataEntries_def metaLimit_def dataLimit_def

lemma newBlockCache_wf: "cache_wf (Some newBlockCache)"
  by (simp add: cache_wf_def newBlockCache_def fifo_wf_def defaultMetaCacheBlocks_def
      defaultDataCacheBlocks_def)

interpretation metaStore: bounded_cache getMeta putMeta cache_wf metaEntries metaLimit
proof unfold_locales
  fix c k v
  show "cache_wf (putMeta c k v)" if "cache_wf c"
    using that
    by (cases c) (auto simp: cache_wf_def putMeta_def Let_def split: prod.splits
        dest: fifo_insert_wf [of _ _ _ k v])
  show "metaLimit (putMeta c k v) = metaLimit c"
    by (cases c) (auto simp: metaLimit_def putMeta_def Let_def split: prod.splits)
  show "metaEntries c \<le> metaLimit c" if "cache_wf c"
    using that by (cases c) (auto simp: cache_wf_def cache_size_defs fifo_wf_def)
  show "getMeta (putMeta c k v) k = Some v" if "cache_wf c"
    using that fifo_insert_hit [of _ _ _ k v]
    by (cases c) (auto simp: cache_wf_def getMeta_def putMeta_def Let_def split_beta)
qed

interpretation dataStore: bounded_cache getData putData cache_wf dataEntries dataLimit
proof unfold_locales
  fix c k v
  show "cache_wf (putData c k v)" if "cache_wf c"
    using that
    by (cases c) (auto simp: cache_wf_def putData_def Let_def split: prod.splits
        dest: fifo_insert_wf [of _ _ _ k v])
  show "dataLimit (putData c k v) = dataLimit c"
    by (cases c) (auto simp: dataLimit_def putData_def Let_def split: prod.splits)
  show "dataEntries c \<le> dataLimit c" if "cache_wf c"
    using that by (cases c) (auto simp: cache_wf_def cache_size_defs fifo_wf_def)
  show "getData (putData c k v) k = Some v" if "cache_wf c"
    using that fifo_insert_hit [of _ _ _ k v]
    by (cases c) (auto simp: cache_wf_def getData_def putData_def Let_def split_beta)
qed

text \<open>The two halves do not touch each other.\<close>

lemma put_other [simp]:
  "getData (putMeta c k e) = getData c" "getMeta (putData c k b) = getMeta c"
  by (cases c; simp add: getData_def putMeta_def getMeta_def putData_def Let_def split_beta fun_eq_iff)+

end
