(* ===== verification/Metadata.thy ===== *)
theory Metadata
  imports Codec BlockCache
begin

text \<open>
  \<^verbatim>\<open>metadata.go\<close>: metadata blocks (a 2-byte header and at most 8 KiB of
  payload), the cache in front of them, and the cursor that streams bytes across
  block boundaries. The record \<open>FS\<close> is the struct of \<^verbatim>\<open>fs.go\<close> less its
  cache pointer, which is the state the operations thread.
\<close>

definition metaHeaderCompressedBit :: u16 where "metaHeaderCompressedBit = 0x8000"

record FS =
  fs_rs :: readerAt
  fs_size :: int64
  fs_sb :: Superblock
  fs_d :: decompressor
  fs_closer :: "(error + unit) option"

definition readMetaBlock :: "readerAt \<Rightarrow> decompressor \<Rightarrow> int64 \<Rightarrow> error + bytes \<times> int64" where
  "readMetaBlock rs d at =
     (case ReadAt rs at 2 of
        Inl e \<Rightarrow> Inl (Wrapped e)
      | Inr hdr \<Rightarrow>
          (let h = Uint16 hdr; stored = h AND NOT metaHeaderCompressedBit in
           if stored = 0 \<or> unat stored > metaBlockMax then Inl (Wrapped ErrCorrupt)
           else case ReadAt rs (at + 2) (unat stored) of
             Inl e \<Rightarrow> Inl (Wrapped e)
           | Inr raw \<Rightarrow>
               (let next = at + 2 + ucast stored in
                if h AND metaHeaderCompressedBit \<noteq> 0 then Inr (raw, next)
                else case d raw metaBlockMax of
                  Inl e \<Rightarrow> Inl e
                | Inr data \<Rightarrow> Inr (data, next))))"

definition readMetaBlockCached :: "FS \<Rightarrow> int64 \<Rightarrow> (cachePtr, bytes \<times> int64) eff" where
  "readMetaBlockCached fs at c =
     (case getMeta c at of
        Some e \<Rightarrow> (Inr (me_data e, me_next e), c)
      | None \<Rightarrow>
          (case readMetaBlock (fs_rs fs) (fs_d fs) at of
             Inl e \<Rightarrow> (Inl e, c)
           | Inr (data, next) \<Rightarrow>
               (Inr (data, next), putMeta c at \<lparr>me_data = data, me_next = next\<rparr>)))"

record metaCursor =
  mc_next :: int64
  mc_cur :: bytes
  mc_pos :: nat

definition cur_load :: "FS \<Rightarrow> metaCursor \<Rightarrow> (cachePtr, metaCursor) eff" where
  "cur_load fs c =
     bindM (readMetaBlockCached fs (mc_next c)) (\<lambda>(data, next).
     retM (c\<lparr>mc_cur := data, mc_next := next, mc_pos := 0\<rparr>))"

definition newMetaCursor :: "FS \<Rightarrow> int64 \<Rightarrow> nat \<Rightarrow> (cachePtr, metaCursor) eff" where
  "newMetaCursor fs blockStart inBlockOff =
     bindM (cur_load fs \<lparr>mc_next = blockStart, mc_cur = [], mc_pos = 0\<rparr>) (\<lambda>c.
     if inBlockOff > length (mc_cur c) then throwM (Wrapped ErrCorrupt)
     else retM (c\<lparr>mc_pos := inBlockOff\<rparr>))"

text \<open>The part of the loop body of \<^verbatim>\<open>metaCursor.read\<close> before the copy.\<close>

definition cur_refill :: "FS \<Rightarrow> metaCursor \<Rightarrow> (cachePtr, metaCursor) eff" where
  "cur_refill fs c =
     (if mc_pos c \<ge> length (mc_cur c) then
        bindM (cur_load fs c) (\<lambda>c'.
        if length (mc_cur c') = 0 then throwM ErrUnexpectedEOF else retM c')
      else retM c)"

lemma cur_refill_pos: "cur_refill fs c s = (Inr c', s') \<Longrightarrow> mc_pos c' < length (mc_cur c')"
  by (auto simp: cur_refill_def cur_load_def bindM_eq_Inr split: if_splits)

text \<open>
  \<^verbatim>\<open>metaCursor.read\<close> on a buffer of \<open>n\<close> bytes, returning its content, which
  is also what \<^verbatim>\<open>readN(n)\<close> returns. Every round copies at least one byte, so the
  loop ends.
\<close>

function cur_read :: "FS \<Rightarrow> metaCursor \<Rightarrow> nat \<Rightarrow> (cachePtr, bytes \<times> metaCursor) eff" where
  "cur_read fs c n s =
     (if n = 0 then (Inr ([], c), s)
      else case cur_refill fs c s of
        (Inl e, s') \<Rightarrow> (Inl e, s')
      | (Inr c', s') \<Rightarrow>
          (let k = min n (length (mc_cur c') - mc_pos c') in
           case cur_read fs (c'\<lparr>mc_pos := mc_pos c' + k\<rparr>) (n - k) s' of
             (Inl e, s'') \<Rightarrow> (Inl e, s'')
           | (Inr (bs, c''), s'') \<Rightarrow>
               (Inr (take k (drop (mc_pos c') (mc_cur c')) @ bs, c''), s'')))"
  by pat_completeness auto
termination
  by (relation "measure (\<lambda>(fs, c, n, s). n)") (auto dest!: cur_refill_pos [OF sym])

declare cur_read.simps [simp del]

text \<open>A 48-bit reference: offset of a metadata block, offset inside its payload.\<close>

definition inodeRef :: "u64 \<Rightarrow> int64 \<times> nat" where
  "inodeRef ref = (drop_bit 16 ref, unat (ref AND 0xFFFF))"

lemma inodeRef_bounds:
  assumes "inodeRef ref = (b, o_b)"
  shows "unat b < 2 ^ 48" "o_b < 2 ^ 16"
proof -
  from assms have b: "b = drop_bit 16 ref" and o: "o_b = unat (take_bit 16 ref)"
    by (auto simp: inodeRef_def take_bit_eq_mask mask_numeral)
  have "unat ref < 2 ^ 64" using unsigned_less [of ref] by simp
  then show "unat b < 2 ^ 48"
    by (simp add: b drop_bit_eq_div unat_div less_mult_imp_div_less)
  show "o_b < 2 ^ 16"
    using take_bit_nat_less_exp [of 16 "unat ref"] by (simp add: o unsigned_take_bit_eq)
qed


section \<open>One metadata block\<close>

lemma readMetaBlock_bounded:
  assumes "readMetaBlock rs d at = Inr (data, next)" "bounded_decompressor d"
  shows "length data \<le> metaBlockMax"
  using assms(1) bounded_decompressor.bounded [OF assms(2)]
  by (auto simp: readMetaBlock_def Let_def split: sum.splits if_splits dest: length_ReadAt)

lemma readMetaBlock_next:
  assumes "readMetaBlock rs d at = Inr (data, next)"
  shows "\<exists>n. 0 < n \<and> n \<le> metaBlockMax \<and> next = at + 2 + of_nat n"
proof -
  obtain stored :: u16 where "stored \<noteq> 0" "unat stored \<le> metaBlockMax" "next = at + 2 + ucast stored"
    using assms by (auto simp: readMetaBlock_def Let_def not_less split: sum.splits if_splits)
  moreover have "ucast stored = (of_nat (unat stored) :: int64)" for stored :: u16
    by (simp add: unsigned_of_nat)
  moreover have "0 < unat stored" if "stored \<noteq> 0" for stored :: u16
    using that by (simp add: unat_gt_0)
  ultimately show ?thesis by metis
qed


section \<open>The metadata cache is transparent\<close>

text \<open>
  A cache is coherent with a file system when every metadata entry is what
  reading the image at that offset gives. The data half is left to \<open>dc\<close>.
\<close>

definition coherent :: "FS \<Rightarrow> ((int64 \<Rightarrow> bytes option) \<Rightarrow> bool) \<Rightarrow> cachePtr \<Rightarrow> bool" where
  "coherent fs dc c \<longleftrightarrow>
     (\<forall>at e. getMeta c at = Some e \<longrightarrow>
        readMetaBlock (fs_rs fs) (fs_d fs) at = Inr (me_data e, me_next e)) \<and>
     dc (getData c)"

lemma coherent_putMeta:
  assumes "coherent fs dc c" "readMetaBlock (fs_rs fs) (fs_d fs) at = Inr (data, next)"
  shows "coherent fs dc (putMeta c at \<lparr>me_data = data, me_next = next\<rparr>)"
  using assms unfolding coherent_def
  by (auto dest!: metaCache.put_keeps [where P = "\<lambda>k e. readMetaBlock (fs_rs fs) (fs_d fs) k =
        Inr (me_data e, me_next e)", rotated 2])

lemma readMetaBlockCached_None:
  "readMetaBlockCached fs at None = (readMetaBlock (fs_rs fs) (fs_d fs) at, None)"
  by (auto simp: readMetaBlockCached_def split: sum.split prod.split)

lemma readMetaBlockCached_transparent [transparent_intros]:
  "transparent (coherent fs dc) None (readMetaBlockCached fs at)"
proof (rule transparentI)
  fix c assume co: "coherent fs dc c"
  show "fst (readMetaBlockCached fs at c) = fst (readMetaBlockCached fs at None)"
    using co unfolding coherent_def
    by (auto simp: readMetaBlockCached_def split: option.split sum.split)
  show "coherent fs dc (snd (readMetaBlockCached fs at c))"
    using co coherent_putMeta [OF co]
    by (auto simp: readMetaBlockCached_def split: option.split sum.split)
qed (simp add: readMetaBlockCached_None)

lemma cur_load_transparent [transparent_intros]:
  "transparent (coherent fs dc) None (cur_load fs c)"
  unfolding cur_load_def by (intro transparent_intros)

lemma newMetaCursor_transparent [transparent_intros]:
  "transparent (coherent fs dc) None (newMetaCursor fs blockStart inBlockOff)"
  unfolding newMetaCursor_def by (intro transparent_intros)

lemma cur_refill_transparent [transparent_intros]:
  "transparent (coherent fs dc) None (cur_refill fs c)"
  unfolding cur_refill_def by (intro transparent_intros)

lemma cur_read_unfold:
  "cur_read fs c n =
     (if n = 0 then retM ([], c)
      else bindM (cur_refill fs c) (\<lambda>c'.
        let k = min n (length (mc_cur c') - mc_pos c') in
        bindM (cur_read fs (c'\<lparr>mc_pos := mc_pos c' + k\<rparr>) (n - k)) (\<lambda>(bs, c'').
        retM (take k (drop (mc_pos c') (mc_cur c')) @ bs, c''))))"
  by (rule ext, subst cur_read.simps)
    (auto simp: bindM_def Let_def split: prod.splits sum.splits)

lemma cur_read_transparent [transparent_intros]:
  "transparent (coherent fs dc) None (cur_read fs c n)"
proof (induction n arbitrary: c rule: less_induct)
  case (less n)
  show ?case
    by (subst cur_read_unfold)
      (intro transparent_intros less, auto dest: cur_refill_pos)
qed


section \<open>What the cursor reads\<close>

text \<open>
  \<open>stream_from fs at bs\<close>: the payloads of consecutive metadata blocks from file
  offset \<open>at\<close> on concatenate to \<open>bs\<close>. \<open>avail fs c bs\<close>: the cursor \<open>c\<close> still
  has \<open>bs\<close> in front of it.
\<close>

inductive stream_from :: "FS \<Rightarrow> int64 \<Rightarrow> bytes \<Rightarrow> bool" for fs where
  stream_nil: "stream_from fs at []"
| stream_block:
    "\<lbrakk>readMetaBlock (fs_rs fs) (fs_d fs) at = Inr (data, next); data \<noteq> []; stream_from fs next rest\<rbrakk>
      \<Longrightarrow> stream_from fs at (data @ rest)"

lemma stream_from_nonemptyE:
  assumes "stream_from fs at bs" "bs \<noteq> []"
  obtains data nx rest where "readMetaBlock (fs_rs fs) (fs_d fs) at = Inr (data, nx)" "data \<noteq> []"
    "stream_from fs nx rest" "bs = data @ rest"
  using assms by (cases rule: stream_from.cases) auto

definition avail :: "FS \<Rightarrow> metaCursor \<Rightarrow> bytes \<Rightarrow> bool" where
  "avail fs c bs \<longleftrightarrow> (\<exists>rest. stream_from fs (mc_next c) rest \<and> bs = drop (mc_pos c) (mc_cur c) @ rest)"

lemma cur_load_None:
  "cur_load fs c None =
     (case readMetaBlock (fs_rs fs) (fs_d fs) (mc_next c) of
        Inl e \<Rightarrow> (Inl e, None)
      | Inr (data, next) \<Rightarrow> (Inr (c\<lparr>mc_cur := data, mc_next := next, mc_pos := 0\<rparr>), None))"
  by (auto simp: cur_load_def bindM_def readMetaBlockCached_None split: sum.split prod.split)

lemma cur_refill_avail:
  assumes "avail fs c bs" "bs \<noteq> []"
  shows "\<exists>c'. cur_refill fs c None = (Inr c', None) \<and> avail fs c' bs \<and> mc_pos c' < length (mc_cur c')"
proof (cases "mc_pos c \<ge> length (mc_cur c)")
  case True
  with assms have "stream_from fs (mc_next c) bs" by (auto simp: avail_def)
  then obtain data nx rest where
    "readMetaBlock (fs_rs fs) (fs_d fs) (mc_next c) = Inr (data, nx)" "data \<noteq> []"
    "stream_from fs nx rest" "bs = data @ rest"
    using assms(2) by (rule stream_from_nonemptyE)
  with True show ?thesis
    by (auto simp: cur_refill_def cur_load_None bindM_def avail_def)
next
  case False
  with assms show ?thesis by (simp add: cur_refill_def)
qed

text \<open>The cursor returns exactly the next bytes of the stream, and advances past them.\<close>

lemma cur_read_avail:
  assumes "avail fs c bs" "n \<le> length bs"
  shows "\<exists>c'. cur_read fs c n None = (Inr (take n bs, c'), None) \<and> avail fs c' (drop n bs)"
  using assms
proof (induction n arbitrary: c bs rule: less_induct)
  case (less n)
  show ?case
  proof (cases "n = 0")
    case True
    with less.prems show ?thesis by (simp add: cur_read.simps)
  next
    case False
    with less.prems have "bs \<noteq> []" by auto
    with less.prems obtain c' where c': "cur_refill fs c None = (Inr c', None)" "avail fs c' bs"
      "mc_pos c' < length (mc_cur c')"
      using cur_refill_avail by blast
    define k where "k = min n (length (mc_cur c') - mc_pos c')"
    let ?d = "c'\<lparr>mc_pos := mc_pos c' + k\<rparr>"
    from c'(2) obtain rest where bs: "bs = drop (mc_pos c') (mc_cur c') @ rest"
      and rest: "stream_from fs (mc_next c') rest"
      by (auto simp: avail_def)
    have k: "0 < k" "k \<le> n" "k \<le> length (mc_cur c') - mc_pos c'" using False c'(3) by (auto simp: k_def)
    have "take n bs = take k bs @ take (n - k) (drop k bs)"
      using k take_add [of k "n - k" bs] by simp
    also have "take k bs = take k (drop (mc_pos c') (mc_cur c'))" using bs k by simp
    finally have tk: "take k (drop (mc_pos c') (mc_cur c')) @ take (n - k) (drop k bs) = take n bs"
      by simp
    have "avail fs ?d (drop k bs)" using rest bs k by (auto simp: avail_def add.commute)
    moreover have "n - k \<le> length (drop k bs)" using less.prems by simp
    ultimately obtain c'' where
      "cur_read fs ?d (n - k) None = (Inr (take (n - k) (drop k bs), c''), None)"
      "avail fs c'' (drop (n - k) (drop k bs))"
      using less.IH [of "n - k" ?d "drop k bs"] k by auto
    with k tk show ?thesis
      by (subst cur_read.simps)
        (simp add: False c'(1) k_def [symmetric])
  qed
qed

lemma cur_read_append:
  assumes "avail fs c (x @ rest)"
  shows "\<exists>c'. cur_read fs c (length x) None = (Inr (x, c'), None) \<and> avail fs c' rest"
  using cur_read_avail [OF assms, of "length x"] by simp

lemma newMetaCursor_avail:
  assumes "stream_from fs at bs" "off < length bs"
    "readMetaBlock (fs_rs fs) (fs_d fs) at = Inr (data, next)" "off \<le> length data"
  shows "\<exists>c. newMetaCursor fs at off None = (Inr c, None) \<and> avail fs c (drop off bs)"
proof -
  have "bs \<noteq> []" using assms(2) by auto
  with assms(1,3) obtain rest where "stream_from fs next rest" "bs = data @ rest"
    using stream_from_nonemptyE [of fs at bs] by (metis Inr_inject prod.inject)
  with assms show ?thesis
    by (auto simp: newMetaCursor_def bindM_def cur_load_None avail_def)
qed

lemma length_cur_read:
  "cur_read fs c n s = (Inr (bs, c'), s') \<Longrightarrow> length bs = n"
proof (induction n arbitrary: c s bs s' rule: less_induct)
  case (less n)
  show ?case
  proof (cases "n = 0")
    case True
    with less.prems show ?thesis by (simp add: cur_read.simps)
  next
    case False
    with less.prems obtain d s1 k bs2 where
      d: "cur_refill fs c s = (Inr d, s1)" and k: "k = min n (length (mc_cur d) - mc_pos d)"
      and r: "cur_read fs (d\<lparr>mc_pos := mc_pos d + k\<rparr>) (n - k) s1 = (Inr (bs2, c'), s')"
      and bs: "bs = take k (drop (mc_pos d) (mc_cur d)) @ bs2"
      by (auto simp: cur_read.simps [of fs c n s] Let_def split: prod.splits sum.splits)
    have "0 < k" using cur_refill_pos [OF d] False k by simp
    then have "length bs2 = n - k" using less.IH [OF _ r] False by simp
    with bs k show ?thesis by simp
  qed
qed

text \<open>Reading is a stream: one long read is two short ones, errors and cache included.\<close>

definition prepend :: "bytes \<Rightarrow> (cachePtr, bytes \<times> metaCursor) eff \<Rightarrow> (cachePtr, bytes \<times> metaCursor) eff" where
  "prepend xs m = bindM m (\<lambda>(ys, c). retM (xs @ ys, c))"

lemma prepend_apply:
  "prepend xs m s = (case m s of (Inl e, s') \<Rightarrow> (Inl e, s') | (Inr (ys, c), s') \<Rightarrow> (Inr (xs @ ys, c), s'))"
  by (auto simp: prepend_def bindM_def split: prod.splits sum.splits)

lemma prepend_cong: "m s = m' s' \<Longrightarrow> prepend xs m s = prepend xs m' s'"
  by (simp add: prepend_apply)

lemma prepend_prepend: "prepend xs (prepend ys m) = prepend (xs @ ys) m"
  by (auto simp: prepend_apply fun_eq_iff split: prod.splits sum.splits)

lemma prepend_bind:
  "prepend xs (bindM m (\<lambda>(ys, c). prepend ys (f c))) = bindM (prepend xs m) (\<lambda>(ys, c). prepend ys (f c))"
  by (auto simp: prepend_def bindM_def fun_eq_iff split: prod.splits sum.splits)

lemma cur_read_full_step:
  assumes "cur_refill fs c s = (Inr d, s1)" "n \<noteq> 0" "k = min n (length (mc_cur d) - mc_pos d)"
  shows "cur_read fs c n s =
     prepend (take k (drop (mc_pos d) (mc_cur d))) (cur_read fs (d\<lparr>mc_pos := mc_pos d + k\<rparr>) (n - k)) s1"
  using assms by (simp add: cur_read.simps [of fs c n s] prepend_apply Let_def)

lemma cur_read_step:
  assumes d: "cur_refill fs c s = (Inr d, s1)" and n: "n \<noteq> 0"
    and k: "k \<le> n" "k \<le> length (mc_cur d) - mc_pos d"
  shows "cur_read fs c n s =
     prepend (take k (drop (mc_pos d) (mc_cur d))) (cur_read fs (d\<lparr>mc_pos := mc_pos d + k\<rparr>) (n - k)) s1"
proof (cases "k = min n (length (mc_cur d) - mc_pos d)")
  case True
  with d n show ?thesis by (rule cur_read_full_step)
next
  case False
  let ?d = "d\<lparr>mc_pos := mc_pos d + k\<rparr>"
  let ?m = "min n (length (mc_cur d) - mc_pos d)"
  from False k have lt: "k < ?m" by (auto simp: min_def split: if_splits)
  then have "\<not> length (mc_cur d) \<le> mc_pos d + k" by linarith
  then have "cur_refill fs ?d s1 = (Inr ?d, s1)" by (simp add: cur_refill_def)
  then have "cur_read fs ?d (n - k) s1 =
      prepend (take (?m - k) (drop (mc_pos d + k) (mc_cur d)))
        (cur_read fs (d\<lparr>mc_pos := mc_pos d + ?m\<rparr>) (n - ?m)) s1"
    using lt by (subst cur_read_full_step [where d = ?d and k = "?m - k"]) auto
  moreover have "take k (drop (mc_pos d) (mc_cur d)) @ take (?m - k) (drop (mc_pos d + k) (mc_cur d)) =
      take ?m (drop (mc_pos d) (mc_cur d))"
    using lt take_add [of k "?m - k" "drop (mc_pos d) (mc_cur d)"] by (simp add: add.commute)
  ultimately have "prepend (take k (drop (mc_pos d) (mc_cur d))) (cur_read fs ?d (n - k)) s1 =
      prepend (take ?m (drop (mc_pos d) (mc_cur d)))
        (cur_read fs (d\<lparr>mc_pos := mc_pos d + ?m\<rparr>) (n - ?m)) s1"
    by (simp only: prepend_prepend prepend_cong [of "cur_read fs ?d (n - k)"])
  also have "\<dots> = cur_read fs c n s"
    using cur_read_full_step [OF d n refl] by simp
  finally show ?thesis by simp
qed

lemma cur_read_split:
  "cur_read fs c (m + n) s =
     bindM (cur_read fs c m) (\<lambda>(xs, c'). prepend xs (cur_read fs c' n)) s"
proof (induction m arbitrary: c s rule: less_induct)
  case (less m)
  show ?case
  proof (cases "m = 0")
    case True
    then show ?thesis
      by (simp add: cur_read.simps [of fs c 0] bindM_def prepend_apply split: prod.splits sum.splits)
  next
    case False
    obtain r s1 where refill: "cur_refill fs c s = (r, s1)" by (cases "cur_refill fs c s")
    show ?thesis
    proof (cases r)
      case (Inl e)
      with refill False show ?thesis by (simp add: cur_read.simps [of fs c] bindM_def)
    next
      case (Inr d)
      define k where "k = min m (length (mc_cur d) - mc_pos d)"
      let ?x = "take k (drop (mc_pos d) (mc_cur d))" and ?d = "d\<lparr>mc_pos := mc_pos d + k\<rparr>"
      have refill: "cur_refill fs c s = (Inr d, s1)" using refill Inr by simp
      have k: "0 < k" "k \<le> m" "k \<le> length (mc_cur d) - mc_pos d"
        using cur_refill_pos [OF refill] False by (auto simp: k_def)
      have m: "cur_read fs c m s = prepend ?x (cur_read fs ?d (m - k)) s1"
        using refill False k(2,3) by (rule cur_read_step)
      have "cur_read fs c (m + n) s = prepend ?x (cur_read fs ?d ((m - k) + n)) s1"
        using cur_read_step [OF refill, of "m + n" k] False k by simp
      also have "\<dots> = prepend ?x (bindM (cur_read fs ?d (m - k)) (\<lambda>(xs, c'). prepend xs (cur_read fs c' n))) s1"
        using less.IH [of "m - k" ?d s1] k False by (intro prepend_cong) simp
      also have "\<dots> = bindM (prepend ?x (cur_read fs ?d (m - k))) (\<lambda>(xs, c'). prepend xs (cur_read fs c' n)) s1"
        by (simp add: prepend_bind)
      also have "\<dots> = bindM (cur_read fs c m) (\<lambda>(xs, c'). prepend xs (cur_read fs c' n)) s"
        by (simp add: bindM_def m)
      finally show ?thesis .
    qed
  qed
qed

end
