(* ===== verification/Inode.thy ===== *)
theory Inode
  imports Metadata
begin

text \<open>
  \<^verbatim>\<open>inode.go\<close>: decoding of the fourteen inode kinds from the inode table, and
  the block list of regular files, which is read in chunks.
\<close>

definition inodeBasicDir :: u16 where "inodeBasicDir = 1"
definition inodeBasicFile :: u16 where "inodeBasicFile = 2"
definition inodeBasicSymlink :: u16 where "inodeBasicSymlink = 3"
definition inodeBasicBlkdev :: u16 where "inodeBasicBlkdev = 4"
definition inodeBasicChrdev :: u16 where "inodeBasicChrdev = 5"
definition inodeBasicFifo :: u16 where "inodeBasicFifo = 6"
definition inodeBasicSocket :: u16 where "inodeBasicSocket = 7"
definition inodeExtDir :: u16 where "inodeExtDir = 8"
definition inodeExtFile :: u16 where "inodeExtFile = 9"
definition inodeExtSymlink :: u16 where "inodeExtSymlink = 10"
definition inodeExtBlkdev :: u16 where "inodeExtBlkdev = 11"
definition inodeExtChrdev :: u16 where "inodeExtChrdev = 12"
definition inodeExtFifo :: u16 where "inodeExtFifo = 13"
definition inodeExtSocket :: u16 where "inodeExtSocket = 14"

lemmas inode_type_defs =
  inodeBasicDir_def inodeBasicFile_def inodeBasicSymlink_def inodeBasicBlkdev_def
  inodeBasicChrdev_def inodeBasicFifo_def inodeBasicSocket_def inodeExtDir_def inodeExtFile_def
  inodeExtSymlink_def inodeExtBlkdev_def inodeExtChrdev_def inodeExtFifo_def inodeExtSocket_def

definition sIFIFO :: u16 where "sIFIFO = 0x1000"
definition sIFCHR :: u16 where "sIFCHR = 0x2000"
definition sIFDIR :: u16 where "sIFDIR = 0x4000"
definition sIFBLK :: u16 where "sIFBLK = 0x6000"
definition sIFREG :: u16 where "sIFREG = 0x8000"
definition sIFLNK :: u16 where "sIFLNK = 0xA000"
definition sIFSOCK :: u16 where "sIFSOCK = 0xC000"

lemmas mode_defs = sIFIFO_def sIFCHR_def sIFDIR_def sIFBLK_def sIFREG_def sIFLNK_def sIFSOCK_def

definition invalidFrag :: u32 where "invalidFrag = 0xFFFFFFFF"
definition noXattr :: u32 where "noXattr = 0xFFFFFFFF"

record inode =
  in_Type :: u16
  in_Mode :: u16
  in_UID :: u16
  in_GID :: u16
  in_Mtime :: u32
  in_Number :: u32
  in_Size :: u64
  in_xattrIdx :: u32
  in_blocksStart :: u64
  in_fragIdx :: u32
  in_fragOffset :: u32
  in_blockSizes :: "u32 list"
  in_dirStartBlock :: u32
  in_dirOffset :: u16
  in_symlinkTarget :: bytes

definition isDir :: "inode \<Rightarrow> bool" where
  "isDir i \<longleftrightarrow> in_Type i = inodeBasicDir \<or> in_Type i = inodeExtDir"

definition isRegular :: "inode \<Rightarrow> bool" where
  "isRegular i \<longleftrightarrow> in_Type i = inodeBasicFile \<or> in_Type i = inodeExtFile"

definition isSymlink :: "inode \<Rightarrow> bool" where
  "isSymlink i \<longleftrightarrow> in_Type i = inodeBasicSymlink \<or> in_Type i = inodeExtSymlink"

definition typeBits :: "u16 \<Rightarrow> u16" where
  "typeBits t =
     (if t = inodeBasicDir \<or> t = inodeExtDir then sIFDIR
      else if t = inodeBasicFile \<or> t = inodeExtFile then sIFREG
      else if t = inodeBasicSymlink \<or> t = inodeExtSymlink then sIFLNK
      else if t = inodeBasicChrdev \<or> t = inodeExtChrdev then sIFCHR
      else if t = inodeBasicBlkdev \<or> t = inodeExtBlkdev then sIFBLK
      else if t = inodeBasicFifo \<or> t = inodeExtFifo then sIFIFO
      else if t = inodeBasicSocket \<or> t = inodeExtSocket then sIFSOCK
      else 0)"

text \<open>
  \<^verbatim>\<open>blockCount\<close> at the width of the source: the sum of the rounding-up branch
  wraps, and the result is an \<^verbatim>\<open>int\<close> that may be negative.
\<close>

definition blockCount :: "u64 \<Rightarrow> u32 \<Rightarrow> bool \<Rightarrow> int64" where
  "blockCount fileSize blockSize hasFrag =
     (if hasFrag then fileSize div ucast blockSize
      else (fileSize + ucast blockSize - 1) div ucast blockSize)"

definition dirDataSize :: "u64 \<Rightarrow> u64" where
  "dirDataSize stored = (if stored \<le> 3 then 0 else stored - 3)"

definition blockListChunk :: nat where "blockListChunk = 1024"

text \<open>The loop of \<^verbatim>\<open>readBlockList\<close>: at most \<open>blockListChunk\<close> entries per read.\<close>

function blockListLoop :: "FS \<Rightarrow> nat \<Rightarrow> u32 list \<Rightarrow> metaCursor \<Rightarrow> (cachePtr, u32 list \<times> metaCursor) eff" where
  "blockListLoop fs n acc c =
     (if length acc < n then
        (let k = min (n - length acc) blockListChunk in
         bindM (cur_read fs c (4 * k)) (\<lambda>(buf, c').
         blockListLoop fs n (acc @ map (\<lambda>j. Uint32 (drop (4 * j) buf)) [0..<k]) c'))
      else retM (acc, c))"
  by pat_completeness auto
termination
  by (relation "measure (\<lambda>(fs, n, acc, c). n - length acc)") (auto simp: blockListChunk_def)

declare blockListLoop.simps [simp del]

definition readBlockList :: "FS \<Rightarrow> inode \<Rightarrow> metaCursor \<Rightarrow> (cachePtr, inode) eff" where
  "readBlockList fs i c =
     (let hasFrag = (in_fragIdx i \<noteq> invalidFrag);
          n = blockCount (in_Size i) (sb_BlockSize (fs_sb fs)) hasFrag in
      if n <s 0 \<or> 0x1000000 <s n then throwM (Wrapped ErrCorrupt)
      else bindM (blockListLoop fs (unat n) [] c) (\<lambda>(sizes, _). retM (i\<lparr>in_blockSizes := sizes\<rparr>)))"

text \<open>The 16-byte header every inode starts with.\<close>

definition decodeInodeHeader :: "bytes \<Rightarrow> inode" where
  "decodeInodeHeader hdr =
     (let t = Uint16 hdr in
      \<lparr> in_Type = t, in_Mode = Uint16 (drop 2 hdr) OR typeBits t,
        in_UID = Uint16 (drop 4 hdr), in_GID = Uint16 (drop 6 hdr),
        in_Mtime = Uint32 (drop 8 hdr), in_Number = Uint32 (drop 12 hdr),
        in_Size = 0, in_xattrIdx = noXattr, in_blocksStart = 0, in_fragIdx = 0, in_fragOffset = 0,
        in_blockSizes = [], in_dirStartBlock = 0, in_dirOffset = 0, in_symlinkTarget = [] \<rparr>)"

text \<open>The cases of the switch in \<^verbatim>\<open>readInode\<close>.\<close>

definition readBasicDir :: "FS \<Rightarrow> inode \<Rightarrow> metaCursor \<Rightarrow> (cachePtr, inode) eff" where
  "readBasicDir fs i c =
     bindM (cur_read fs c 16) (\<lambda>(b, _).
     retM (i\<lparr>in_dirStartBlock := Uint32 (drop 0 b), in_dirOffset := Uint16 (drop 10 b),
             in_Size := dirDataSize (ucast (Uint16 (drop 8 b)))\<rparr>))"

definition readExtDir :: "FS \<Rightarrow> inode \<Rightarrow> metaCursor \<Rightarrow> (cachePtr, inode) eff" where
  "readExtDir fs i c =
     bindM (cur_read fs c 24) (\<lambda>(b, _).
     retM (i\<lparr>in_dirStartBlock := Uint32 (drop 8 b), in_dirOffset := Uint16 (drop 18 b),
             in_xattrIdx := Uint32 (drop 20 b),
             in_Size := dirDataSize (ucast (Uint32 (drop 4 b)))\<rparr>))"

definition readBasicFile :: "FS \<Rightarrow> inode \<Rightarrow> metaCursor \<Rightarrow> (cachePtr, inode) eff" where
  "readBasicFile fs i c =
     bindM (cur_read fs c 16) (\<lambda>(b, c').
     readBlockList fs
       (i\<lparr>in_blocksStart := ucast (Uint32 (drop 0 b)), in_fragIdx := Uint32 (drop 4 b),
          in_fragOffset := Uint32 (drop 8 b), in_Size := ucast (Uint32 (drop 12 b))\<rparr>) c')"

definition readExtFile :: "FS \<Rightarrow> inode \<Rightarrow> metaCursor \<Rightarrow> (cachePtr, inode) eff" where
  "readExtFile fs i c =
     bindM (cur_read fs c 40) (\<lambda>(b, c').
     readBlockList fs
       (i\<lparr>in_blocksStart := Uint64 (drop 0 b), in_Size := Uint64 (drop 8 b),
          in_fragIdx := Uint32 (drop 28 b), in_fragOffset := Uint32 (drop 32 b),
          in_xattrIdx := Uint32 (drop 36 b)\<rparr>) c')"

definition readSymlink :: "FS \<Rightarrow> inode \<Rightarrow> metaCursor \<Rightarrow> (cachePtr, inode) eff" where
  "readSymlink fs i c =
     bindM (cur_read fs c 8) (\<lambda>(b, c1).
     let n = Uint32 (drop 4 b) in
     if unat n > metaBlockMax then throwM (Wrapped ErrCorrupt)
     else bindM (cur_read fs c1 (unat n)) (\<lambda>(target, c2).
       let i' = i\<lparr>in_symlinkTarget := target, in_Size := ucast n\<rparr> in
       if in_Type i = inodeExtSymlink then
         bindM (cur_read fs c2 4) (\<lambda>(xb, _). retM (i'\<lparr>in_xattrIdx := Uint32 xb\<rparr>))
       else retM i'))"

definition readInodeBody :: "FS \<Rightarrow> inode \<Rightarrow> metaCursor \<Rightarrow> (cachePtr, inode) eff" where
  "readInodeBody fs i c =
     (let t = in_Type i in
      if t = inodeBasicDir then readBasicDir fs i c
      else if t = inodeExtDir then readExtDir fs i c
      else if t = inodeBasicFile then readBasicFile fs i c
      else if t = inodeExtFile then readExtFile fs i c
      else if t = inodeBasicSymlink \<or> t = inodeExtSymlink then readSymlink fs i c
      else if t = inodeBasicChrdev \<or> t = inodeBasicBlkdev \<or> t = inodeBasicFifo \<or>
              t = inodeBasicSocket \<or> t = inodeExtChrdev \<or> t = inodeExtBlkdev \<or>
              t = inodeExtFifo \<or> t = inodeExtSocket then retM i
      else throwM (Wrapped ErrCorrupt))"

definition readInode :: "FS \<Rightarrow> u64 \<Rightarrow> (cachePtr, inode) eff" where
  "readInode fs ref =
     (case inodeRef ref of (blockOff, inBlockOff) \<Rightarrow>
      bindM (newMetaCursor fs (sb_InodeTableStart (fs_sb fs) + blockOff) inBlockOff) (\<lambda>c.
      bindM (cur_read fs c 16) (\<lambda>(hdr, c').
      readInodeBody fs (decodeInodeHeader hdr) c')))"


section \<open>Caching does not change what is decoded\<close>

lemma blockListLoop_transparent [transparent_intros]:
  "transparent (coherent fs dc) None (blockListLoop fs n acc c)"
proof (induction fs n acc c rule: blockListLoop.induct)
  case (1 fs n acc c)
  show ?case
    by (subst blockListLoop.simps) (intro transparent_intros "1"; simp)
qed

lemma readBlockList_transparent [transparent_intros]:
  "transparent (coherent fs dc) None (readBlockList fs i c)"
  unfolding readBlockList_def by (intro transparent_intros)

lemma readInodeBody_transparent [transparent_intros]:
  "transparent (coherent fs dc) None (readInodeBody fs i c)"
  unfolding readInodeBody_def readBasicDir_def readExtDir_def readBasicFile_def readExtFile_def
    readSymlink_def
  by (intro transparent_intros)

lemma readInode_transparent [transparent_intros]:
  "transparent (coherent fs dc) None (readInode fs ref)"
  unfolding readInode_def by (intro transparent_intros)


section \<open>The block list\<close>

text \<open>Reading in chunks gives what one read of the whole list gives.\<close>

definition decodeWords :: "nat \<Rightarrow> bytes \<Rightarrow> u32 list" where
  "decodeWords n buf = map (\<lambda>j. Uint32 (drop (4 * j) buf)) [0..<n]"

lemma length_decodeWords [simp]: "length (decodeWords n buf) = n"
  by (simp add: decodeWords_def)

lemma decodeWords_append:
  assumes "length xs = 4 * m"
  shows "decodeWords (m + n) (xs @ ys) = decodeWords m xs @ decodeWords n ys"
proof (rule nth_equalityI)
  fix j assume j: "j < length (decodeWords (m + n) (xs @ ys))"
  show "decodeWords (m + n) (xs @ ys) ! j = (decodeWords m xs @ decodeWords n ys) ! j"
  proof (cases "j < m")
    case True
    with assms have "4 * j + 4 \<le> length xs" by linarith
    then have "take 4 (drop (4 * j) (xs @ ys)) = take 4 (drop (4 * j) xs)" by simp
    with True j show ?thesis by (simp add: decodeWords_def nth_append Uint32_def del: take_append drop_append)
  next
    case False
    with j have "j - m < n" by auto
    with False assms j show ?thesis by (simp add: decodeWords_def nth_append right_diff_distrib')
  qed
qed simp

lemma decodeWords_split:
  assumes "length buf = 4 * k" "k \<le> n"
  shows "decodeWords n (buf @ b) = decodeWords k buf @ decodeWords (n - k) b"
  using decodeWords_append [OF assms(1), of "n - k" b] assms(2) by simp

lemma blockListLoop_chunk:
  assumes "length acc < n" "k = min (n - length acc) blockListChunk"
  shows "blockListLoop fs n acc c s =
     bindM (cur_read fs c (4 * k)) (\<lambda>(buf, c'). blockListLoop fs n (acc @ decodeWords k buf) c') s"
  using assms by (subst blockListLoop.simps) (simp add: decodeWords_def Let_def)

lemma blockListLoop_one_read:
  assumes "length acc \<le> n"
  shows "blockListLoop fs n acc c s =
     (case cur_read fs c (4 * (n - length acc)) s of
        (Inl e, s') \<Rightarrow> (Inl e, s')
      | (Inr (buf, c'), s') \<Rightarrow> (Inr (acc @ decodeWords (n - length acc) buf, c'), s'))"
  using assms
proof (induction fs n acc c arbitrary: s rule: blockListLoop.induct)
  case (1 fs n acc c)
  show ?case
  proof (cases "length acc < n")
    case False
    then show ?thesis
      by (simp add: blockListLoop.simps [of fs n acc c] cur_read.simps [of fs c 0] decodeWords_def)
  next
    case True
    define k where "k = min (n - length acc) blockListChunk"
    let ?r = "n - length acc - k"
    have k: "k \<le> n - length acc" by (simp add: k_def)
    then have sum: "4 * (n - length acc) = 4 * k + 4 * ?r" by simp
    note unf = blockListLoop_chunk [OF True k_def, of fs c s]
    obtain r s1 where read: "cur_read fs c (4 * k) s = (r, s1)" by (cases "cur_read fs c (4 * k) s")
    show ?thesis
    proof (cases r)
      case (Inl e)
      with read show ?thesis unfolding unf sum by (simp add: cur_read_split)
    next
      case (Inr p)
      obtain buf c' where p: "p = (buf, c')" by (cases p)
      have len: "length buf = 4 * k" using read Inr p length_cur_read by auto
      have l: "n - length (acc @ decodeWords k buf) = ?r" "length (acc @ decodeWords k buf) \<le> n" using k True by simp_all
      note IH = "1.IH" [OF True k_def, of buf c' s1, folded decodeWords_def, OF l(2), unfolded l(1)]
      from IH show ?thesis
        unfolding unf sum using read Inr p
        by (simp add: cur_read_split prepend_apply decodeWords_split [OF len k] split: prod.splits sum.splits)
    qed
  qed
qed

lemma blockListLoop_length:
  assumes "blockListLoop fs n acc c s = (Inr (sizes, c'), s')" "length acc \<le> n"
  shows "length sizes = n"
  using assms by (auto simp: blockListLoop_one_read split: prod.splits sum.splits)


section \<open>What a decoded inode satisfies\<close>

text \<open>
  \<open>inode_wf\<close>: the type is one of the fourteen; the block list of a regular file
  has exactly \<open>blockCount\<close> entries, at most \<open>2 ^ 24\<close>; a symbolic link's size is
  the length of its target, at most 8 KiB; a directory's size fits 32 bits.
\<close>

definition inode_wf :: "FS \<Rightarrow> inode \<Rightarrow> bool" where
  "inode_wf fs i \<longleftrightarrow>
     1 \<le> in_Type i \<and> in_Type i \<le> 14 \<and>
     (isRegular i \<longrightarrow>
        length (in_blockSizes i) =
          unat (blockCount (in_Size i) (sb_BlockSize (fs_sb fs)) (in_fragIdx i \<noteq> invalidFrag)) \<and>
        length (in_blockSizes i) \<le> 2 ^ 24) \<and>
     (isSymlink i \<longrightarrow> unat (in_Size i) = length (in_symlinkTarget i) \<and> unat (in_Size i) \<le> metaBlockMax) \<and>
     (isDir i \<longrightarrow> unat (in_Size i) < 2 ^ 32)"

lemma readBlockList_Inr:
  assumes "readBlockList fs i c s = (Inr i', s')"
  defines "n \<equiv> blockCount (in_Size i) (sb_BlockSize (fs_sb fs)) (in_fragIdx i \<noteq> invalidFrag)"
  shows "\<exists>sizes. i' = i\<lparr>in_blockSizes := sizes\<rparr> \<and> length sizes = unat n \<and> unat n \<le> 2 ^ 24"
proof -
  from assms have ok: "\<not> n <s 0" "\<not> 0x1000000 <s n"
    and "bindM (blockListLoop fs (unat n) [] c) (\<lambda>(sizes, _). retM (i\<lparr>in_blockSizes := sizes\<rparr>)) s = (Inr i', s')"
    by (auto simp: readBlockList_def n_def Let_def split: if_splits)
  then obtain sizes where "i' = i\<lparr>in_blockSizes := sizes\<rparr>" "length sizes = unat n"
    by (auto simp: bindM_eq_Inr dest: blockListLoop_length)
  moreover have "unat n \<le> 2 ^ 24"
    using ok sless_small [of "0x1000000" n] by (simp add: sless_0_iff)
  ultimately show ?thesis by blast
qed

lemma unat_dirDataSize_le: "unat (dirDataSize x) \<le> unat x"
  by (simp add: dirDataSize_def word_less_eq_iff_unsigned unat_sub)

lemma unat_ucast_u16_u64 [simp]: "unat (ucast (w :: u16) :: u64) = unat w"
  by (simp add: unsigned_ucast_eq take_bit_nat_eq_self_iff order.strict_trans [OF unsigned_less])

lemma unat_ucast_u32_u64 [simp]: "unat (ucast (w :: u32) :: u64) = unat w"
  by (simp add: unsigned_ucast_eq take_bit_nat_eq_self_iff order.strict_trans [OF unsigned_less])

lemma decodeInodeHeader_Type [simp]: "in_Type (decodeInodeHeader hdr) = Uint16 hdr"
  by (simp add: decodeInodeHeader_def Let_def)

lemma decodeInodeHeader_Mode [simp]:
  "in_Mode (decodeInodeHeader hdr) = Uint16 (drop 2 hdr) OR typeBits (Uint16 hdr)"
  by (simp add: decodeInodeHeader_def Let_def)

lemma readDirInode_wf:
  assumes "readBasicDir fs i c s = (Inr i', s') \<or> readExtDir fs i c s = (Inr i', s')"
  shows "in_Type i' = in_Type i \<and> in_Mode i' = in_Mode i \<and> unat (in_Size i') < 2 ^ 32"
proof -
  have "unat (dirDataSize (ucast (w :: u16))) < 2 ^ 32" for w
    using unat_dirDataSize_le [of "ucast w"] unat_bounds(2) [of w] by simp
  moreover have "unat (dirDataSize (ucast (w :: u32))) < 2 ^ 32" for w
    using unat_dirDataSize_le [of "ucast w"] unat_bounds(3) [of w] by simp
  ultimately show ?thesis
    using assms by (auto simp: readBasicDir_def readExtDir_def bindM_eq_Inr)
qed

lemma readFileInode_wf:
  assumes "readBasicFile fs i c s = (Inr i', s') \<or> readExtFile fs i c s = (Inr i', s')"
  shows "in_Type i' = in_Type i \<and> in_Mode i' = in_Mode i \<and>
    length (in_blockSizes i') =
      unat (blockCount (in_Size i') (sb_BlockSize (fs_sb fs)) (in_fragIdx i' \<noteq> invalidFrag)) \<and>
    length (in_blockSizes i') \<le> 2 ^ 24"
  using assms
  by (auto simp: readBasicFile_def readExtFile_def bindM_eq_Inr dest!: readBlockList_Inr)

lemma readSymlink_wf:
  assumes "readSymlink fs i c s = (Inr i', s')"
  shows "in_Type i' = in_Type i \<and> in_Mode i' = in_Mode i \<and>
    unat (in_Size i') = length (in_symlinkTarget i') \<and> unat (in_Size i') \<le> metaBlockMax"
  using assms
  by (auto simp: readSymlink_def bindM_eq_Inr Let_def not_less split: if_splits dest: length_cur_read)

lemmas inode_kind_defs = isDir_def isRegular_def isSymlink_def

lemma readInodeBody_wf:
  assumes "readInodeBody fs i c s = (Inr i', s')"
  shows "inode_wf fs i'" and "in_Type i' = in_Type i" and "in_Mode i' = in_Mode i"
proof -
  have "inode_wf fs i' \<and> in_Type i' = in_Type i \<and> in_Mode i' = in_Mode i"
  proof (cases "isDir i \<or> isRegular i \<or> isSymlink i")
    case True
    then consider "isDir i" | "isRegular i" | "isSymlink i" by blast
    then show ?thesis
    proof cases
      case 1
      with assms have "readBasicDir fs i c s = (Inr i', s') \<or> readExtDir fs i c s = (Inr i', s')"
        by (auto simp: readInodeBody_def isDir_def split: if_splits)
      from readDirInode_wf [OF this] 1 show ?thesis
        by (auto simp: inode_wf_def inode_kind_defs inode_type_defs)
    next
      case 2
      with assms have "readBasicFile fs i c s = (Inr i', s') \<or> readExtFile fs i c s = (Inr i', s')"
        by (auto simp: readInodeBody_def isRegular_def inode_type_defs)
      from readFileInode_wf [OF this] 2 show ?thesis
        by (auto simp: inode_wf_def inode_kind_defs inode_type_defs)
    next
      case 3
      with assms have "readSymlink fs i c s = (Inr i', s')"
        by (auto simp: readInodeBody_def isSymlink_def inode_type_defs)
      from readSymlink_wf [OF this] 3 show ?thesis
        by (auto simp: inode_wf_def inode_kind_defs inode_type_defs)
    qed
  next
    case False
    with assms have "in_Type i \<in> {4, 5, 6, 7, 11, 12, 13, 14} \<and> i' = i"
      by (auto simp: readInodeBody_def Let_def inode_kind_defs inode_type_defs split: if_split_asm)
    with False show ?thesis by (auto simp: inode_wf_def)
  qed
  then show "inode_wf fs i'" "in_Type i' = in_Type i" "in_Mode i' = in_Mode i" by simp_all
qed

lemma readInode_wf: "readInode fs ref s = (Inr i, s') \<Longrightarrow> inode_wf fs i"
  by (auto simp: readInode_def bindM_eq_Inr split: prod.splits dest: readInodeBody_wf(1))

text \<open>The mode always carries the type bits of the inode's type.\<close>

lemma readInode_mode:
  assumes "readInode fs ref s = (Inr i, s')"
  shows "in_Mode i AND typeBits (in_Type i) = typeBits (in_Type i)"
proof -
  from assms obtain hdr c s1 where body: "readInodeBody fs (decodeInodeHeader hdr) c s1 = (Inr i, s')"
    by (auto simp: readInode_def bindM_eq_Inr split: prod.splits)
  have "(x OR y) AND y = y" for x y :: u16
    by (rule bit_eqI) (auto simp: bit_simps)
  with readInodeBody_wf(2,3) [OF body] show ?thesis by simp
qed

end
