(* ===== verification/Dir.thy ===== *)
theory Dir
  imports Inode
begin

text \<open>
  \<^verbatim>\<open>dir.go\<close>: the listing of a directory, a run of headers that each introduce
  up to 256 entries.
\<close>

record dirEntry =
  de_Name :: bytes
  de_InodeRef :: u64
  de_Number :: u32
  de_Type :: u16

definition maxDirEntries :: nat where "maxDirEntries = 4194304"

text \<open>
  The inner loop of \<^verbatim>\<open>readDir\<close>: at most \<open>k\<close> further entries of a header.
  \<open>remaining\<close> is the \<^verbatim>\<open>int64\<close> of the source; every subtraction is guarded, so
  it is an unbounded integer here.
\<close>

fun dirEntriesLoop ::
  "FS \<Rightarrow> u64 \<Rightarrow> int \<Rightarrow> nat \<Rightarrow> metaCursor \<Rightarrow> int \<Rightarrow> dirEntry list
    \<Rightarrow> (cachePtr, metaCursor \<times> int \<times> dirEntry list) eff" where
  "dirEntriesLoop fs startBlock baseInode 0 c remaining out = retM (c, remaining, out)"
| "dirEntriesLoop fs startBlock baseInode (Suc k) c remaining out =
     (if remaining \<ge> 8 then
        bindM (cur_read fs c 8) (\<lambda>(eh, c1).
        let remaining1 = remaining - 8;
            offset = ucast (Uint16 (drop 0 eh)) :: u64;
            inodeDelta = sint (Uint16 (drop 2 eh));
            etype = Uint16 (drop 4 eh);
            nameLen = unat (Uint16 (drop 6 eh)) + 1 in
        if int nameLen > remaining1 \<or> nameLen > 256 then throwM (Wrapped ErrCorrupt)
        else bindM (cur_read fs c1 nameLen) (\<lambda>(nameB, c2).
          if length out \<ge> maxDirEntries then throwM (Wrapped ErrTooLarge)
          else dirEntriesLoop fs startBlock baseInode k c2 (remaining1 - int nameLen)
            (out @ [\<lparr>de_Name = nameB, de_InodeRef = push_bit 16 startBlock OR offset,
                      de_Number = word_of_int (baseInode + inodeDelta), de_Type = etype\<rparr>])))
      else retM (c, remaining, out))"

lemma dirEntriesLoop_SucE:
  assumes "dirEntriesLoop fs sb bi (Suc k) c remaining out s = (Inr r, s')"
  obtains (stop) "remaining < 8" "r = (c, remaining, out)"
  | (entry) eh c1 s1 nameB c2 s2 where
      "remaining \<ge> 8"
      "cur_read fs c 8 s = (Inr (eh, c1), s1)"
      "cur_read fs c1 (unat (Uint16 (drop 6 eh)) + 1) s1 = (Inr (nameB, c2), s2)"
      "int (unat (Uint16 (drop 6 eh)) + 1) \<le> remaining - 8"
      "unat (Uint16 (drop 6 eh)) + 1 \<le> 256"
      "length out < maxDirEntries"
      "dirEntriesLoop fs sb bi k c2 (remaining - 8 - int (unat (Uint16 (drop 6 eh)) + 1))
         (out @ [\<lparr>de_Name = nameB, de_InodeRef = push_bit 16 sb OR ucast (Uint16 (drop 0 eh)),
            de_Number = word_of_int (bi + sint (Uint16 (drop 2 eh))), de_Type = Uint16 (drop 4 eh)\<rparr>]) s2 =
         (Inr r, s')"
  using assms by (auto simp: bindM_eq_Inr Let_def not_less not_le split: if_splits)

declare dirEntriesLoop.simps [simp del]

lemma dirEntriesLoop_remaining:
  "dirEntriesLoop fs sb bi k c remaining out s = (Inr (c', remaining', out'), s')
    \<Longrightarrow> remaining' \<le> remaining"
proof (induction k arbitrary: c remaining out s)
  case 0
  then show ?case by (simp add: dirEntriesLoop.simps)
next
  case (Suc k)
  from Suc.prems show ?case
  proof (cases rule: dirEntriesLoop_SucE)
    case stop
    then show ?thesis by simp
  next
    case (entry eh c1 s1 nameB c2 s2)
    from Suc.IH [OF entry(7)] show ?thesis
      using of_nat_0_le_iff [of "unat (Uint16 (drop 6 eh)) + 1", where 'a = int] by linarith
  qed
qed

text \<open>The outer loop: one header, then its entries, while a header still fits.\<close>

function dirHeadersLoop ::
  "FS \<Rightarrow> metaCursor \<Rightarrow> int \<Rightarrow> dirEntry list \<Rightarrow> (cachePtr, dirEntry list) eff" where
  "dirHeadersLoop fs c remaining out s =
     (if remaining \<ge> 12 then
        (case cur_read fs c 12 s of
           (Inl e, s1) \<Rightarrow> (Inl e, s1)
         | (Inr (hdr, c1), s1) \<Rightarrow>
             (let count = unat (Uint32 (drop 0 hdr)) + 1;
                  startBlock = ucast (Uint32 (drop 4 hdr));
                  baseInode = sint (Uint32 (drop 8 hdr)) in
              if count < 1 \<or> count > 256 then (Inl (Wrapped ErrCorrupt), s1)
              else (case dirEntriesLoop fs startBlock baseInode count c1 (remaining - 12) out s1 of
                (Inl e, s2) \<Rightarrow> (Inl e, s2)
              | (Inr (c2, remaining2, out2), s2) \<Rightarrow> dirHeadersLoop fs c2 remaining2 out2 s2)))
      else (Inr out, s))"
  by pat_completeness auto
termination
  by (relation "measure (\<lambda>(fs, c, remaining, out, s). nat remaining)")
    (auto dest!: dirEntriesLoop_remaining [OF sym])

declare dirHeadersLoop.simps [simp del]

definition readDir :: "FS \<Rightarrow> inode \<Rightarrow> (cachePtr, dirEntry list) eff" where
  "readDir fs dir =
     (if in_Size dir = 0 then retM []
      else bindM (newMetaCursor fs (sb_DirTableStart (fs_sb fs) + ucast (in_dirStartBlock dir))
                   (unat (in_dirOffset dir))) (\<lambda>c.
           dirHeadersLoop fs c (sint (in_Size dir)) []))"


section \<open>Caching does not change a listing\<close>

lemma dirEntriesLoop_transparent [transparent_intros]:
  "transparent (coherent fs dc) None (dirEntriesLoop fs sb bi k c remaining out)"
proof (induction k arbitrary: c remaining out)
  case 0
  show ?case by (simp add: dirEntriesLoop.simps transparent_retM)
next
  case (Suc k)
  show ?case
    by (subst dirEntriesLoop.simps) (intro transparent_intros Suc)
qed

lemma dirHeadersLoop_unfold:
  "dirHeadersLoop fs c remaining out =
     (if remaining \<ge> 12 then
        bindM (cur_read fs c 12) (\<lambda>(hdr, c1).
        let count = unat (Uint32 (drop 0 hdr)) + 1;
            startBlock = ucast (Uint32 (drop 4 hdr));
            baseInode = sint (Uint32 (drop 8 hdr)) in
        if count < 1 \<or> count > 256 then throwM (Wrapped ErrCorrupt)
        else bindM (dirEntriesLoop fs startBlock baseInode count c1 (remaining - 12) out)
          (\<lambda>(c2, remaining2, out2). dirHeadersLoop fs c2 remaining2 out2))
      else retM out)"
  by (rule ext, subst dirHeadersLoop.simps)
    (auto simp: bindM_def Let_def split: prod.splits sum.splits)

lemma dirHeadersLoop_transparent [transparent_intros]:
  "transparent (coherent fs dc) None (dirHeadersLoop fs c remaining out)"
proof (induction "nat remaining" arbitrary: c remaining out rule: less_induct)
  case less
  show ?case
    by (subst dirHeadersLoop_unfold)
      (intro transparent_intros less, auto dest: dirEntriesLoop_remaining)
qed

lemma readDir_transparent [transparent_intros]:
  "transparent (coherent fs dc) None (readDir fs dir)"
  unfolding readDir_def by (intro transparent_intros)


section \<open>What a listing satisfies\<close>

text \<open>
  Every listed entry has a name of 1 to 256 bytes and a 48-bit reference, and
  the entries fit the declared size of the listing: each costs 8 bytes and its
  name.
\<close>

definition entry_ok :: "dirEntry \<Rightarrow> bool" where
  "entry_ok e \<longleftrightarrow> 1 \<le> length (de_Name e) \<and> length (de_Name e) \<le> 256 \<and> unat (de_InodeRef e) < 2 ^ 48"

definition entries_bytes :: "dirEntry list \<Rightarrow> nat" where
  "entries_bytes es = (\<Sum>e\<leftarrow>es. 8 + length (de_Name e))"

lemma entries_bytes_simps [simp]:
  "entries_bytes [] = 0" "entries_bytes (es @ [e]) = entries_bytes es + 8 + length (de_Name e)"
  by (simp_all add: entries_bytes_def)

lemma ref_bound:
  "unat (push_bit 16 (ucast (b :: u32)) OR ucast (w :: u16) :: u64) < 2 ^ 48"
proof -
  have "take_bit 48 (push_bit 16 (ucast b) OR ucast w :: u64) = push_bit 16 (ucast b) OR ucast w"
    by (rule bit_eqI) (auto simp: bit_simps dest: bit_imp_le_length)
  moreover have "unat (take_bit 48 w) < 2 ^ 48" for w :: u64
    using take_bit_nat_less_exp [of 48 "unat w"] by (simp only: unsigned_take_bit_eq)
  ultimately show ?thesis by metis
qed

definition listing_inv :: "int \<Rightarrow> int \<Rightarrow> dirEntry list \<Rightarrow> bool" where
  "listing_inv tot remaining out \<longleftrightarrow>
     int (entries_bytes out) + remaining \<le> tot \<and> 0 \<le> remaining \<and>
     length out \<le> maxDirEntries \<and> (\<forall>e\<in>set out. entry_ok e)"

lemma dirEntriesLoop_inv:
  assumes "dirEntriesLoop fs (ucast (b :: u32)) bi k c remaining out s = (Inr (c', remaining', out'), s')"
    and "listing_inv tot remaining out"
  shows "listing_inv tot remaining' out'"
  using assms
proof (induction k arbitrary: c remaining out s)
  case 0
  then show ?case by (simp add: dirEntriesLoop.simps)
next
  case (Suc k)
  from Suc.prems(1) show ?case
  proof (cases rule: dirEntriesLoop_SucE)
    case stop
    with Suc.prems(2) show ?thesis by simp
  next
    case (entry eh c1 s1 nameB c2 s2)
    have len: "length nameB = unat (Uint16 (drop 6 eh)) + 1" using length_cur_read [OF entry(3)] .
    show ?thesis
      using Suc.prems(2) entry(4-6) len ref_bound [of b "Uint16 (drop 0 eh)"]
      by (intro Suc.IH [OF entry(7)]) (auto simp: listing_inv_def entry_ok_def)
  qed
qed

lemma dirHeadersLoop_inv:
  assumes "dirHeadersLoop fs c remaining out s = (Inr out', s')" "listing_inv tot remaining out"
  shows "\<exists>r. listing_inv tot r out'"
  using assms
proof (induction "nat remaining" arbitrary: c remaining out s rule: less_induct)
  case less
  show ?case
  proof (cases "remaining \<ge> 12")
    case False
    with less.prems have "out' = out" by (simp add: dirHeadersLoop.simps)
    with less.prems(2) show ?thesis by blast
  next
    case True
    with less.prems(1) obtain hdr c1 s1 c2 remaining2 out2 s2 where
      es: "dirEntriesLoop fs (ucast (Uint32 (drop 4 hdr))) (sint (Uint32 (drop 8 hdr)))
         (unat (Uint32 (drop 0 hdr)) + 1) c1 (remaining - 12) out s1 = (Inr (c2, remaining2, out2), s2)"
      and rec: "dirHeadersLoop fs c2 remaining2 out2 s2 = (Inr out', s')"
      by (auto simp: dirHeadersLoop_unfold [of fs c] bindM_eq_Inr Let_def split: if_splits)
    have "listing_inv tot (remaining - 12) out"
      using less.prems(2) True by (auto simp: listing_inv_def)
    from dirEntriesLoop_inv [OF es this] have inv: "listing_inv tot remaining2 out2" .
    have "nat remaining2 < nat remaining" using dirEntriesLoop_remaining [OF es] True by simp
    from less.hyps [OF this rec inv] show ?thesis .
  qed
qed

lemma readDir_ok:
  assumes "readDir fs dir s = (Inr es, s')"
  shows "\<forall>e\<in>set es. entry_ok e" "length es \<le> maxDirEntries" "entries_bytes es \<le> unat (in_Size dir)"
proof -
  have "(\<forall>e\<in>set es. entry_ok e) \<and> length es \<le> maxDirEntries \<and> entries_bytes es \<le> unat (in_Size dir)"
  proof (cases "in_Size dir = 0")
    case True
    with assms show ?thesis by (simp add: readDir_def)
  next
    case False
    with assms obtain c s1 where loop: "dirHeadersLoop fs c (sint (in_Size dir)) [] s1 = (Inr es, s')"
      by (auto simp: readDir_def bindM_eq_Inr)
    show ?thesis
    proof (cases "sint (in_Size dir) \<ge> 0")
      case True
      then have "listing_inv (sint (in_Size dir)) (sint (in_Size dir)) []" by (simp add: listing_inv_def)
      from dirHeadersLoop_inv [OF loop this] obtain r where r: "listing_inv (sint (in_Size dir)) r es" ..
      moreover have "sint (in_Size dir) \<le> int (unat (in_Size dir))"
        using unat_bounds(4) [of "in_Size dir"] by (simp add: sint64_eq split: if_splits)
      ultimately have "int (entries_bytes es) \<le> int (unat (in_Size dir))"
        unfolding listing_inv_def by linarith
      then have "entries_bytes es \<le> unat (in_Size dir)" by (simp only: of_nat_le_iff)
      with r show ?thesis by (simp add: listing_inv_def)
    next
      case neg: False
      with loop have "es = []" by (simp add: dirHeadersLoop.simps)
      then show ?thesis by simp
    qed
  qed
  then show "\<forall>e\<in>set es. entry_ok e" "length es \<le> maxDirEntries" "entries_bytes es \<le> unat (in_Size dir)"
    by simp_all
qed

end
