(* ===== verification/PathResolve.thy ===== *)
theory PathResolve
  imports Dir
begin

text \<open>
  \<^verbatim>\<open>path.go\<close>: splitting of paths and the walk from the root inode, with
  symbolic links followed up to a fixed number of hops.
\<close>

definition maxSymlinkHops :: nat where "maxSymlinkHops = 40"

definition slash :: byte where "slash = 0x2F"

text \<open>\<^verbatim>\<open>strings.Split(p, "/")\<close>.\<close>

fun splitSlash :: "bytes \<Rightarrow> bytes list" where
  "splitSlash [] = [[]]"
| "splitSlash (b # bs) =
     (if b = slash then [] # splitSlash bs
      else case splitSlash bs of [] \<Rightarrow> [[b]] | s # ss \<Rightarrow> (b # s) # ss)"

definition dot :: bytes where "dot = gostring ''.''"

definition splitPath :: "bytes \<Rightarrow> bytes list" where
  "splitPath p = filter (\<lambda>s. \<not> (s = [] \<or> s = dot)) (splitSlash p)"

text \<open>
  \<^verbatim>\<open>resolveFrom\<close> and the loop over the path components inside it. A link met on
  the way is resolved by a nested call with one more hop, against the directory
  that holds it or, for an absolute target, against the root.
\<close>

function resolveFrom :: "FS \<Rightarrow> inode \<Rightarrow> bytes \<Rightarrow> bool \<Rightarrow> nat \<Rightarrow> (cachePtr, inode) eff"
  and walkParts :: "FS \<Rightarrow> inode \<Rightarrow> bytes list \<Rightarrow> bool \<Rightarrow> nat \<Rightarrow> (cachePtr, inode) eff" where
  "resolveFrom fs start path followFinal hops =
     (if hops > maxSymlinkHops then throwM ErrTooManyLinks
      else walkParts fs start (splitPath path) followFinal hops)"
| "walkParts fs cur [] followFinal hops = retM cur"
| "walkParts fs cur (name # rest) followFinal hops =
     (if \<not> isDir cur then throwM (Wrapped ErrNotDirectory)
      else bindM (readDir fs cur) (\<lambda>entries.
        case find (\<lambda>e. de_Name e = name) entries of
          None \<Rightarrow> throwM (Wrapped ErrNotFound)
        | Some e \<Rightarrow> bindM (readInode fs (de_InodeRef e)) (\<lambda>child.
            if isSymlink child \<and> (rest \<noteq> [] \<or> followFinal) then
              bindM (if take 1 (in_symlinkTarget child) = [slash]
                     then readInode fs (sb_RootInode (fs_sb fs)) else retM cur) (\<lambda>base.
              bindM (resolveFrom fs base (in_symlinkTarget child) True (hops + 1)) (\<lambda>child'.
              walkParts fs child' rest followFinal hops))
            else walkParts fs child rest followFinal hops)))"
  by pat_completeness auto
termination
  by (relation "measures
      [\<lambda>x. case x of Inl (fs, st, p, f, hops) \<Rightarrow> 2 * (41 - hops)
                   | Inr (fs, cur, parts, f, hops) \<Rightarrow> 2 * (41 - hops) - 1,
       \<lambda>x. case x of Inl _ \<Rightarrow> 0 | Inr _ \<Rightarrow> 1,
       \<lambda>x. case x of Inl _ \<Rightarrow> 0 | Inr (fs, cur, parts, f, hops) \<Rightarrow> length parts]")
    (auto simp: maxSymlinkHops_def)

declare resolveFrom.simps [simp del] walkParts.simps [simp del]

definition resolve :: "FS \<Rightarrow> bytes \<Rightarrow> bool \<Rightarrow> (cachePtr, inode) eff" where
  "resolve fs path followFinal =
     bindM (readInode fs (sb_RootInode (fs_sb fs))) (\<lambda>root. resolveFrom fs root path followFinal 0)"


section \<open>Splitting of paths\<close>

lemma splitSlash_nonempty [simp]: "splitSlash p \<noteq> []"
  by (cases p) (auto split: list.split)

lemma splitSlash_no_slash: "s \<in> set (splitSlash p) \<Longrightarrow> slash \<notin> set s"
proof (induction p arbitrary: s)
  case (Cons b p)
  then show ?case by (cases "splitSlash p") (fastforce split: if_splits)+
qed simp

lemma splitPath_parts:
  "s \<in> set (splitPath p) \<Longrightarrow> s \<noteq> [] \<and> s \<noteq> dot \<and> slash \<notin> set s"
  using splitSlash_no_slash by (auto simp: splitPath_def)

lemma splitSlash_component: "slash \<notin> set s \<Longrightarrow> splitSlash s = [s]"
  by (induction s) auto

lemma splitSlash_append: "splitSlash (p @ slash # q) = splitSlash p @ splitSlash q"
proof (induction p)
  case (Cons b p)
  then show ?case by (cases "splitSlash p") auto
qed simp

lemma splitPath_append: "splitPath (p @ slash # q) = splitPath p @ splitPath q"
  by (simp add: splitPath_def splitSlash_append)

text \<open>The path made of given components, each preceded by a slash.\<close>

definition joinPath :: "bytes list \<Rightarrow> bytes" where
  "joinPath parts = concat (map (\<lambda>s. slash # s) parts)"

definition component :: "bytes \<Rightarrow> bool" where
  "component s \<longleftrightarrow> s \<noteq> [] \<and> s \<noteq> dot \<and> slash \<notin> set s"

lemma splitPath_slash_component: "component s \<Longrightarrow> splitPath (slash # s @ slash # q) = s # splitPath (slash # q)"
  by (simp add: splitPath_def component_def splitSlash_append splitSlash_component)

lemma splitPath_joinPath: "\<forall>s\<in>set parts. component s \<Longrightarrow> splitPath (joinPath parts) = parts"
proof (induction parts)
  case Nil
  show ?case by (simp add: joinPath_def splitPath_def)
next
  case (Cons s parts)
  show ?case
  proof (cases parts)
    case Nil
    with Cons.prems show ?thesis
      by (simp add: joinPath_def splitPath_def component_def splitSlash_component)
  next
    case (Cons t ts)
    then obtain q where q: "joinPath parts = slash # q" by (simp add: joinPath_def)
    then have "joinPath (s # parts) = slash # s @ slash # q" by (simp add: joinPath_def)
    with Cons.IH Cons.prems q show ?thesis by (simp add: splitPath_slash_component)
  qed
qed

lemma splitPath_idem: "splitPath (joinPath (splitPath p)) = splitPath p"
  by (rule splitPath_joinPath) (auto simp: component_def dest: splitPath_parts)


section \<open>Caching does not change what a path resolves to\<close>

lemma resolveFrom_walkParts_transparent:
  "transparent (coherent fs dc) None (resolveFrom fs start path followFinal hops)"
  "transparent (coherent fs dc) None (walkParts fs cur parts followFinal hops)"
proof (induction fs start path followFinal hops and fs cur parts followFinal hops
    rule: resolveFrom_walkParts.induct)
  case (1 fs start path followFinal hops)
  then show ?case
    by (subst resolveFrom.simps) (intro transparent_intros, simp)
next
  case (2 fs cur followFinal hops)
  show ?case by (simp add: walkParts.simps)
next
  case (3 fs cur name rest followFinal hops)
  show ?case
    by (subst walkParts.simps, intro transparent_intros)
      (rule "3"(1), assumption+, rule "3"(2), assumption+, rule "3"(3), assumption+)
qed

lemmas resolveFrom_transparent [transparent_intros] = resolveFrom_walkParts_transparent(1)
lemmas walkParts_transparent [transparent_intros] = resolveFrom_walkParts_transparent(2)

lemma resolve_transparent [transparent_intros]:
  "transparent (coherent fs dc) None (resolve fs path followFinal)"
  unfolding resolve_def by (intro transparent_intros)


section \<open>Resolution is compositional\<close>

lemma walkParts_append:
  assumes "ys \<noteq> []"
  shows "walkParts fs cur (xs @ ys) followFinal hops =
     bindM (walkParts fs cur xs True hops) (\<lambda>d. walkParts fs d ys followFinal hops)"
proof (induction xs arbitrary: cur)
  case Nil
  show ?case by (simp add: walkParts.simps bindM_def fun_eq_iff)
next
  case (Cons x xs)
  have "walkParts fs cur (x # xs @ ys) followFinal hops s =
     bindM (walkParts fs cur (x # xs) True hops) (\<lambda>d. walkParts fs d ys followFinal hops) s" for s
    using assms
    by (auto simp: walkParts.simps(2) Cons.IH bindM_def fun_eq_iff split: prod.splits sum.splits option.splits)
  then show ?case by auto
qed


lemma resolve_append:
  assumes "splitPath q \<noteq> []"
  shows "resolve fs (p @ slash # q) followFinal =
     bindM (resolve fs p True) (\<lambda>d. resolveFrom fs d q followFinal 0)"
  using assms
  by (simp add: resolve_def resolveFrom.simps maxSymlinkHops_def splitPath_append walkParts_append
      bindM_assoc)


section \<open>Symbolic links\<close>

lemma isDir_not_isSymlink: "isDir i \<Longrightarrow> \<not> isSymlink i"
  by (auto simp: inode_kind_defs inode_type_defs)

text \<open>The steps behind a successful walk through one component.\<close>

lemma walkParts_ConsE:
  assumes "walkParts fs cur (name # rest) followFinal hops s = (Inr i, s')"
  obtains (link) es s1 e child s2 base s3 child' s4 where
      "isDir cur" "readDir fs cur s = (Inr es, s1)" "find (\<lambda>e. de_Name e = name) es = Some e"
      "readInode fs (de_InodeRef e) s1 = (Inr child, s2)"
      "isSymlink child \<and> (rest \<noteq> [] \<or> followFinal)"
      "(if take 1 (in_symlinkTarget child) = [slash]
        then readInode fs (sb_RootInode (fs_sb fs)) else retM cur) s2 = (Inr base, s3)"
      "resolveFrom fs base (in_symlinkTarget child) True (hops + 1) s3 = (Inr child', s4)"
      "walkParts fs child' rest followFinal hops s4 = (Inr i, s')"
  | (plain) es s1 e child s2 where
      "isDir cur" "readDir fs cur s = (Inr es, s1)" "find (\<lambda>e. de_Name e = name) es = Some e"
      "readInode fs (de_InodeRef e) s1 = (Inr child, s2)"
      "\<not> (isSymlink child \<and> (rest \<noteq> [] \<or> followFinal))"
      "walkParts fs child rest followFinal hops s2 = (Inr i, s')"
proof -
  have dir: "isDir cur"
    using assms by (rule contrapos_pp) (simp add: walkParts.simps)
  from assms dir obtain es s1 where es: "readDir fs cur s = (Inr es, s1)"
    and 1: "(case find (\<lambda>e. de_Name e = name) es of
          None \<Rightarrow> throwM (Wrapped ErrNotFound)
        | Some e \<Rightarrow> bindM (readInode fs (de_InodeRef e)) (\<lambda>child.
            if isSymlink child \<and> (rest \<noteq> [] \<or> followFinal) then
              bindM (if take 1 (in_symlinkTarget child) = [slash]
                     then readInode fs (sb_RootInode (fs_sb fs)) else retM cur) (\<lambda>base.
              bindM (resolveFrom fs base (in_symlinkTarget child) True (hops + 1)) (\<lambda>child'.
              walkParts fs child' rest followFinal hops))
            else walkParts fs child rest followFinal hops)) s1 = (Inr i, s')"
    unfolding walkParts.simps
    by (simp only: not_True_eq_False if_False simp_thms) (erule bindM_InrE, blast)
  from 1 obtain e where e: "find (\<lambda>e. de_Name e = name) es = Some e"
    by (cases "find (\<lambda>e. de_Name e = name) es") auto
  from 1 e obtain child s2 where child: "readInode fs (de_InodeRef e) s1 = (Inr child, s2)"
    and 2: "(if isSymlink child \<and> (rest \<noteq> [] \<or> followFinal) then
              bindM (if take 1 (in_symlinkTarget child) = [slash]
                     then readInode fs (sb_RootInode (fs_sb fs)) else retM cur) (\<lambda>base.
              bindM (resolveFrom fs base (in_symlinkTarget child) True (hops + 1)) (\<lambda>child'.
              walkParts fs child' rest followFinal hops))
            else walkParts fs child rest followFinal hops) s2 = (Inr i, s')"
    by (simp only: option.case) (erule bindM_InrE, blast)
  show thesis
  proof (cases "isSymlink child \<and> (rest \<noteq> [] \<or> followFinal)")
    case True
    with 2 link [OF dir es e child True] show ?thesis
      unfolding if_P [OF True] bindM_eq_Inr by blast
  next
    case False
    with 2 plain [OF dir es e child False] show ?thesis
      unfolding if_not_P [OF False] by blast
  qed
qed

text \<open>When the final component is followed, the result is never a link itself.\<close>

lemma resolveFrom_walkParts_not_symlink:
  assumes root: "\<And>s i s'. \<lbrakk>coherent fs dc s; readInode fs (sb_RootInode (fs_sb fs)) s = (Inr i, s')\<rbrakk> \<Longrightarrow> \<not> isSymlink i"
  shows "\<lbrakk>resolveFrom fs start path followFinal hops s = (Inr i, s'); followFinal; \<not> isSymlink start; coherent fs dc s\<rbrakk>
      \<Longrightarrow> \<not> isSymlink i"
    and "\<lbrakk>walkParts fs cur parts followFinal hops s = (Inr i, s'); followFinal; \<not> isSymlink cur; coherent fs dc s\<rbrakk>
      \<Longrightarrow> \<not> isSymlink i"
  using root
proof (induction fs start path followFinal hops and fs cur parts followFinal hops
    arbitrary: i s s' and i s s' rule: resolveFrom_walkParts.induct)
  case (1 fs start path followFinal hops)
  then show ?case by (simp add: resolveFrom.simps split: if_splits)
next
  case (2 fs cur followFinal hops)
  then show ?case by (simp add: walkParts.simps)
next
  case (3 fs cur name rest followFinal hops)
  note root = "3.prems"(5) and ff = "3.prems"(2) and co = "3.prems"(4)
  from "3.prems"(1) show ?case
  proof (cases rule: walkParts_ConsE)
    case (link es s1 e child s2 base s3 child' s4)
    have dd: "\<not> \<not> isDir cur" using link(1) by simp
    note c1 = transparent_state [OF readDir_transparent co link(2)]
    note c2 = transparent_state [OF readInode_transparent c1 link(4)]
    have "transparent (coherent fs dc) None (if take 1 (in_symlinkTarget child) = [slash]
        then readInode fs (sb_RootInode (fs_sb fs)) else retM cur)"
      by (intro transparent_intros)
    note c3 = transparent_state [OF this c2 link(6)]
    note c4 = transparent_state [OF resolveFrom_transparent c3 link(7)]
    have "\<not> isSymlink base"
      using link(1,6) root [OF c2] isDir_not_isSymlink by (auto split: if_splits)
    then have "\<not> isSymlink child'"
      using "3.IH"(1) [OF dd link(3,5,7) _ _ c3] root by blast
    then show ?thesis
      using "3.IH"(2) [OF dd link(3,5,8) ff _ c4] root by blast
  next
    case (plain es s1 e child s2)
    have dd: "\<not> \<not> isDir cur" using plain(1) by simp
    note c1 = transparent_state [OF readDir_transparent co plain(2)]
    note c2 = transparent_state [OF readInode_transparent c1 plain(4)]
    from plain(5) ff have "\<not> isSymlink child" by blast
    then show ?thesis
      using "3.IH"(3) [OF dd plain(3,5,6) ff _ c2] root by blast
  qed
qed

text \<open>A link that names itself is reported as such after the last permitted hop.\<close>

lemma symlink_self_loop:
  assumes "isDir d" "readDir fs d None = (Inr es, None)"
    and "find (\<lambda>e. de_Name e = name) es = Some e"
    and "readInode fs (de_InodeRef e) None = (Inr l, None)" "isSymlink l"
    and "splitPath (in_symlinkTarget l) = [name]" "take 1 (in_symlinkTarget l) \<noteq> [slash]"
  shows "resolveFrom fs d (in_symlinkTarget l) True hops None = (Inl ErrTooManyLinks, None)"
proof (induction "41 - hops" arbitrary: hops)
  case 0
  then show ?case by (simp add: resolveFrom.simps maxSymlinkHops_def)
next
  case (Suc n)
  then have "resolveFrom fs d (in_symlinkTarget l) True (hops + 1) None = (Inl ErrTooManyLinks, None)"
    by simp
  with Suc.hyps(2) assms show ?case
    by (simp add: resolveFrom.simps [of _ _ _ _ hops] maxSymlinkHops_def walkParts.simps)
qed

end
