(* ===== verification/DataBlocks.thy ===== *)
theory DataBlocks
  imports Inode
begin

text \<open>
  \<^verbatim>\<open>data.go\<close>: data blocks, the fragment table, and the assembly of whole files.
\<close>

definition dataUncompressedBit :: u32 where "dataUncompressedBit = 0x1000000"

definition blockOnDiskBytes :: "u32 \<Rightarrow> int64" where
  "blockOnDiskBytes sz = ucast sz AND NOT (ucast dataUncompressedBit)"

definition blockOnDiskSize :: "u32 \<Rightarrow> int64 \<times> bool" where
  "blockOnDiskSize sz = (blockOnDiskBytes sz, sz AND dataUncompressedBit = 0)"

definition checkExtent :: "FS \<Rightarrow> int64 \<Rightarrow> int64 \<Rightarrow> error + unit" where
  "checkExtent fs off n =
     (if 0 <s fs_size fs \<and> (off <s 0 \<or> fs_size fs - n <s off) then Inl (Wrapped ErrCorrupt)
      else Inr ())"

text \<open>The part of \<^verbatim>\<open>readBlock\<close> behind the checks: cache, read, decompress, store.\<close>

definition fetchBlock :: "FS \<Rightarrow> int64 \<Rightarrow> nat \<Rightarrow> bool \<Rightarrow> (cachePtr, bytes) eff" where
  "fetchBlock fs off n compressed c =
     (case (if compressed then getData c off else None) of
        Some b \<Rightarrow> (Inr b, c)
      | None \<Rightarrow>
          (case ReadAt (fs_rs fs) off n of
             Inl e \<Rightarrow> (Inl (Wrapped e), c)
           | Inr raw \<Rightarrow>
               if \<not> compressed then (Inr raw, c)
               else (case fs_d fs raw (unat (sb_BlockSize (fs_sb fs))) of
                  Inl e \<Rightarrow> (Inl e, c)
                | Inr out \<Rightarrow> (Inr out, putData c off out))))"

definition readBlock :: "FS \<Rightarrow> int64 \<Rightarrow> u32 \<Rightarrow> (cachePtr, bytes) eff" where
  "readBlock fs off sizeWord =
     (case blockOnDiskSize sizeWord of (n, compressed) \<Rightarrow>
      if n = 0 then retM []
      else if ucast (sb_BlockSize (fs_sb fs)) <s n then throwM (Wrapped ErrCorrupt)
      else bindM (liftM (checkExtent fs off n)) (\<lambda>_. fetchBlock fs off (unat n) compressed))"

record fragmentEntry =
  fe_start :: u64
  fe_sizeWord :: u32

definition fragEntrySize :: nat where "fragEntrySize = 16"
definition fragPerMetaBlock :: nat where "fragPerMetaBlock = metaBlockMax div fragEntrySize"

definition decodeFragEntry :: "bytes \<Rightarrow> fragmentEntry" where
  "decodeFragEntry b = \<lparr>fe_start = Uint64 (drop 0 b), fe_sizeWord = Uint32 (drop 8 b)\<rparr>"

definition readFragmentEntry :: "FS \<Rightarrow> u32 \<Rightarrow> (cachePtr, fragmentEntry) eff" where
  "readFragmentEntry fs idx =
     (if idx \<ge> sb_FragCount (fs_sb fs) then throwM (Wrapped ErrCorrupt)
      else
        (let blockIdx = unat idx div fragPerMetaBlock; inBlock = unat idx mod fragPerMetaBlock in
         case ReadAt (fs_rs fs) (sb_FragTableStart (fs_sb fs) + of_nat blockIdx * 8) 8 of
           Inl e \<Rightarrow> throwM (Wrapped e)
         | Inr ptr \<Rightarrow>
             bindM (readMetaBlockCached fs (Uint64 ptr)) (\<lambda>(block, _).
             let o_b = inBlock * fragEntrySize in
             if o_b + fragEntrySize > length block then throwM (Wrapped ErrCorrupt)
             else retM (decodeFragEntry (drop o_b block)))))"

definition readFragment :: "FS \<Rightarrow> u32 \<Rightarrow> (cachePtr, bytes) eff" where
  "readFragment fs idx =
     bindM (readFragmentEntry fs idx) (\<lambda>fe. readBlock fs (fe_start fe) (fe_sizeWord fe))"

definition DefaultMaxReadFile :: int64 where "DefaultMaxReadFile = 0x40000000"

text \<open>The loop of \<^verbatim>\<open>readFileLimit\<close> that checks every stored block's extent up front.\<close>

fun checkExtents :: "FS \<Rightarrow> int64 \<Rightarrow> u32 list \<Rightarrow> error + unit" where
  "checkExtents fs cur [] = Inr ()"
| "checkExtents fs cur (sz # sizes) =
     (let n = blockOnDiskBytes sz in
      if n = 0 then checkExtents fs cur sizes
      else if ucast (sb_BlockSize (fs_sb fs)) <s n then Inl (Wrapped ErrCorrupt)
      else bindE (checkExtent fs cur n) (\<lambda>_. checkExtents fs (cur + n) sizes))"

text \<open>
  The assembly loop. \<open>remaining\<close> starts at the file size and \<open>want\<close> never
  exceeds it, so the subtraction does not wrap.
\<close>

fun assembleBlocks :: "FS \<Rightarrow> int64 \<Rightarrow> nat \<Rightarrow> u32 list \<Rightarrow> bytes \<Rightarrow> (cachePtr, nat \<times> bytes) eff" where
  "assembleBlocks fs off remaining [] out = retM (remaining, out)"
| "assembleBlocks fs off remaining (sz # sizes) out =
     (let want = min (unat (sb_BlockSize (fs_sb fs))) remaining; n = blockOnDiskBytes sz in
      if n = 0 then assembleBlocks fs off (remaining - want) sizes (out @ replicate want 0)
      else bindM (readBlock fs off sz) (\<lambda>data.
        if length data < want then throwM (Wrapped ErrCorrupt)
        else assembleBlocks fs (off + n) (remaining - want) sizes (out @ take want data)))"

text \<open>The tail in the fragment block, if the inode names one and bytes are missing.\<close>

definition appendFragment :: "FS \<Rightarrow> inode \<Rightarrow> nat \<Rightarrow> bytes \<Rightarrow> (cachePtr, bytes) eff" where
  "appendFragment fs i remaining out =
     (if in_fragIdx i \<noteq> invalidFrag \<and> remaining > 0 then
        bindM (readFragment fs (in_fragIdx i)) (\<lambda>frag.
        let start = unat (in_fragOffset i) in
        if start + remaining > length frag then throwM (Wrapped ErrCorrupt)
        else retM (out @ take remaining (drop start frag)))
      else retM out)"

text \<open>
  \<open>makeBytes n max\<close> stands for \<^verbatim>\<open>safeio.MakeBytes\<close>, which is not part of the
  repository; only its error matters, the bytes are resliced to length 0.
\<close>

type_synonym makeBytesFn = "int64 \<Rightarrow> int64 \<Rightarrow> error + bytes"

definition maxFileBytes :: "FS \<Rightarrow> inode \<Rightarrow> u64" where
  "maxFileBytes fs i = (of_nat (length (in_blockSizes i)) + 1) * ucast (sb_BlockSize (fs_sb fs))"

definition readFileLimit :: "makeBytesFn \<Rightarrow> FS \<Rightarrow> inode \<Rightarrow> int64 \<Rightarrow> (cachePtr, bytes) eff" where
  "readFileLimit makeBytes fs i maxLen =
     (if in_Size i > maxFileBytes fs i then throwM (Wrapped ErrCorrupt)
      else if 0 \<le>s maxLen \<and> in_Size i > maxLen then throwM (Wrapped ErrTooLarge)
      else bindM (liftM (checkExtents fs (in_blocksStart i) (in_blockSizes i))) (\<lambda>_.
        case makeBytes (in_Size i) (maxFileBytes fs i) of
          Inl e \<Rightarrow> throwM (Wrapped ErrCorrupt)
        | Inr _ \<Rightarrow>
            bindM (assembleBlocks fs (in_blocksStart i) (unat (in_Size i)) (in_blockSizes i) [])
              (\<lambda>(remaining, out).
            bindM (appendFragment fs i remaining out) (\<lambda>out'.
            if length out' \<noteq> unat (in_Size i) then throwM (Wrapped ErrCorrupt) else retM out'))))"

definition readFile :: "makeBytesFn \<Rightarrow> FS \<Rightarrow> inode \<Rightarrow> (cachePtr, bytes) eff" where
  "readFile makeBytes fs i = readFileLimit makeBytes fs i DefaultMaxReadFile"

lemma DefaultMaxReadFile_nonneg: "0 \<le>s DefaultMaxReadFile"
  by code_simp

lemma readFileLimit_bounds:
  assumes "readFileLimit mk fs i maxLen c = (Inr content, c')"
  shows "length content = unat (in_Size i)" "in_Size i \<le> maxFileBytes fs i"
    "0 \<le>s maxLen \<Longrightarrow> in_Size i \<le> maxLen"
  using assms
  by (auto simp: readFileLimit_def bindM_eq_Inr not_less split: if_splits sum.splits)


section \<open>Size words\<close>

lemma blockOnDiskBytes_bits:
  "bit (blockOnDiskBytes sz) k \<longleftrightarrow> bit sz k \<and> k \<noteq> 24"
proof -
  have "ucast dataUncompressedBit = (2 ^ 24 :: int64)" by (simp add: dataUncompressedBit_def)
  then have m: "bit (ucast dataUncompressedBit :: int64) k \<longleftrightarrow> k = 24"
    by (simp only: bit_exp_iff) (auto simp: possible_bit_def)
  show ?thesis
    unfolding blockOnDiskBytes_def bit_and_iff bit_not_iff m
    by (auto simp: bit_simps dest: bit_imp_le_length)
qed

text \<open>
  The length is masked at 64 bits: the upper half of the result is zero, so
  adding it to an offset advances by exactly that many bytes.
\<close>

lemma unat_blockOnDiskBytes_lt: "unat (blockOnDiskBytes sz) < 2 ^ 32"
proof -
  have "take_bit 32 (blockOnDiskBytes sz) = blockOnDiskBytes sz"
    by (rule bit_eqI) (auto simp: bit_simps blockOnDiskBytes_bits dest: bit_imp_le_length)
  moreover have "unat (take_bit 32 w) < 2 ^ 32" for w :: u64
    using take_bit_nat_less_exp [of 32 "unat w"] by (simp only: unsigned_take_bit_eq)
  ultimately show ?thesis by metis
qed

lemma blockOnDiskBytes_nonneg: "0 \<le>s blockOnDiskBytes sz"
proof -
  have "unat (blockOnDiskBytes sz) < 2 ^ 63"
    using unat_blockOnDiskBytes_lt [of sz] by simp
  then show ?thesis by (subst sle_small) simp_all
qed

lemma blockOnDiskBytes_no_wrap: "blockOnDiskBytes sz \<noteq> 0 \<Longrightarrow> 0 <s blockOnDiskBytes sz"
  using blockOnDiskBytes_nonneg [of sz] by (simp add: word_sless_eq)


section \<open>Extents\<close>

text \<open>
  With a known image size a block that passes the check lies inside the image;
  the signed arithmetic of the check does not overflow for a length that a size
  word can name.
\<close>

lemma checkExtent_iff:
  assumes "0 <s fs_size fs" "unat n < 2 ^ 63"
  shows "checkExtent fs off n = Inr () \<longleftrightarrow> unat off < 2 ^ 63 \<and> unat off + unat n \<le> unat (fs_size fs)"
proof -
  have size: "unat (fs_size fs) < 2 ^ 63"
    using assms(1) sless_0_iff [of "fs_size fs"] by (simp add: word_sless_alt)
  have eq: "sint (fs_size fs) = int (unat (fs_size fs))" "sint n = int (unat n)"
    using size assms(2) by (simp_all only: sint64_eq if_True)
  have "- (2 ^ 63) \<le> sint (fs_size fs) - sint n" "sint (fs_size fs) - sint n < 2 ^ 63"
    unfolding eq using size assms(2) by (rule int_diff_range)+
  then have "sint (fs_size fs - n) = sint (fs_size fs) - sint n"
    by (simp add: sint_word_ariths signed_take_bit_int_eq_self)
  then have diff: "sint (fs_size fs - n) = int (unat (fs_size fs)) - int (unat n)"
    by (simp only: eq)
  show ?thesis
  proof (cases "unat off < 2 ^ 63")
    case True
    then have "sint off = int (unat off)" by (simp only: sint64_eq if_True)
    then have "fs_size fs - n <s off \<longleftrightarrow> unat (fs_size fs) < unat off + unat n"
      unfolding word_sless_alt diff by linarith
    then show ?thesis
      using assms(1) True by (auto simp: checkExtent_def sless_0_iff)
  next
    case False
    then show ?thesis using assms(1) by (simp add: checkExtent_def sless_0_iff)
  qed
qed

lemma readBlock_in_image:
  assumes "readBlock fs off sz c = (Inr b, c')" "0 <s fs_size fs" "blockOnDiskBytes sz \<noteq> 0"
  shows "unat off + unat (blockOnDiskBytes sz) \<le> unat (fs_size fs)"
proof -
  have "unat (blockOnDiskBytes sz) < 2 ^ 63" using unat_blockOnDiskBytes_lt [of sz] by simp
  moreover have "checkExtent fs off (blockOnDiskBytes sz) = Inr ()"
    using assms(1,3) by (auto simp: readBlock_def blockOnDiskSize_def bindM_eq_Inr split: if_splits)
  ultimately show ?thesis using checkExtent_iff [OF assms(2)] by auto
qed


section \<open>When the data cache is transparent\<close>

text \<open>
  The data half of the cache is keyed by the offset alone, while what
  \<^verbatim>\<open>readBlock\<close> reads also depends on the size word. The cache is therefore
  invisible only to readers that agree on one stored length for every offset:
  \<open>w\<close> names it. \<open>sized\<close> says that a size word agrees with \<open>w\<close>; sparse and
  uncompressed blocks never touch the cache.
\<close>

definition sized :: "(int64 \<Rightarrow> int64) \<Rightarrow> int64 \<Rightarrow> u32 \<Rightarrow> bool" where
  "sized w off sz \<longleftrightarrow>
     (case blockOnDiskSize sz of (n, compressed) \<Rightarrow> n = 0 \<or> \<not> compressed \<or> w off = n)"

definition data_coherent :: "FS \<Rightarrow> (int64 \<Rightarrow> int64) \<Rightarrow> (int64 \<Rightarrow> bytes option) \<Rightarrow> bool" where
  "data_coherent fs w get \<longleftrightarrow>
     (\<forall>off b. get off = Some b \<longrightarrow> fst (fetchBlock fs off (unat (w off)) True None) = Inr b)"

lemma fetchBlock_None:
  "fetchBlock fs off n compressed None =
     (bindE (case ReadAt (fs_rs fs) off n of Inl e \<Rightarrow> Inl (Wrapped e) | Inr raw \<Rightarrow> Inr raw) (\<lambda>raw.
        if \<not> compressed then Inr raw else fs_d fs raw (unat (sb_BlockSize (fs_sb fs)))), None)"
  by (auto simp: fetchBlock_def split: sum.split)

lemma fetchBlock_store:
  assumes "fst (fetchBlock fs off (unat (w off)) True None) = Inr out" "data_coherent fs w (getData c)"
  shows "data_coherent fs w (getData (putData c off out))"
  unfolding data_coherent_def
proof (intro allI impI)
  fix o1 b assume "getData (putData c off out) o1 = Some b"
  from dataCache.get_put [OF this] assms
  show "fst (fetchBlock fs o1 (unat (w o1)) True None) = Inr b"
    by (auto simp: data_coherent_def)
qed

lemma coherent_putData:
  "\<lbrakk>coherent fs dc c; dc (getData (putData c off out))\<rbrakk> \<Longrightarrow> coherent fs dc (putData c off out)"
  by (simp add: coherent_def)

lemma fetchBlock_transparent:
  assumes "compressed \<Longrightarrow> n = unat (w off)"
  shows "transparent (coherent fs (data_coherent fs w)) None (fetchBlock fs off n compressed)"
proof (cases compressed)
  case False
  then show ?thesis
    by (intro transparentI) (auto simp: fetchBlock_def split: sum.split)
next
  case True
  show ?thesis
  proof (rule transparentI)
    fix c assume co: "coherent fs (data_coherent fs w) c"
    then have dc: "data_coherent fs w (getData c)" by (simp add: coherent_def)
    show "fst (fetchBlock fs off n compressed c) = fst (fetchBlock fs off n compressed None)"
      using dc True assms unfolding data_coherent_def
      by (auto simp: fetchBlock_def split: option.split sum.split)
    have "coherent fs (data_coherent fs w) (putData c off out)"
      if "ReadAt (fs_rs fs) off n = Inr raw" "fs_d fs raw (unat (sb_BlockSize (fs_sb fs))) = Inr out" for raw out
      using coherent_putData [OF co fetchBlock_store [OF _ dc]] that True assms
      by (simp add: fetchBlock_None)
    with co show "coherent fs (data_coherent fs w) (snd (fetchBlock fs off n compressed c))"
      by (auto simp: fetchBlock_def split: option.split sum.split)
  qed (simp add: fetchBlock_None)
qed

lemma readBlock_transparent:
  assumes "sized w off sz"
  shows "transparent (coherent fs (data_coherent fs w)) None (readBlock fs off sz)"
  using assms unfolding readBlock_def sized_def
  by (intro transparent_intros fetchBlock_transparent) auto

fun blocks_sized :: "(int64 \<Rightarrow> int64) \<Rightarrow> int64 \<Rightarrow> u32 list \<Rightarrow> bool" where
  "blocks_sized w off [] = True"
| "blocks_sized w off (sz # sizes) =
     (sized w off sz \<and> blocks_sized w (off + blockOnDiskBytes sz) sizes)"

definition fragment_sized :: "(int64 \<Rightarrow> int64) \<Rightarrow> FS \<Rightarrow> u32 \<Rightarrow> bool" where
  "fragment_sized w fs idx =
     (case fst (readFragmentEntry fs idx None) of
        Inl e \<Rightarrow> True
      | Inr fe \<Rightarrow> sized w (fe_start fe) (fe_sizeWord fe))"

definition file_sized :: "(int64 \<Rightarrow> int64) \<Rightarrow> FS \<Rightarrow> inode \<Rightarrow> bool" where
  "file_sized w fs i \<longleftrightarrow>
     blocks_sized w (in_blocksStart i) (in_blockSizes i) \<and> fragment_sized w fs (in_fragIdx i)"

lemma readFragmentEntry_transparent [transparent_intros]:
  "transparent (coherent fs dc) None (readFragmentEntry fs idx)"
  unfolding readFragmentEntry_def by (intro transparent_intros)

lemma readFragment_transparent:
  assumes "fragment_sized w fs idx"
  shows "transparent (coherent fs (data_coherent fs w)) None (readFragment fs idx)"
  using assms unfolding readFragment_def fragment_sized_def
  by (intro transparent_bindM_result readFragmentEntry_transparent readBlock_transparent) auto

lemma assembleBlocks_transparent:
  assumes "blocks_sized w off sizes"
  shows "transparent (coherent fs (data_coherent fs w)) None (assembleBlocks fs off remaining sizes out)"
  using assms
proof (induction sizes arbitrary: off remaining out)
  case Nil
  show ?case by (simp add: transparent_intros)
next
  case (Cons sz sizes)
  from Cons.prems have sz: "sized w off sz" and rest: "blocks_sized w (off + blockOnDiskBytes sz) sizes"
    by simp_all
  show ?case
  proof (cases "blockOnDiskBytes sz = 0")
    case True
    with rest Cons.IH show ?thesis by (simp add: Let_def)
  next
    case False
    with rest show ?thesis
      by (simp add: Let_def) (intro transparent_intros readBlock_transparent [OF sz] Cons.IH)
  qed
qed

lemma readFileLimit_transparent:
  assumes "file_sized w fs i"
  shows "transparent (coherent fs (data_coherent fs w)) None (readFileLimit mk fs i maxLen)"
  using assms unfolding readFileLimit_def appendFragment_def file_sized_def
  by (intro transparent_intros assembleBlocks_transparent readFragment_transparent) auto

lemma empty_cache_coherent: "coherent fs (data_coherent fs w) (Some newBlockCache)"
  by (simp add: coherent_def data_coherent_def getMeta_def getData_def newBlockCache_def)

end
