(* ===== verification/OpenedFile.thy ===== *)
theory OpenedFile
  imports DataBlocks
begin

text \<open>
  \<^verbatim>\<open>openfile.go\<close>: an open regular file, a map from logical blocks to image
  offsets, and random access through it. The main result is that \<^verbatim>\<open>ReadAt\<close>
  returns exactly the bytes \<^verbatim>\<open>readFileLimit\<close> would have assembled, whatever
  the cache holds.
\<close>

declare of_nat_unat [simp del]

record squashfsFile =
  f_fs :: FS
  f_blockOffsets :: "int64 list"
  f_blockWords :: "u32 list"
  f_fragIdx :: u32
  f_fragOffset :: u32
  f_size :: int64
  f_blockSize :: int64
  f_closed :: bool

fun prefixOffsets :: "int64 \<Rightarrow> u32 list \<Rightarrow> int64 list" where
  "prefixOffsets off [] = []"
| "prefixOffsets off (sz # sizes) = off # prefixOffsets (off + blockOnDiskBytes sz) sizes"

definition newFile :: "FS \<Rightarrow> inode \<Rightarrow> error + squashfsFile" where
  "newFile fs i =
     (if in_Size i > maxFileBytes fs i then Inl (Wrapped ErrCorrupt)
      else Inr
        \<lparr> f_fs = fs,
          f_blockOffsets = prefixOffsets (in_blocksStart i) (in_blockSizes i),
          f_blockWords = in_blockSizes i,
          f_fragIdx = in_fragIdx i, f_fragOffset = in_fragOffset i,
          f_size = in_Size i, f_blockSize = ucast (sb_BlockSize (fs_sb fs)),
          f_closed = False \<rparr>)"

definition file_Size :: "squashfsFile \<Rightarrow> int64" where
  "file_Size f = f_size f"

definition file_Close :: "squashfsFile \<Rightarrow> (error + unit) \<times> squashfsFile" where
  "file_Close f = (Inr (), f\<lparr>f_closed := True\<rparr>)"

text \<open>
  Offsets inside a file are non-negative and below its size once the guards of
  \<^verbatim>\<open>ReadAt\<close> have passed, so the loop works on naturals; the slice bounds of the
  fragment are integers because the code tests their sign. \<open>readFragmentInto\<close>
  returns the bytes it copies to a destination of \<open>want\<close> bytes.
\<close>

definition fragmentSlice :: "nat \<Rightarrow> int \<Rightarrow> int \<Rightarrow> bytes \<Rightarrow> error + bytes" where
  "fragmentSlice want start end_i frag =
     (if start < 0 \<or> end_i > int (length frag) then Inl (Wrapped ErrCorrupt)
      else Inr (take want (drop (nat start) frag)))"

definition readFragmentInto :: "squashfsFile \<Rightarrow> nat \<Rightarrow> nat \<Rightarrow> (cachePtr, bytes) eff" where
  "readFragmentInto f want cur =
     (if f_fragIdx f = invalidFrag then throwM (Wrapped ErrCorrupt)
      else bindM (readFragment (f_fs f) (f_fragIdx f)) (\<lambda>frag.
        let tailStart = int (length (f_blockOffsets f)) * int (unat (f_blockSize f)) in
        liftM (fragmentSlice want
          (int (unat (f_fragOffset f)) + (int cur - tailStart))
          (int (unat (f_fragOffset f)) + (int (unat (f_size f)) - tailStart)) frag)))"

text \<open>
  One round of the loop at file offset \<open>cur\<close>, with \<open>want\<close> bytes still missing
  and available: the bytes it writes to the buffer. A block size of zero is a
  division by zero, a panic.
\<close>

definition readChunk :: "squashfsFile \<Rightarrow> nat \<Rightarrow> nat \<Rightarrow> (cachePtr, bytes) eff" where
  "readChunk f want cur =
     (let bs = unat (f_blockSize f) in
      if bs = 0 then throwM (NewError ''panic: integer divide by zero'')
      else
        (let idx = cur div bs; within = cur mod bs in
         if idx \<ge> length (f_blockOffsets f) then readFragmentInto f want cur
         else
           (let want' = min want (bs - within);
                logical = min bs (unat (f_size f) - idx * bs) in
            if blockOnDiskBytes (f_blockWords f ! idx) = 0 then retM (replicate want' 0)
            else bindM (readBlock (f_fs f) (f_blockOffsets f ! idx) (f_blockWords f ! idx)) (\<lambda>data.
              if length data < logical then throwM (Wrapped ErrCorrupt)
              else retM (take want' (drop within data))))))"

lemma fragmentSlice_progress:
  "\<lbrakk>fragmentSlice want start end_i frag = Inr bs; 0 < want; start < end_i\<rbrakk> \<Longrightarrow> bs \<noteq> []"
  by (auto simp: fragmentSlice_def split: if_splits)

lemma readFragmentInto_progress:
  assumes "readFragmentInto f want cur s = (Inr bs, s')" "0 < want" "cur < unat (f_size f)"
  shows "bs \<noteq> []"
  using assms
  by (auto simp: readFragmentInto_def bindM_eq_Inr Let_def split: if_splits
      dest!: fragmentSlice_progress)

lemma logical_within:
  fixes cur bs size :: nat
  assumes "cur < size" "0 < bs"
  shows "cur mod bs < min bs (size - cur div bs * bs)"
proof -
  have "cur div bs * bs + cur mod bs < size" using assms(1) by simp
  then have "cur mod bs < size - cur div bs * bs" by linarith
  then show ?thesis using assms(2) by simp
qed

lemma readChunk_progress:
  assumes "readChunk f want cur s = (Inr bs, s')" "0 < want" "cur < unat (f_size f)"
  shows "bs \<noteq> []"
proof (cases "unat (f_blockSize f) = 0")
  case True
  with assms(1) show ?thesis by (simp add: readChunk_def)
next
  case False
  define k where "k = cur mod unat (f_blockSize f)"
  define logical where
    "logical = min (unat (f_blockSize f)) (unat (f_size f) - cur div unat (f_blockSize f) * unat (f_blockSize f))"
  have k: "k < logical" "k < unat (f_blockSize f)"
    using logical_within [OF assms(3)] False by (simp_all add: k_def logical_def)
  have nz: "min want (unat (f_blockSize f) - k) \<noteq> 0" using k assms(2) by (simp add: min_def)
  from assms False show ?thesis
    unfolding readChunk_def Let_def k_def [symmetric] logical_def [symmetric]
    using k nz by (auto simp: bindM_eq_Inr not_less split: if_splits dest: readFragmentInto_progress)
qed

text \<open>
  The loop of \<^verbatim>\<open>ReadAt\<close>. \<open>out\<close> is what has been written to the buffer of
  \<open>lenp\<close> bytes so far, so the Go variable \<^verbatim>\<open>n\<close> is its length. Every round
  writes at least one byte.
\<close>

function readAtLoop ::
  "squashfsFile \<Rightarrow> nat \<Rightarrow> nat \<Rightarrow> bytes \<Rightarrow> cachePtr \<Rightarrow> (bytes \<times> error option) \<times> cachePtr" where
  "readAtLoop f lenp off out c =
     (if \<not> length out < lenp then ((out, None), c)
      else
        (let cur = off + length out in
         if cur \<ge> unat (f_size f) then ((out, Some EOF), c)
         else
           (let want = min (lenp - length out) (unat (f_size f) - cur) in
            case readChunk f want cur c of
              (Inl e, c') \<Rightarrow> ((out, Some e), c')
            | (Inr chunk, c') \<Rightarrow> readAtLoop f lenp off (out @ chunk) c')))"
  by pat_completeness auto
termination
  by (relation "measure (\<lambda>(f, lenp, off, out, c). lenp - length out)")
    (auto simp: not_less not_le intro!: diff_less_mono2 dest!: readChunk_progress [OF sym])

declare readAtLoop.simps [simp del]

text \<open>
  \<open>file_ReadAt f p off\<close> is \<^verbatim>\<open>f.ReadAt(p, off)\<close>: the byte count, the error
  (\<open>None\<close> for nil) and the buffer afterwards.
\<close>

definition file_ReadAt ::
  "squashfsFile \<Rightarrow> bytes \<Rightarrow> int64 \<Rightarrow> cachePtr \<Rightarrow> (nat \<times> error option \<times> bytes) \<times> cachePtr" where
  "file_ReadAt f p off c =
     (if f_closed f then ((0, Some ErrClosed, p), c)
      else if off <s 0 then ((0, Some (NewError ''squashfs: ReadAt: negative offset''), p), c)
      else if f_size f \<le>s off then ((0, Some EOF, p), c)
      else (case readAtLoop f (length p) (unat off) [] c of
              ((out, err), c') \<Rightarrow> ((length out, err, out @ drop (length out) p), c')))"


section \<open>The io.ReaderAt contract\<close>

lemma readFragmentInto_length:
  "readFragmentInto f want cur s = (Inr bs, s') \<Longrightarrow> length bs \<le> want"
  by (auto simp: readFragmentInto_def fragmentSlice_def bindM_eq_Inr Let_def split: if_splits)

lemma readChunk_length:
  "readChunk f want cur s = (Inr bs, s') \<Longrightarrow> length bs \<le> want"
  by (auto simp: readChunk_def bindM_eq_Inr Let_def split: if_splits dest: readFragmentInto_length)

text \<open>Rule induction over the rounds of the loop.\<close>

lemma readAtLoop_rounds [consumes 1, case_names full eof fail round]:
  assumes "length out \<le> lenp"
    and "\<And>out c. length out = lenp \<Longrightarrow> P out c ((out, None), c)"
    and "\<And>out c. \<lbrakk>length out < lenp; unat (f_size f) \<le> off + length out\<rbrakk> \<Longrightarrow> P out c ((out, Some EOF), c)"
    and "\<And>out c e c'. \<lbrakk>length out < lenp; off + length out < unat (f_size f);
           readChunk f (min (lenp - length out) (unat (f_size f) - (off + length out))) (off + length out) c = (Inl e, c')\<rbrakk>
         \<Longrightarrow> P out c ((out, Some e), c')"
    and "\<And>out c chunk c' r. \<lbrakk>length out < lenp; off + length out < unat (f_size f);
           readChunk f (min (lenp - length out) (unat (f_size f) - (off + length out))) (off + length out) c = (Inr chunk, c');
           length (out @ chunk) \<le> lenp; P (out @ chunk) c' r\<rbrakk> \<Longrightarrow> P out c r"
  shows "P out c (readAtLoop f lenp off out c)"
  using assms(1)
proof (induction "lenp - length out" arbitrary: out c rule: less_induct)
  case less
  define cur where "cur = off + length out"
  define want where "want = min (lenp - length out) (unat (f_size f) - cur)"
  note defs = cur_def [symmetric] want_def [symmetric]
  consider "length out = lenp" | "length out < lenp" "unat (f_size f) \<le> cur"
    | e c' where "length out < lenp" "cur < unat (f_size f)" "readChunk f want cur c = (Inl e, c')"
    | chunk c' where "length out < lenp" "cur < unat (f_size f)" "readChunk f want cur c = (Inr chunk, c')"
    using less.prems by (metis le_neq_implies_less not_le surj_pair sum.exhaust)
  then show ?case
  proof cases
    case 4
    have "0 < want" using 4(1,2) by (simp add: want_def)
    then have "chunk \<noteq> []" using readChunk_progress [OF 4(3)] 4(2) by simp
    have "length chunk \<le> want" using readChunk_length [OF 4(3)] .
    then have len: "length (out @ chunk) \<le> lenp" using 4(1) by (auto simp: want_def)
    moreover have "lenp - length (out @ chunk) < lenp - length out"
      using \<open>chunk \<noteq> []\<close> 4(1) by (simp add: diff_less_mono2)
    ultimately have "P (out @ chunk) c' (readAtLoop f lenp off (out @ chunk) c')"
      by (intro less.hyps)
    then show ?thesis
      using assms(5) [of out c chunk c'] 4 len
      by (subst readAtLoop.simps) (simp add: defs not_le)
  qed (subst readAtLoop.simps, use assms(2-4) in \<open>simp add: defs not_le\<close>)+
qed

lemma readAtLoop_count:
  assumes "length out \<le> lenp"
  shows "case readAtLoop f lenp off out c of ((res, err), c') \<Rightarrow>
           length res \<le> lenp \<and> (err = None \<longleftrightarrow> length res = lenp)"
  using assms by (induction rule: readAtLoop_rounds) auto


section \<open>Random access agrees with whole-file reads\<close>

text \<open>
  \<open>block_is fs off sz want piece\<close>: the block with size word \<open>sz\<close> at image offset
  \<open>off\<close> supplies the \<open>want\<close> bytes \<open>piece\<close>.
\<close>

definition block_is :: "FS \<Rightarrow> int64 \<Rightarrow> u32 \<Rightarrow> nat \<Rightarrow> bytes \<Rightarrow> bool" where
  "block_is fs off sz want piece \<longleftrightarrow>
     length piece = want \<and>
     (if blockOnDiskBytes sz = 0 then piece = replicate want 0
      else \<exists>d. readBlock fs off sz None = (Inr d, None) \<and> want \<le> length d \<and> piece = take want d)"

lemma readBlock_None: "snd (readBlock fs off sz None) = None"
  by (auto simp: readBlock_def bindM_def fetchBlock_None split: prod.split sum.split)

lemma assembleBlocks_None: "snd (assembleBlocks fs off remaining sizes out None) = None"
proof (induction sizes arbitrary: off remaining out)
  case (Cons sz sizes)
  then show ?case
    using readBlock_None [of fs off sz]
    by (auto simp: Let_def bindM_def split: prod.split sum.split)
qed simp

lemma length_prefixOffsets [simp]: "length (prefixOffsets off sizes) = length sizes"
  by (induction sizes arbitrary: off) auto

lemma assembleBlocks_ConsE:
  assumes "assembleBlocks fs off rm (sz # sizes) out None = (Inr (rm', res), s')"
    and want: "want = min (unat (sb_BlockSize (fs_sb fs))) rm"
  obtains piece where "block_is fs off sz want piece"
    "assembleBlocks fs (off + blockOnDiskBytes sz) (rm - want) sizes (out @ piece) None = (Inr (rm', res), s')"
proof (cases "blockOnDiskBytes sz = 0")
  case True
  with assms(1) that [of "replicate want 0"] show ?thesis
    by (simp add: Let_def block_is_def flip: want)
next
  case False
  with assms(1) obtain d s1 where "readBlock fs off sz None = (Inr d, s1)" "want \<le> length d"
    "assembleBlocks fs (off + blockOnDiskBytes sz) (rm - want) sizes (out @ take want d) s1 = (Inr (rm', res), s')"
    by (auto simp: Let_def bindM_eq_Inr not_less simp flip: want split: if_splits)
  moreover have "s1 = None" using readBlock_None [of fs off sz] calculation(1) by simp
  ultimately show ?thesis
    using that [of "take want d"] False by (simp add: block_is_def)
qed

lemma assembleBlocks_content:
  assumes "assembleBlocks fs off rm sizes out None = (Inr (rm', res), s')"
  defines "bs \<equiv> unat (sb_BlockSize (fs_sb fs))"
  shows "\<exists>t. res = out @ t \<and> rm' = rm - length sizes * bs \<and> length t = rm - rm' \<and>
     (\<forall>k < length sizes. block_is fs (prefixOffsets off sizes ! k) (sizes ! k)
        (min bs (rm - k * bs)) (take bs (drop (k * bs) t)))"
  using assms(1)
proof (induction sizes arbitrary: off rm out)
  case Nil
  then show ?case by simp
next
  case (Cons sz sizes)
  from Cons.prems obtain piece where piece: "block_is fs off sz (min bs rm) piece"
    and tl: "assembleBlocks fs (off + blockOnDiskBytes sz) (rm - min bs rm) sizes (out @ piece) None = (Inr (rm', res), s')"
    unfolding bs_def by (rule assembleBlocks_ConsE) (rule refl)
  from Cons.IH [OF tl] obtain t where t: "res = out @ piece @ t"
    "rm' = rm - min bs rm - length sizes * bs" "length t = rm - min bs rm - rm'"
    "\<And>k. k < length sizes \<Longrightarrow> block_is fs (prefixOffsets (off + blockOnDiskBytes sz) sizes ! k) (sizes ! k)
        (min bs (rm - min bs rm - k * bs)) (take bs (drop (k * bs) t))"
    by auto
  have len: "length piece = min bs rm" using piece by (simp add: block_is_def)
  have "block_is fs (prefixOffsets off (sz # sizes) ! k) ((sz # sizes) ! k)
        (min bs (rm - k * bs)) (take bs (drop (k * bs) (piece @ t)))" if k: "k < length (sz # sizes)" for k
  proof (cases k)
    case 0
    have "take bs (piece @ t) = piece" using len t(3) by (cases "bs \<le> rm") auto
    with 0 piece show ?thesis by simp
  next
    case (Suc j)
    have "drop (bs + j * bs) (piece @ t) = drop (j * bs) t"
      using len t(3) by (cases "bs \<le> rm") auto
    moreover have "min bs (rm - (bs + j * bs)) = min bs (rm - min bs rm - j * bs)"
      by (cases "bs \<le> rm") auto
    ultimately show ?thesis using Suc k t(4) [of j] by simp
  qed
  moreover have "rm' = rm - length (sz # sizes) * bs"
    using t(2) by (cases "bs \<le> rm") auto
  moreover have "length (piece @ t) = rm - rm'"
    unfolding length_append t(2,3) len using min.cobounded2 [of bs rm] by arith
  ultimately show ?case using t(1) by (intro exI [of _ "piece @ t"]) blast
qed

text \<open>
  \<open>file_is fs i content\<close>: block by block and in the tail fragment, the image
  holds \<open>content\<close> for the inode \<open>i\<close>. This is what both readers compute with.
\<close>

definition tail_is :: "FS \<Rightarrow> inode \<Rightarrow> bytes \<Rightarrow> bool" where
  "tail_is fs i t \<longleftrightarrow> t = [] \<or>
     in_fragIdx i \<noteq> invalidFrag \<and>
     (\<exists>frag. readFragment fs (in_fragIdx i) None = (Inr frag, None) \<and>
        unat (in_fragOffset i) + length t \<le> length frag \<and>
        t = take (length t) (drop (unat (in_fragOffset i)) frag))"

definition file_is :: "FS \<Rightarrow> inode \<Rightarrow> bytes \<Rightarrow> bool" where
  "file_is fs i content \<longleftrightarrow>
     (let bs = unat (sb_BlockSize (fs_sb fs)); nb = length (in_blockSizes i) in
      length content = unat (in_Size i) \<and>
      (\<forall>k < nb. block_is fs (prefixOffsets (in_blocksStart i) (in_blockSizes i) ! k) (in_blockSizes i ! k)
         (min bs (unat (in_Size i) - k * bs)) (take bs (drop (k * bs) content))) \<and>
      tail_is fs i (drop (nb * bs) content))"

lemma readFragment_None: "snd (readFragment fs idx None) = None"
  using transparentD(1) [OF readFragmentEntry_transparent [of fs "\<lambda>_. True" idx]] readBlock_None
  by (auto simp: readFragment_def bindM_def split: prod.split sum.split)

lemma appendFragment_content:
  assumes "appendFragment fs i rm out None = (Inr res, s)" "length res = length out + rm"
  shows "\<exists>t. res = out @ t \<and> length t = rm \<and> tail_is fs i t"
proof (cases "rm = 0")
  case True
  with assms show ?thesis by (auto simp: appendFragment_def tail_is_def)
next
  case False
  with assms have idx: "in_fragIdx i \<noteq> invalidFrag"
    by (auto simp: appendFragment_def split: if_splits)
  with False assms(1) obtain frag s1 where "readFragment fs (in_fragIdx i) None = (Inr frag, s1)"
    "unat (in_fragOffset i) + rm \<le> length frag" "res = out @ take rm (drop (unat (in_fragOffset i)) frag)"
    by (auto simp: appendFragment_def bindM_eq_Inr Let_def not_less split: if_splits)
  moreover have "s1 = None" using calculation(1) readFragment_None [of fs "in_fragIdx i"] by simp
  ultimately show ?thesis using idx by (auto simp: tail_is_def)
qed

lemma readFileLimit_content:
  assumes "readFileLimit mk fs i maxLen None = (Inr content, s)"
  shows "file_is fs i content"
proof -
  define bs where "bs = unat (sb_BlockSize (fs_sb fs))"
  define nb where "nb = length (in_blockSizes i)"
  define size where "size = unat (in_Size i)"
  from assms obtain rm res s1 where
    as: "assembleBlocks fs (in_blocksStart i) size (in_blockSizes i) [] None = (Inr (rm, res), s1)"
    and ap: "appendFragment fs i rm res s1 = (Inr content, s)" and len: "length content = size"
    by (auto simp: readFileLimit_def bindM_eq_Inr size_def split: if_splits sum.splits)
  have "s1 = None" using as assembleBlocks_None [of fs "in_blocksStart i" size "in_blockSizes i" "[]"] by simp
  with ap have ap: "appendFragment fs i rm res None = (Inr content, s)" by simp
  from assembleBlocks_content [OF as] have
    rm: "rm = size - nb * bs" and lres: "length res = size - rm"
    and blocks: "\<And>k. k < nb \<Longrightarrow> block_is fs (prefixOffsets (in_blocksStart i) (in_blockSizes i) ! k)
        (in_blockSizes i ! k) (min bs (size - k * bs)) (take bs (drop (k * bs) res))"
    by (auto simp: bs_def nb_def)
  from appendFragment_content [OF ap] obtain t where
    t: "content = res @ t" "length t = rm" "tail_is fs i t"
    using len lres rm by auto
  have "drop (nb * bs) content = t"
    using t lres rm by (cases "nb * bs \<le> size") auto
  moreover have "take bs (drop (k * bs) content) = take bs (drop (k * bs) res)" if "k < nb" for k
  proof (cases "nb * bs \<le> size")
    case True
    have "k * bs + bs \<le> nb * bs" using that by (metis Suc_leI add.commute mult_Suc mult_le_mono1)
    with True t(1) lres rm show ?thesis by auto
  qed (use t(1,2) rm in auto)
  ultimately show ?thesis
    using blocks t(3) len by (simp add: file_is_def Let_def flip: bs_def nb_def size_def)
qed

lemma newFile_fields:
  assumes "newFile fs i = Inr f"
  shows "f_fs f = fs" "f_blockOffsets f = prefixOffsets (in_blocksStart i) (in_blockSizes i)"
    "f_blockWords f = in_blockSizes i" "f_fragIdx f = in_fragIdx i" "f_fragOffset f = in_fragOffset i"
    "f_size f = in_Size i" "unat (f_blockSize f) = unat (sb_BlockSize (fs_sb fs))" "\<not> f_closed f"
    "in_Size i \<le> maxFileBytes fs i"
  using assms by (auto simp: newFile_def split: if_splits)

lemma newFile_blockSize:
  assumes "newFile fs i = Inr f" "0 < unat (in_Size i)"
  shows "0 < unat (sb_BlockSize (fs_sb fs))"
proof (rule ccontr)
  assume "\<not> 0 < unat (sb_BlockSize (fs_sb fs))"
  then have "sb_BlockSize (fs_sb fs) = 0" by (simp add: unat_gt_0)
  then show False using newFile_fields(9) [OF assms(1)] assms(2) by (simp add: maxFileBytes_def)
qed

lemma readFragmentInto_content:
  assumes f: "newFile fs i = Inr f" and t: "tail_is fs i t"
    and L: "unat (in_Size i) = length (in_blockSizes i) * unat (sb_BlockSize (fs_sb fs)) + length t"
    and cur: "cur = length (in_blockSizes i) * unat (sb_BlockSize (fs_sb fs)) + j"
    and want: "0 < want" "want \<le> length t - j"
  shows "readFragmentInto f want cur None = (Inr (take want (drop j t)), None)"
proof -
  have "t \<noteq> []" using want by auto
  with t obtain frag where frag: "in_fragIdx i \<noteq> invalidFrag"
    "readFragment fs (in_fragIdx i) None = (Inr frag, None)"
    "unat (in_fragOffset i) + length t \<le> length frag"
    "t = take (length t) (drop (unat (in_fragOffset i)) frag)"
    by (auto simp: tail_is_def)
  have sum: "int a + (int (b + c) - int b) = int (a + c)" for a b c :: nat by simp
  have "take want (drop j t) = take want (drop j (take (length t) (drop (unat (in_fragOffset i)) frag)))"
    using frag(4) by simp
  also have "\<dots> = take want (drop (unat (in_fragOffset i) + j) frag)"
    using want(2) by (simp add: drop_take add.commute)
  finally have sl: "take want (drop j t) = take want (drop (unat (in_fragOffset i) + j) frag)" .
  show ?thesis
    using frag(1,2) newFile_fields [OF f]
    unfolding readFragmentInto_def Let_def
    by (simp add: L cur sl fragmentSlice_def frag(3) sum not_less flip: of_nat_mult of_nat_add del: of_nat_add of_nat_mult)
qed

lemma block_is_slice:
  assumes "block_is fs off sz logical piece" "within + m \<le> logical"
  shows "if blockOnDiskBytes sz = 0 then take m (drop within piece) = replicate m 0
         else \<exists>d. readBlock fs off sz None = (Inr d, None) \<and> logical \<le> length d \<and>
                take m (drop within piece) = take m (drop within d)"
proof -
  have "m \<le> logical - within" using assms(2) by simp
  then have eq: "take m (drop within (take logical d)) = take m (drop within d)" for d :: bytes
    by (simp add: drop_take min_absorb1)
  show ?thesis
  proof (cases "blockOnDiskBytes sz = 0")
    case True
    with assms(1) \<open>m \<le> logical - within\<close> show ?thesis by (simp add: block_is_def min_absorb1)
  next
    case False
    with assms(1) obtain d where "readBlock fs off sz None = (Inr d, None)" "logical \<le> length d"
      "piece = take logical d"
      by (auto simp: block_is_def)
    with False eq show ?thesis by auto
  qed
qed

lemma readChunk_fields:
  assumes f: "newFile fs i = Inr f" and bs: "bs = unat (sb_BlockSize (fs_sb fs))" "0 < bs"
  shows "readChunk f want cur =
     (let k = cur div bs; m = min want (bs - cur mod bs) in
      if length (in_blockSizes i) \<le> k then readFragmentInto f want cur
      else if blockOnDiskBytes (f_blockWords f ! k) = 0 then retM (replicate m 0)
      else bindM (readBlock fs (f_blockOffsets f ! k) (f_blockWords f ! k)) (\<lambda>data.
        if length data < min bs (unat (in_Size i) - k * bs) then throwM (Wrapped ErrCorrupt)
        else retM (take m (drop (cur mod bs) data))))"
  unfolding readChunk_def Let_def newFile_fields(1,6,7) [OF f, folded bs(1)]
  using bs(2) by (simp add: newFile_fields(2) [OF f])

lemma readChunk_content:
  assumes f: "newFile fs i = Inr f" and cont: "file_is fs i content"
    and want: "0 < want" "cur + want \<le> unat (in_Size i)"
  shows "\<exists>m. 0 < m \<and> m \<le> want \<and> readChunk f want cur None = (Inr (take m (drop cur content)), None)"
proof -
  define bs where "bs = unat (sb_BlockSize (fs_sb fs))"
  define nb where "nb = length (in_blockSizes i)"
  define size where "size = unat (in_Size i)"
  define k where "k = cur div bs"
  define within where "within = cur mod bs"
  have bs0: "0 < bs" using newFile_blockSize [OF f] want by (simp add: bs_def)
  have cur: "cur = k * bs + within" by (simp add: k_def within_def)
  have wb: "within < bs" using bs0 by (simp add: within_def)
  have len: "length content = size" using cont by (simp add: file_is_def Let_def size_def)
  note fields = newFile_fields [OF f, folded bs_def nb_def size_def]
  define logical where "logical = min bs (size - k * bs)"
  define m where "m = min want (bs - within)"
  note step = readChunk_fields [OF f bs_def bs0, of want cur, unfolded Let_def, folded k_def within_def,
      folded m_def size_def nb_def, folded logical_def]
  show ?thesis
  proof (cases "nb \<le> k")
    case True
    then have nb: "nb * bs \<le> cur" using cur mult_le_mono1 [OF True, of bs] by linarith
    have "tail_is fs i (drop (nb * bs) content)"
      using cont by (simp add: file_is_def Let_def bs_def nb_def)
    from readFragmentInto_content [OF f this, of cur "cur - nb * bs" want, folded bs_def nb_def size_def]
    have "readFragmentInto f want cur None = (Inr (take want (drop cur content)), None)"
      using nb len want by (simp add: size_def)
    with True want step show ?thesis by (intro exI [of _ want]) simp
  next
    case False
    have piece: "block_is fs (f_blockOffsets f ! k) (f_blockWords f ! k) logical (take bs (drop (k * bs) content))"
      using cont False fields by (simp add: file_is_def Let_def logical_def flip: bs_def nb_def size_def)
    have "m \<le> bs - within" "m \<le> want" by (simp_all add: m_def)
    moreover have m: "0 < m" using want wb by (simp add: m_def)
    ultimately have fit: "within + m \<le> logical"
      using want(2) cur unfolding logical_def size_def by auto
    have "take m (drop within (take bs (drop (k * bs) content))) = take m (drop cur content)"
      using \<open>m \<le> bs - within\<close> by (simp add: drop_take min_absorb1 cur add.commute)
    then have "readChunk f want cur None = (Inr (take m (drop cur content)), None)"
      using block_is_slice [OF piece fit] False
      unfolding step by (auto simp: bindM_def not_less split: if_splits)
    with m \<open>m \<le> want\<close> show ?thesis by blast
  qed
qed

lemma blocks_sized_nth:
  "\<lbrakk>blocks_sized w off sizes; k < length sizes\<rbrakk> \<Longrightarrow> sized w (prefixOffsets off sizes ! k) (sizes ! k)"
proof (induction sizes arbitrary: off k)
  case (Cons sz sizes)
  then show ?case by (cases k) simp_all
qed simp

lemma readChunk_transparent:
  assumes f: "newFile fs i = Inr f" and w: "file_sized w fs i"
  shows "transparent (coherent fs (data_coherent fs w)) None (readChunk f want cur)"
proof -
  have b: "\<And>k. k < length (in_blockSizes i) \<Longrightarrow>
      transparent (coherent fs (data_coherent fs w)) None (readBlock fs
        (prefixOffsets (in_blocksStart i) (in_blockSizes i) ! k) (in_blockSizes i ! k))"
    using w by (auto simp: file_sized_def intro!: readBlock_transparent blocks_sized_nth)
  have r: "transparent (coherent fs (data_coherent fs w)) None (readFragment fs (in_fragIdx i))"
    using w by (auto simp: file_sized_def intro: readFragment_transparent)
  show ?thesis
    unfolding readChunk_def readFragmentInto_def newFile_fields [OF f]
    by (intro transparent_intros b r) simp_all
qed

lemma readChunk_coherent:
  assumes f: "newFile fs i = Inr f" and cont: "file_is fs i content" and w: "file_sized w fs i"
    and co: "coherent fs (data_coherent fs w) c"
    and want: "0 < want" "cur + want \<le> length content"
  obtains m c' where "m \<le> want" "readChunk f want cur c = (Inr (take m (drop cur content)), c')"
    "coherent fs (data_coherent fs w) c'"
proof -
  have "cur + want \<le> unat (in_Size i)" using want(2) cont by (simp add: file_is_def Let_def)
  from readChunk_content [OF f cont want(1) this] obtain m where
    m: "m \<le> want" "readChunk f want cur None = (Inr (take m (drop cur content)), None)" by blast
  note t = transparentD(2,3) [OF readChunk_transparent [OF f w, of want cur] co]
  from t m(2) that [OF m(1), of "snd (readChunk f want cur c)"] show ?thesis
    by (cases "readChunk f want cur c") simp
qed

text \<open>The loop on any coherent cache: the wanted bytes, then \<open>EOF\<close> if the file ended first.\<close>

lemma readAtLoop_content:
  assumes f: "newFile fs i = Inr f" and cont: "file_is fs i content" and w: "file_sized w fs i"
    and out: "length out \<le> lenp" "out = take (length out) (drop off content)" "off + length out \<le> length content"
    and co: "coherent fs (data_coherent fs w) c"
  shows "\<exists>c'. readAtLoop f lenp off out c =
       ((take lenp (drop off content), if off + lenp \<le> length content then None else Some EOF), c') \<and>
     coherent fs (data_coherent fs w) c'"
proof -
  have size: "unat (f_size f) = length content"
    using cont newFile_fields(6) [OF f] by (simp add: file_is_def Let_def)
  note chunk = readChunk_coherent [OF f cont w]
  show ?thesis
    using out co
  proof (induction rule: readAtLoop_rounds [where f = f and off = off])
    case (full out c)
    have out: "out = take lenp (drop off content)" using full(2) unfolding full(1) .
    have "off + lenp \<le> length content" using full(3) unfolding full(1) .
    then show ?case using full(4) by (intro exI [of _ c]) (simp flip: out)
  next
    case (eof out c)
    have "take lenp (drop off content) = take (length out) (drop off content)"
      using eof(1,2,4) size by simp
    also have "\<dots> = out" using eof(3) by (rule sym)
    finally show ?case using eof(1,2,4,5) size by (intro exI [of _ c]) simp
  next
    case (fail out c e c')
    define want where "want = min (lenp - length out) (length content - (off + length out))"
    have "0 < want" "off + length out + want \<le> length content"
      using fail(1,2) size by (auto simp: want_def)
    from chunk [OF fail(6) this] fail(3) show ?case unfolding size want_def by (metis Inl_Inr_False prod.inject)
  next
    case (round out c chunk c' r)
    define want where "want = min (lenp - length out) (length content - (off + length out))"
    have want: "0 < want" "off + length out + want \<le> length content"
      using round(1,2) size by (auto simp: want_def)
    from chunk [OF round(8) this] round(3) obtain m where m: "m \<le> want"
      and ch: "chunk = take m (drop (off + length out) content)" and co': "coherent fs (data_coherent fs w) c'"
      unfolding size want_def by (metis Inr_inject prod.inject)
    have lch: "length chunk = m" using m want(2) ch by simp
    have "out @ chunk = take (length (out @ chunk)) (drop off content)"
      using round(6) ch lch by (metis add.commute drop_drop length_append take_add)
    moreover have "off + length (out @ chunk) \<le> length content" using lch m want(2) by simp
    ultimately show ?case using round(5) co' by blast
  qed
qed

lemma file_ReadAt_content:
  assumes f: "newFile fs i = Inr f" and cont: "file_is fs i content" and w: "file_sized w fs i"
    and small: "unat (in_Size i) < 2 ^ 63"
    and co: "coherent fs (data_coherent fs w) c"
    and off: "0 \<le>s off" and bytes: "bytes = take (length p) (drop (unat off) content)"
  shows "\<exists>c'. file_ReadAt f p off c =
       ((length bytes, if unat off < length content \<and> unat off + length p \<le> length content then None else Some EOF,
         bytes @ drop (length bytes) p), c') \<and> coherent fs (data_coherent fs w) c'"
proof -
  have size: "unat (f_size f) = length content"
    using cont newFile_fields(6) [OF f] by (simp add: file_is_def Let_def)
  have "\<not> off <s 0" using off by (simp add: signed.not_less)
  then have off63: "unat off < 2 ^ 63" using sless_0_iff [of off] by simp
  have le: "f_size f \<le>s off \<longleftrightarrow> length content \<le> unat off"
    using sle_small [of "f_size f" off] size small off63 newFile_fields(6) [OF f] by simp
  show ?thesis
  proof (cases "length content \<le> unat off")
    case True
    with le \<open>\<not> off <s 0\<close> newFile_fields(8) [OF f] co bytes show ?thesis
      by (simp add: file_ReadAt_def)
  next
    case False
    from readAtLoop_content [OF f cont w, of "[]" "length p" "unat off" c] False co
    obtain c' where "readAtLoop f (length p) (unat off) [] c =
       ((bytes, if unat off + length p \<le> length content then None else Some EOF), c')"
      "coherent fs (data_coherent fs w) c'"
      unfolding bytes by auto
    with False le \<open>\<not> off <s 0\<close> newFile_fields(8) [OF f] show ?thesis
      by (simp add: file_ReadAt_def)
  qed
qed


section \<open>Properties\<close>

text \<open>
  C15: \<^verbatim>\<open>ReadAt\<close> keeps the io.ReaderAt contract on every open file, buffer, offset
  and cache, whatever the image holds: it never reports more bytes than the
  buffer has, leaves the buffer beyond the reported bytes as it was, and returns
  a nil error exactly when the file is open, the offset lies inside it and the
  buffer was filled completely. The loop always ends, because the model is total.
\<close>

theorem ReadAt_contract:
  "case file_ReadAt f p off c of ((n, err, p'), c') \<Rightarrow>
     n \<le> length p \<and> length p' = length p \<and> drop n p' = drop n p \<and>
     (err = None \<longleftrightarrow> n = length p \<and> \<not> f_closed f \<and> 0 \<le>s off \<and> off <s f_size f)"
proof (cases "f_closed f \<or> off <s 0 \<or> f_size f \<le>s off")
  case True
  then show ?thesis by (auto simp: file_ReadAt_def signed.not_less signed.not_le)
next
  case False
  then have "0 \<le>s off" "off <s f_size f" by (simp_all add: signed.not_less signed.not_le)
  with False readAtLoop_count [of "[]" "length p" f "unat off" c] show ?thesis
    by (auto simp: file_ReadAt_def split: prod.splits)
qed


text \<open>
  A two-block file on an image whose decompressor doubles its input: 2 stored
  bytes make the first block of 4, 1 stored byte the last 2.
\<close>

definition demoFS :: FS where
  "demoFS = \<lparr>fs_rs = bytesReader [10, 20, 30], fs_size = 3,
     fs_sb = (decodeSuperblock (replicate 96 0))\<lparr>sb_BlockSize := 4\<rparr>,
     fs_d = (\<lambda>raw maxOut. Inr (raw @ raw)), fs_closer = None\<rparr>"

definition demoInode :: inode where
  "demoInode = (decodeInodeHeader (replicate 16 0))\<lparr>in_Type := inodeBasicFile, in_Size := 6,
     in_fragIdx := invalidFrag, in_blockSizes := [2, 1]\<rparr>"

lemma demo_sized: "file_sized (\<lambda>off. if off = 0 then 2 else 1) demoFS demoInode"
  by code_simp

lemma demo_readFile: "readFile (\<lambda>n m. Inr []) demoFS demoInode None = (Inr [10, 20, 10, 20, 30, 30], None)"
  by code_simp

lemma demo_offset: "0 \<le>s (3 :: int64)"
  by code_simp


end
