(* ===== verification/Xattr.thy ===== *)
theory Xattr
  imports Inode
begin

text \<open>
  \<^verbatim>\<open>xattr.go\<close>: the extended-attribute tables. A Go map from names to values is
  a \<open>gomap\<close>; the nil map of a node without attributes is \<open>None\<close>.
\<close>

definition xattrPrefixes :: "u16 \<Rightarrow> bytes option" where
  "xattrPrefixes t =
     (if t = 0 then Some (gostring ''user.'')
      else if t = 1 then Some (gostring ''trusted.'')
      else if t = 2 then Some (gostring ''security.'')
      else None)"

definition xattrFlagOOL :: u16 where "xattrFlagOOL = 0x0100"
definition maxXattrBytes :: int where "maxXattrBytes = 16777216"

record xattrIDEntry =
  xe_ref :: u64
  xe_count :: u32
  xe_size :: u32

definition xattrIDEntrySize :: nat where "xattrIDEntrySize = 16"
definition xattrIDPerMetaBlock :: nat where "xattrIDPerMetaBlock = metaBlockMax div xattrIDEntrySize"

record xattrTable =
  xt_kvStart :: int64
  xt_idCount :: u32
  xt_nBlocks :: u64

definition hasXattrTable :: "FS \<Rightarrow> bool" where
  "hasXattrTable fs \<longleftrightarrow> sb_XattrTableStart (fs_sb fs) \<noteq> 0xFFFFFFFFFFFFFFFF"

definition readXattrTable :: "FS \<Rightarrow> error + xattrTable" where
  "readXattrTable fs =
     (if \<not> hasXattrTable fs then Inl (Wrapped ErrNotFound)
      else case ReadAt (fs_rs fs) (sb_XattrTableStart (fs_sb fs)) 16 of
        Inl e \<Rightarrow> Inl (Wrapped e)
      | Inr hdr \<Rightarrow>
          (let idCount = Uint32 (drop 8 hdr);
               nBlocks = (ucast idCount + of_nat xattrIDPerMetaBlock - 1) div of_nat xattrIDPerMetaBlock;
               end_w = sb_XattrTableStart (fs_sb fs) + 16 + nBlocks * 8 in
           if 0 <s fs_size fs \<and> (sb_XattrTableStart (fs_sb fs) > fs_size fs \<or> end_w > fs_size fs)
           then Inl (Wrapped ErrCorrupt)
           else Inr \<lparr>xt_kvStart = Uint64 (drop 0 hdr), xt_idCount = idCount, xt_nBlocks = nBlocks\<rparr>))"

definition decodeXattrIDEntry :: "bytes \<Rightarrow> xattrIDEntry" where
  "decodeXattrIDEntry b =
     \<lparr>xe_ref = Uint64 (drop 0 b), xe_count = Uint32 (drop 8 b), xe_size = Uint32 (drop 12 b)\<rparr>"

definition readXattrIDEntry :: "FS \<Rightarrow> xattrTable \<Rightarrow> u32 \<Rightarrow> (cachePtr, xattrIDEntry) eff" where
  "readXattrIDEntry fs t idx =
     (if idx \<ge> xt_idCount t then throwM (Wrapped ErrCorrupt)
      else
        (let blockIdx = unat idx div xattrIDPerMetaBlock; inBlock = unat idx mod xattrIDPerMetaBlock in
         if of_nat blockIdx \<ge> xt_nBlocks t then throwM (Wrapped ErrCorrupt)
         else case ReadAt (fs_rs fs) (sb_XattrTableStart (fs_sb fs) + 16 + of_nat blockIdx * 8) 8 of
           Inl e \<Rightarrow> throwM (Wrapped e)
         | Inr ptr \<Rightarrow>
             bindM (readMetaBlockCached fs (Uint64 ptr)) (\<lambda>(block, _).
             let o_b = inBlock * xattrIDEntrySize in
             if o_b + xattrIDEntrySize > length block then throwM (Wrapped ErrCorrupt)
             else retM (decodeXattrIDEntry (drop o_b block)))))"

definition readXattrValueAt :: "FS \<Rightarrow> xattrTable \<Rightarrow> u64 \<Rightarrow> (cachePtr, bytes) eff" where
  "readXattrValueAt fs t ref =
     (case inodeRef ref of (blockOff, inBlockOff) \<Rightarrow>
      bindM (newMetaCursor fs (xt_kvStart t + blockOff) inBlockOff) (\<lambda>c.
      bindM (cur_read fs c 4) (\<lambda>(hdr, c).
      let vsize = unat (Uint32 hdr) in
      if vsize > metaBlockMax then throwM (Wrapped ErrCorrupt)
      else bindM (cur_read fs c vsize) (\<lambda>(v, _). retM v))))"

text \<open>
  The value of one pair, after its name: an inline value, or an 8-byte reference
  to a value elsewhere.
\<close>

definition readXattrValue :: "FS \<Rightarrow> xattrTable \<Rightarrow> u16 \<Rightarrow> metaCursor \<Rightarrow> (cachePtr, bytes \<times> metaCursor) eff" where
  "readXattrValue fs t typ c =
     bindM (cur_read fs c 4) (\<lambda>(valHdr, c).
     let vsize = Uint32 valHdr in
     if typ AND xattrFlagOOL \<noteq> 0 then
       (if vsize \<noteq> 8 then throwM (Wrapped ErrCorrupt)
        else bindM (cur_read fs c 8) (\<lambda>(refBytes, c).
          bindM (readXattrValueAt fs t (Uint64 refBytes)) (\<lambda>v. retM (v, c))))
     else if unat vsize > metaBlockMax then throwM (Wrapped ErrCorrupt)
     else cur_read fs c (unat vsize))"

text \<open>One pair: type, name with its namespace restored, value.\<close>

definition readXattrPair :: "FS \<Rightarrow> xattrTable \<Rightarrow> metaCursor \<Rightarrow> (cachePtr, (bytes \<times> bytes) \<times> metaCursor) eff" where
  "readXattrPair fs t c =
     bindM (cur_read fs c 4) (\<lambda>(keyHdr, c).
     let typ = Uint16 (drop 0 keyHdr); nameSize = unat (Uint16 (drop 2 keyHdr)) in
     if nameSize > metaBlockMax then throwM (Wrapped ErrCorrupt)
     else bindM (cur_read fs c nameSize) (\<lambda>(nameBytes, c).
     case xattrPrefixes (typ AND 0x00FF) of
       None \<Rightarrow> throwM (Wrapped ErrCorrupt)
     | Some pre \<Rightarrow>
         bindM (readXattrValue fs t typ c) (\<lambda>(v, c).
         retM ((pre @ nameBytes, v), c))))"

text \<open>
  The loop of \<^verbatim>\<open>readXattrPairs\<close>. \<open>budget\<close> pays 8 bytes for every pair before it
  is read and the bytes of its name and value after.
\<close>

fun xattrPairsLoop ::
  "FS \<Rightarrow> xattrTable \<Rightarrow> nat \<Rightarrow> int \<Rightarrow> metaCursor \<Rightarrow> (bytes, bytes) gomap \<Rightarrow> (cachePtr, (bytes, bytes) gomap) eff" where
  "xattrPairsLoop fs t 0 budget c out = retM out"
| "xattrPairsLoop fs t (Suc n) budget c out =
     (if budget - 8 < 0 then throwM (Wrapped ErrTooLarge)
      else bindM (readXattrPair fs t c) (\<lambda>(kv, c). case kv of (name, v) \<Rightarrow>
        let budget' = budget - 8 - (int (length name) + int (length v)) in
        if budget' < 0 then throwM (Wrapped ErrTooLarge)
        else xattrPairsLoop fs t n budget' c (map_assign out name v)))"

definition readXattrPairs :: "FS \<Rightarrow> xattrTable \<Rightarrow> xattrIDEntry \<Rightarrow> (cachePtr, (bytes, bytes) gomap) eff" where
  "readXattrPairs fs t e =
     (case inodeRef (xe_ref e) of (blockOff, inBlockOff) \<Rightarrow>
      bindM (newMetaCursor fs (xt_kvStart t + blockOff) inBlockOff) (\<lambda>c.
      xattrPairsLoop fs t (unat (xe_count e)) maxXattrBytes c []))"

definition inodeXattrs :: "FS \<Rightarrow> inode \<Rightarrow> (cachePtr, (bytes, bytes) gomap option) eff" where
  "inodeXattrs fs i =
     (if in_xattrIdx i = noXattr \<or> \<not> hasXattrTable fs then retM None
      else bindM (liftM (readXattrTable fs)) (\<lambda>t.
        bindM (readXattrIDEntry fs t (in_xattrIdx i)) (\<lambda>e.
        bindM (readXattrPairs fs t e) (\<lambda>m. retM (Some m)))))"


section \<open>The cache is invisible to attribute reads\<close>

lemma readXattrIDEntry_transparent [transparent_intros]:
  "transparent (coherent fs dc) None (readXattrIDEntry fs t idx)"
  unfolding readXattrIDEntry_def by (intro transparent_intros)

lemma readXattrValueAt_transparent [transparent_intros]:
  "transparent (coherent fs dc) None (readXattrValueAt fs t ref)"
  unfolding readXattrValueAt_def by (intro transparent_intros)

lemma readXattrPair_transparent [transparent_intros]:
  "transparent (coherent fs dc) None (readXattrPair fs t c)"
  unfolding readXattrPair_def readXattrValue_def by (intro transparent_intros)

lemma xattrPairsLoop_transparent [transparent_intros]:
  "transparent (coherent fs dc) None (xattrPairsLoop fs t n budget c out)"
proof (induction n arbitrary: budget c out)
  case (Suc n)
  show ?case unfolding xattrPairsLoop.simps by (intro transparent_intros Suc)
qed (simp add: transparent_intros)

lemma inodeXattrs_transparent [transparent_intros]:
  "transparent (coherent fs dc) None (inodeXattrs fs i)"
  unfolding inodeXattrs_def readXattrPairs_def by (intro transparent_intros)


section \<open>The budget\<close>

text \<open>All the bytes of names and values a list of attributes holds.\<close>

definition xattr_bytes :: "(bytes, bytes) gomap \<Rightarrow> nat" where
  "xattr_bytes m = sum_list (map (\<lambda>(k, v). length k + length v) m)"

lemma xattr_bytes_assign: "xattr_bytes (map_assign m k v) \<le> xattr_bytes m + length k + length v"
  by (induction m) (auto simp: xattr_bytes_def)

lemma xattrPairsLoop_budget:
  assumes "xattrPairsLoop fs t n budget c out s = (Inr m, s')" "0 \<le> budget"
  shows "int (xattr_bytes m) + 8 * int n \<le> int (xattr_bytes out) + budget"
  using assms
proof (induction n arbitrary: budget c out s)
  case (Suc n)
  from Suc.prems(1) obtain name v c1 s1 where
    "0 \<le> budget - 8 - (int (length name) + int (length v))"
    "xattrPairsLoop fs t n (budget - 8 - (int (length name) + int (length v))) c1 (map_assign out name v) s1 = (Inr m, s')"
    by (auto simp: bindM_eq_Inr Let_def not_less split: if_splits)
  from Suc.IH [OF this(2,1)] xattr_bytes_assign [where m = out and k = name and v = v] show ?case by simp
qed simp

text \<open>No attribute value is longer than a metadata block's payload.\<close>

lemma readXattrValueAt_bound:
  assumes "readXattrValueAt fs t ref s = (Inr v, s')"
  shows "length v \<le> metaBlockMax"
proof -
  obtain b o_b where "inodeRef ref = (b, o_b)" by fastforce
  with assms show ?thesis
    by (auto simp: readXattrValueAt_def bindM_eq_Inr Let_def not_less split: if_splits dest!: length_cur_read)
qed

lemma readXattrValue_bound:
  assumes "readXattrValue fs t typ c s = (Inr (v, c'), s')"
  shows "length v \<le> metaBlockMax"
  using assms
  by (auto simp: readXattrValue_def bindM_eq_Inr Let_def not_less
      split: if_splits dest: length_cur_read readXattrValueAt_bound)


section \<open>Reading back an encoded list\<close>

text \<open>
  The documented layout of one inline attribute: type, name length, name, value
  length, value.
\<close>

definition encodeXattr :: "u16 \<times> bytes \<times> bytes \<Rightarrow> bytes" where
  "encodeXattr a =
     (case a of (typ, name, v) \<Rightarrow>
      PutUint16 typ @ PutUint16 (of_nat (length name)) @ name @ PutUint32 (of_nat (length v)) @ v)"

definition xattr_ok :: "u16 \<times> bytes \<times> bytes \<Rightarrow> bool" where
  "xattr_ok a = (case a of (typ, name, v) \<Rightarrow>
     typ < 3 \<and> length name \<le> metaBlockMax \<and> length v \<le> metaBlockMax)"

definition xattr_name :: "u16 \<times> bytes \<times> bytes \<Rightarrow> bytes" where
  "xattr_name a = (case a of (typ, name, v) \<Rightarrow> the (xattrPrefixes typ) @ name)"

definition xattr_cost :: "u16 \<times> bytes \<times> bytes \<Rightarrow> nat" where
  "xattr_cost a = 8 + length (xattr_name a) + length (snd (snd a))"

lemma xattrPrefixes_ok:
  assumes "xattr_ok (typ, name, v)"
  shows "typ AND 0x00FF = typ" "typ AND xattrFlagOOL = 0" "xattrPrefixes typ \<noteq> None"
    "unat (of_nat (length name) :: u16) = length name" "unat (of_nat (length v) :: u32) = length v"
proof -
  have "typ < 3" using assms by (simp add: xattr_ok_def)
  then have "typ = 0 \<or> typ = 1 \<or> typ = 2"
    by uint_arith
  then show "typ AND 0x00FF = typ" "typ AND xattrFlagOOL = 0" "xattrPrefixes typ \<noteq> None"
    by (auto simp: xattrPrefixes_def xattrFlagOOL_def)
  show "unat (of_nat (length name) :: u16) = length name" "unat (of_nat (length v) :: u32) = length v"
    using assms by (simp_all add: xattr_ok_def metaBlockMax_def unat_of_nat)
qed

lemma readXattrPair_encode:
  assumes ok: "xattr_ok a" and av: "avail fs c (encodeXattr a @ rest)"
  shows "\<exists>c'. readXattrPair fs t c None = (Inr ((xattr_name a, snd (snd a)), c'), None) \<and> avail fs c' rest"
proof -
  obtain ty name v where a: "a = (ty, name, v)" by (cases a)
  note p = xattrPrefixes_ok [OF ok [unfolded a]]
  let ?h1 = "PutUint16 ty @ PutUint16 (of_nat (length name))"
  let ?h2 = "PutUint32 (of_nat (length v))"
  have "avail fs c (?h1 @ name @ ?h2 @ v @ rest)" using av by (simp add: a encodeXattr_def)
  then obtain c1 where r1: "cur_read fs c 4 None = (Inr (?h1, c1), None)" "avail fs c1 (name @ ?h2 @ v @ rest)"
    using cur_read_append [of fs c ?h1] by auto
  from cur_read_append [OF r1(2)] obtain c2 where r2: "cur_read fs c1 (length name) None = (Inr (name, c2), None)" "avail fs c2 (?h2 @ v @ rest)"
    by auto
  from cur_read_append [OF r2(2)] obtain c3 where r3: "cur_read fs c2 4 None = (Inr (?h2, c3), None)" "avail fs c3 (v @ rest)"
    by auto
  from cur_read_append [OF r3(2)] obtain c4 where r4: "cur_read fs c3 (length v) None = (Inr (v, c4), None)" "avail fs c4 rest"
    by auto
  have "readXattrValue fs t ty c2 None = (Inr (v, c4), None)"
    using r3 r4 p ok by (simp add: readXattrValue_def bindM_def a xattr_ok_def)
  then show ?thesis
    using r1 r2 r4 p ok
    by (auto simp: readXattrPair_def bindM_def a xattr_ok_def xattr_name_def split: option.split)
qed

lemma xattrPairsLoop_encode:
  assumes "list_all xattr_ok as" "avail fs c (concat (map encodeXattr as) @ rest)"
    "int (sum_list (map xattr_cost as)) \<le> budget"
  shows "xattrPairsLoop fs t (length as) budget c out None =
     (Inr (fold (\<lambda>a m. map_assign m (xattr_name a) (snd (snd a))) as out), None)"
  using assms
proof (induction as arbitrary: c budget out)
  case (Cons a as)
  from Cons.prems obtain c' where c': "avail fs c' (concat (map encodeXattr as) @ rest)"
    "readXattrPair fs t c None = (Inr ((xattr_name a, snd (snd a)), c'), None)"
    using readXattrPair_encode [of a fs c "concat (map encodeXattr as) @ rest" t] by auto
  have "int (sum_list (map xattr_cost as)) \<le>
      budget - 8 - (int (length (xattr_name a)) + int (length (snd (snd a))))"
    using Cons.prems(3) xattr_cost_def [of a] by simp
  moreover have "0 \<le> int (sum_list (map xattr_cost as))" by simp
  ultimately show ?case
    using Cons.IH [OF _ c'(1)] Cons.prems(1) c'(2)
    by (simp add: bindM_def Let_def not_less)
qed simp

end
