(* ===== verification/FsApi.thy ===== *)
theory FsApi
  imports PathResolve OpenedFile Xattr
begin

text \<open>
  \<^verbatim>\<open>fs.go\<close> and \<^verbatim>\<open>openreader.go\<close>: opening an image and the operations a client
  calls on it. The cache is the state of an opened file system; the locale
  \<open>cached_server\<close> states what sharing it between calls must not change, and is
  interpreted for the operations below.
\<close>

text \<open>
  \<open>closer\<close> is the \<^verbatim>\<open>io.Closer\<close> the reader may also be, with the result its
  \<^verbatim>\<open>Close\<close> gives.
\<close>

definition Open :: "codecLibs \<Rightarrow> readerAt \<Rightarrow> (error + unit) option \<Rightarrow> int64 \<Rightarrow> error + FS \<times> cachePtr" where
  "Open libs rs closer sz =
     bindE (readSuperblock rs) (\<lambda>sb.
     bindE (newDecompressor libs (sb_Compression sb)) (\<lambda>d.
     bindE (readCompressorOptions rs sb) (\<lambda>_.
     Inr (\<lparr>fs_rs = rs, fs_size = sz, fs_sb = sb, fs_d = d, fs_closer = closer\<rparr>,
          Some newBlockCache))))"

definition OpenReader :: "codecLibs \<Rightarrow> readerAt \<Rightarrow> (error + unit) option \<Rightarrow> int64 \<Rightarrow> error + FS \<times> cachePtr" where
  "OpenReader libs r closer sz = bindE (Open libs r closer sz) (\<lambda>fs. Inr fs)"

text \<open>
  The package function \<^verbatim>\<open>OpenFile\<close>: the host file that \<^verbatim>\<open>os.Open\<close> returns, with
  what its \<^verbatim>\<open>Stat\<close> reports and its \<^verbatim>\<open>Close\<close> gives. The second component of the
  result says whether the handle was closed on the way.
\<close>

record hostFile =
  hf_reader :: readerAt
  hf_stat :: "error + int64"
  hf_close :: "error + unit"

definition OpenFile :: "codecLibs \<Rightarrow> error + hostFile \<Rightarrow> (error + FS \<times> cachePtr) \<times> bool" where
  "OpenFile libs os_open =
     (case os_open of
        Inl e \<Rightarrow> (Inl (Wrapped e), False)
      | Inr f \<Rightarrow>
          (case hf_stat f of
             Inl e \<Rightarrow> (Inl (Wrapped e), True)
           | Inr sz \<Rightarrow>
               (case Open libs (hf_reader f) (Some (hf_close f)) sz of
                  Inl e \<Rightarrow> (Inl e, True)
                | Inr fs \<Rightarrow> (Inr fs, False))))"

definition fs_Superblock :: "FS \<Rightarrow> Superblock" where
  "fs_Superblock fs = fs_sb fs"

definition fs_Close :: "FS \<Rightarrow> error + unit" where
  "fs_Close fs = (case fs_closer fs of Some r \<Rightarrow> r | None \<Rightarrow> Inr ())"

definition ReadFileLimit :: "makeBytesFn \<Rightarrow> FS \<Rightarrow> bytes \<Rightarrow> int64 \<Rightarrow> (cachePtr, bytes) eff" where
  "ReadFileLimit mk fs path maxLen =
     bindM (resolve fs path True) (\<lambda>i.
     if \<not> isRegular i then throwM (Wrapped ErrNotRegular) else readFileLimit mk fs i maxLen)"

definition ReadFile :: "makeBytesFn \<Rightarrow> FS \<Rightarrow> bytes \<Rightarrow> (cachePtr, bytes) eff" where
  "ReadFile mk fs path = ReadFileLimit mk fs path DefaultMaxReadFile"

text \<open>
  \<open>newDirEntry\<close> and \<open>newStat\<close> stand for the constructors of the interface package
  outside the repository.
\<close>

definition ListDir :: "(u64 \<Rightarrow> bytes \<Rightarrow> byte \<Rightarrow> 'd) \<Rightarrow> FS \<Rightarrow> bytes \<Rightarrow> (cachePtr, 'd list) eff" where
  "ListDir newDirEntry fs path =
     bindM (resolve fs path True) (\<lambda>i.
     if \<not> isDir i then throwM (Wrapped ErrNotDirectory)
     else bindM (readDir fs i) (\<lambda>entries.
       retM (map (\<lambda>e. newDirEntry (ucast (de_Number e)) (de_Name e) (ucast (de_Type e))) entries)))"

definition Stat :: "(u16 \<Rightarrow> u64 \<Rightarrow> u64 \<Rightarrow> 'st) \<Rightarrow> FS \<Rightarrow> bytes \<Rightarrow> (cachePtr, 'st) eff" where
  "Stat newStat fs path =
     bindM (resolve fs path True) (\<lambda>i. retM (newStat (in_Mode i) (in_Size i) (ucast (in_Number i))))"

definition Xattrs :: "FS \<Rightarrow> bytes \<Rightarrow> (cachePtr, (bytes, bytes) gomap option) eff" where
  "Xattrs fs path = bindM (resolve fs path True) (\<lambda>i. inodeXattrs fs i)"

definition ReadLink :: "FS \<Rightarrow> bytes \<Rightarrow> (cachePtr, bytes) eff" where
  "ReadLink fs path =
     bindM (resolve fs path False) (\<lambda>i.
     if \<not> isSymlink i then throwM (Wrapped ErrNotSymlink) else retM (in_symlinkTarget i))"

text \<open>\<^verbatim>\<open>(*FS).OpenFile\<close> of \<^verbatim>\<open>openfile.go\<close>.\<close>

definition fs_OpenFile :: "FS \<Rightarrow> bytes \<Rightarrow> (cachePtr, squashfsFile) eff" where
  "fs_OpenFile fs path =
     bindM (resolve fs path True) (\<lambda>i.
     if \<not> isRegular i then throwM (Wrapped ErrNotRegular) else liftM (newFile fs i))"

text \<open>The mutating methods, which all refuse.\<close>

datatype mutation =
    WriteFile bytes bytes nat
  | MkDir bytes nat
  | DeleteFile bytes
  | DeleteDir bytes
  | Rename bytes bytes

definition mutate :: "FS \<Rightarrow> mutation \<Rightarrow> (cachePtr, unit) eff" where
  "mutate fs m =
     (case m of
        WriteFile path data perm \<Rightarrow> throwM ErrReadOnly
      | MkDir path perm \<Rightarrow> throwM ErrReadOnly
      | DeleteFile path \<Rightarrow> throwM ErrReadOnly
      | DeleteDir path \<Rightarrow> throwM ErrReadOnly
      | Rename p q \<Rightarrow> throwM ErrReadOnly)"


section \<open>Sharing one cache between calls\<close>

text \<open>
  A server answers requests over a state that only caches. \<open>inv\<close> is what the
  cached content satisfies, \<open>nocache\<close> the state without a cache, \<open>ok\<close> the
  requests the server is consistent for. Whatever requests were served before,
  an answer is the one given without a cache.
\<close>

locale cached_server =
  fixes inv :: "'s \<Rightarrow> bool" and nocache :: 's
    and serve :: "'q \<Rightarrow> ('s, 'r) eff" and ok :: "'q \<Rightarrow> bool"
  assumes serve_transparent: "ok q \<Longrightarrow> transparent inv nocache (serve q)"
begin

lemma serve_invisible: "ok q \<Longrightarrow> inv s \<Longrightarrow> fst (serve q s) = fst (serve q nocache)"
  using transparentD(2) [OF serve_transparent] by blast

lemma serve_inv: "ok q \<Longrightarrow> inv s \<Longrightarrow> inv (snd (serve q s))"
  using transparentD(3) [OF serve_transparent] by blast

lemma history_inv: "\<lbrakk>list_all ok qs; inv s\<rbrakk> \<Longrightarrow> inv (fold (\<lambda>q s. snd (serve q s)) qs s)"
  by (induction qs arbitrary: s) (auto intro: serve_inv)

lemma history_invisible:
  "\<lbrakk>list_all ok qs; ok q; inv s\<rbrakk>
    \<Longrightarrow> fst (serve q (fold (\<lambda>q s. snd (serve q s)) qs s)) = fst (serve q nocache)"
  using serve_invisible history_inv by blast

end

text \<open>The calls a client makes, and their results.\<close>

datatype request =
    ReqReadFileLimit bytes int64
  | ReqListDir bytes
  | ReqStat bytes
  | ReqXattrs bytes
  | ReqReadLink bytes
  | ReqMutate mutation

datatype reply =
    RepBytes bytes
  | RepEntries "(u64 \<times> bytes \<times> byte) list"
  | RepStat "u16 \<times> u64 \<times> u64"
  | RepXattrs "(bytes, bytes) gomap option"
  | RepUnit

definition mapM :: "('a \<Rightarrow> 'b) \<Rightarrow> ('s, 'a) eff \<Rightarrow> ('s, 'b) eff" where
  "mapM f m = bindM m (\<lambda>a. retM (f a))"

definition serve :: "makeBytesFn \<Rightarrow> FS \<Rightarrow> request \<Rightarrow> (cachePtr, reply) eff" where
  "serve mk fs q =
     (case q of
        ReqReadFileLimit path maxLen \<Rightarrow> mapM RepBytes (ReadFileLimit mk fs path maxLen)
      | ReqListDir path \<Rightarrow> mapM RepEntries (ListDir (\<lambda>n name t. (n, name, t)) fs path)
      | ReqStat path \<Rightarrow> mapM RepStat (Stat (\<lambda>m s n. (m, s, n)) fs path)
      | ReqXattrs path \<Rightarrow> mapM RepXattrs (Xattrs fs path)
      | ReqReadLink path \<Rightarrow> mapM RepBytes (ReadLink fs path)
      | ReqMutate m \<Rightarrow> mapM (\<lambda>_. RepUnit) (mutate fs m))"

text \<open>
  A request is consistent when the file it reads agrees with the one stored
  length per offset that \<open>w\<close> names; only file contents go through the data
  cache.
\<close>

definition path_sized :: "(int64 \<Rightarrow> int64) \<Rightarrow> FS \<Rightarrow> bytes \<Rightarrow> bool" where
  "path_sized w fs path =
     (case fst (resolve fs path True None) of Inl e \<Rightarrow> True | Inr i \<Rightarrow> isRegular i \<longrightarrow> file_sized w fs i)"

definition request_ok :: "(int64 \<Rightarrow> int64) \<Rightarrow> FS \<Rightarrow> request \<Rightarrow> bool" where
  "request_ok w fs q = (case q of ReqReadFileLimit path maxLen \<Rightarrow> path_sized w fs path | _ \<Rightarrow> True)"

lemma ReadFileLimit_transparent:
  assumes "path_sized w fs path"
  shows "transparent (coherent fs (data_coherent fs w)) None (ReadFileLimit mk fs path maxLen)"
  unfolding ReadFileLimit_def
  by (intro transparent_bindM_result resolve_transparent transparent_if transparent_throwM
      readFileLimit_transparent) (use assms in \<open>simp add: path_sized_def\<close>)

lemma ListDir_transparent [transparent_intros]:
  "transparent (coherent fs dc) None (ListDir newDirEntry fs path)"
  unfolding ListDir_def by (intro transparent_intros)

lemma Stat_transparent [transparent_intros]: "transparent (coherent fs dc) None (Stat newStat fs path)"
  unfolding Stat_def by (intro transparent_intros)

lemma Xattrs_transparent [transparent_intros]: "transparent (coherent fs dc) None (Xattrs fs path)"
  unfolding Xattrs_def by (intro transparent_intros)

lemma ReadLink_transparent [transparent_intros]: "transparent (coherent fs dc) None (ReadLink fs path)"
  unfolding ReadLink_def by (intro transparent_intros)

lemma mutate_eq: "mutate fs m = throwM ErrReadOnly"
  by (simp add: mutate_def split: mutation.split)

interpretation fsServer:
  cached_server "coherent fs (data_coherent fs w)" None "serve mk fs" "request_ok w fs"
  for fs w mk
proof unfold_locales
  fix q assume ok: "request_ok w fs q"
  show "transparent (coherent fs (data_coherent fs w)) None (serve mk fs q)"
    using ok
    by (cases q) (auto simp: serve_def mapM_def request_ok_def mutate_eq
        intro!: transparent_bindM transparent_retM transparent_throwM ReadFileLimit_transparent
          ListDir_transparent Stat_transparent Xattrs_transparent ReadLink_transparent)
qed


section \<open>What an opened file system satisfies\<close>

lemma Open_Inr:
  "Open libs rs closer sz = Inr (fs, c) \<longleftrightarrow>
     (\<exists>sb d. readSuperblock rs = Inr sb \<and> newDecompressor libs (sb_Compression sb) = Inr d \<and>
        readCompressorOptions rs sb = Inr () \<and> c = Some newBlockCache \<and>
        fs = \<lparr>fs_rs = rs, fs_size = sz, fs_sb = sb, fs_d = d, fs_closer = closer\<rparr>)"
  by (auto simp: Open_def bindE_eq_Inr)

lemma Open_sb_ok: "Open libs rs closer sz = Inr (fs, c) \<Longrightarrow> sb_ok (fs_sb fs)"
  by (auto simp: Open_Inr readSuperblock_iff)

end
