(* ===== verification/ImageWriter.thy ===== *)
theory ImageWriter
  imports DataBlocks Dir "HOL-Library.List_Lexorder"
begin

text \<open>
  \<^verbatim>\<open>write.go\<close>: building an image from a tree. The writer struct is the record
  \<open>imageWriter\<close>, threaded through the operations; the fields a node gets while
  it is emitted are returned in an updated node. Buffers that only grow
  (\<^verbatim>\<open>bytes.Buffer\<close>) are byte lists.
\<close>

definition defaultBlockSize :: u32 where "defaultBlockSize = 131072"

definition flagUncompressedInodes :: u16 where "flagUncompressedInodes = 0x0001"
definition flagUncompressedData :: u16 where "flagUncompressedData = 0x0002"
definition flagNoFragments :: u16 where "flagNoFragments = 0x0010"
definition flagNoXattrs :: u16 where "flagNoXattrs = 0x0200"
definition flagCompressorOptions :: u16 where "flagCompressorOptions = 0x0400"

definition lz4OptionsVersion :: u32 where "lz4OptionsVersion = 1"
definition lz4OptionsFlagHC :: u32 where "lz4OptionsFlagHC = 1"

record BuildOptions =
  bo_Uncompressed :: bool
  bo_Compressor :: Compressor
  bo_NoFragments :: bool

datatype node = Node
  (nd_name: bytes) (nd_mode: u16) (nd_uid: u32) (nd_gid: u32) (nd_target: bytes) (nd_data: bytes)
  (nd_children: "node list") (nd_inodeRef: u64) (nd_inodeNum: u32)


section \<open>Scanning a host directory\<close>

text \<open>
  The host side of \<^verbatim>\<open>scanDir\<close> and \<^verbatim>\<open>scanEntry\<close>: what \<^verbatim>\<open>os.Lstat\<close> reports of a
  path (an error, or a kind with its permission bits), and what \<^verbatim>\<open>os.ReadDir\<close>,
  \<^verbatim>\<open>os.Readlink\<close> and \<^verbatim>\<open>os.ReadFile\<close> then return. A directory carries the error
  its listing fails with, if any.
\<close>

datatype hostNode =
    HostMissing error
  | HostDir u16 "error option" "(bytes \<times> hostNode) list"
  | HostSymlink "error + bytes"
  | HostRegular u16 "error + bytes"
  | HostOther

fun scanEntry :: "hostNode \<Rightarrow> bytes \<Rightarrow> error + node option"
  and scanEntries :: "(bytes \<times> hostNode) list \<Rightarrow> error + node list" where
  "scanEntry (HostMissing e) name = Inl e"
| "scanEntry (HostDir perm err entries) name =
     (case err of
        Some e \<Rightarrow> Inl e
      | None \<Rightarrow> bindE (scanEntries entries) (\<lambda>cs.
          Inr (Some (Node name (sIFDIR OR perm) 0 0 [] [] cs 0 0))))"
| "scanEntry (HostSymlink r) name =
     bindE r (\<lambda>target. Inr (Some (Node name (sIFLNK OR 0x1FF) 0 0 target [] [] 0 0)))"
| "scanEntry (HostRegular perm r) name =
     bindE r (\<lambda>data. Inr (Some (Node name (sIFREG OR perm) 0 0 [] data [] 0 0)))"
| "scanEntry HostOther name = Inr None"
| "scanEntries [] = Inr []"
| "scanEntries ((name, h) # rest) =
     bindE (scanEntry h name) (\<lambda>c.
     bindE (scanEntries rest) (\<lambda>cs.
     Inr (case c of None \<Rightarrow> cs | Some n \<Rightarrow> n # cs)))"

text \<open>
  \<^verbatim>\<open>scanDir\<close>: the outcome of \<^verbatim>\<open>os.Lstat\<close> (the permission bits) and of
  \<^verbatim>\<open>os.ReadDir\<close> on its argument, which unlike for entries may be a link.
\<close>

definition scanDir :: "error + u16 \<Rightarrow> error + (bytes \<times> hostNode) list \<Rightarrow> error + node" where
  "scanDir lstat readdir =
     bindE lstat (\<lambda>perm.
     bindE readdir (\<lambda>entries.
     bindE (scanEntries entries) (\<lambda>cs. Inr (Node [] (sIFDIR OR perm) 0 0 [] [] cs 0 0))))"


section \<open>State\<close>

record metaWriter =
  mw_out :: bytes
  mw_buf :: bytes

record imageWriter =
  iw_opts :: BuildOptions
  iw_comp :: "compressor option"
  iw_data :: bytes
  iw_inodes :: metaWriter
  iw_dirs :: metaWriter
  iw_inodeNum :: u32
  iw_blockSize :: u32
  iw_fragBuf :: bytes
  iw_fragEntries :: "fragmentEntry list"

definition iw_compress :: "imageWriter \<Rightarrow> bytes \<Rightarrow> bool \<Rightarrow> bytes \<times> bool" where
  "iw_compress iw payload forceRaw =
     (if forceRaw then (payload, False)
      else case iw_comp iw of
        None \<Rightarrow> (payload, False)
      | Some cmp \<Rightarrow>
          if length payload = 0 then (payload, False)
          else (case comp_compress cmp payload of
            Inl e \<Rightarrow> (payload, False)
          | Inr out \<Rightarrow> if length out \<ge> length payload then (payload, False) else (out, True)))"

text \<open>
  The header and payload of one metadata block, as \<^verbatim>\<open>metaWriter.emit\<close> and
  \<^verbatim>\<open>writeMetaBlock\<close> write it.
\<close>

definition metaBlockBytes :: "imageWriter \<Rightarrow> bytes \<Rightarrow> bytes" where
  "metaBlockBytes iw payload =
     (case iw_compress iw payload (bo_Uncompressed (iw_opts iw)) of (stored, compressed) \<Rightarrow>
      let hdr = of_nat (length stored) in
      PutUint16 (if compressed then hdr else hdr OR metaHeaderCompressedBit) @ stored)"

definition mw_ref :: "metaWriter \<Rightarrow> u64" where
  "mw_ref m = push_bit 16 (of_nat (length (mw_out m))) OR of_nat (length (mw_buf m))"

definition mw_emit :: "imageWriter \<Rightarrow> metaWriter \<Rightarrow> bytes \<Rightarrow> metaWriter" where
  "mw_emit iw m payload = m\<lparr>mw_out := mw_out m @ metaBlockBytes iw payload\<rparr>"

function mw_drain :: "imageWriter \<Rightarrow> metaWriter \<Rightarrow> metaWriter" where
  "mw_drain iw m =
     (if length (mw_buf m) \<ge> metaBlockMax then
        mw_drain iw ((mw_emit iw m (take metaBlockMax (mw_buf m)))\<lparr>mw_buf := drop metaBlockMax (mw_buf m)\<rparr>)
      else m)"
  by pat_completeness auto
termination
  by (relation "measure (\<lambda>(iw, m). length (mw_buf m))") (auto simp: metaBlockMax_def)

declare mw_drain.simps [simp del]

definition mw_write :: "imageWriter \<Rightarrow> metaWriter \<Rightarrow> bytes \<Rightarrow> metaWriter" where
  "mw_write iw m p = mw_drain iw (m\<lparr>mw_buf := mw_buf m @ p\<rparr>)"

definition mw_finish :: "imageWriter \<Rightarrow> metaWriter \<Rightarrow> metaWriter" where
  "mw_finish iw m =
     (if length (mw_buf m) > 0 then (mw_emit iw m (mw_buf m))\<lparr>mw_buf := []\<rparr> else m)"

definition writeMetaBlock :: "imageWriter \<Rightarrow> bytes \<Rightarrow> imageWriter" where
  "writeMetaBlock iw payload = iw\<lparr>iw_data := iw_data iw @ metaBlockBytes iw payload\<rparr>"

definition writeDataBlock :: "imageWriter \<Rightarrow> bytes \<Rightarrow> u32 \<times> imageWriter" where
  "writeDataBlock iw block =
     (case iw_compress iw block (bo_Uncompressed (iw_opts iw)) of (stored, compressed) \<Rightarrow>
      let sz = of_nat (length stored) in
      (if compressed then sz else sz OR dataUncompressedBit, iw\<lparr>iw_data := iw_data iw @ stored\<rparr>))"


section \<open>Fragments\<close>

definition flushFragment :: "imageWriter \<Rightarrow> imageWriter" where
  "flushFragment iw =
     (if length (iw_fragBuf iw) = 0 then iw
      else
        (let start = of_nat (length (iw_data iw)) in
         case writeDataBlock iw (iw_fragBuf iw) of (sz, iw1) \<Rightarrow>
         iw1\<lparr>iw_fragEntries := iw_fragEntries iw1 @ [\<lparr>fe_start = start, fe_sizeWord = sz\<rparr>],
             iw_fragBuf := []\<rparr>))"

definition addToFragment :: "imageWriter \<Rightarrow> bytes \<Rightarrow> u32 \<times> u32 \<times> imageWriter" where
  "addToFragment iw tl_bytes =
     (let iw1 = (if length (iw_fragBuf iw) + length tl_bytes > unat (iw_blockSize iw)
                 then flushFragment iw else iw) in
      (of_nat (length (iw_fragEntries iw1)), of_nat (length (iw_fragBuf iw1)),
       iw1\<lparr>iw_fragBuf := iw_fragBuf iw1 @ tl_bytes\<rparr>))"

definition encodeFragEntry :: "fragmentEntry \<Rightarrow> bytes" where
  "encodeFragEntry fe = PutUint64 (fe_start fe) @ PutUint32 (fe_sizeWord fe) @ replicate 4 0"

text \<open>The loop of \<^verbatim>\<open>writeFragmentTable\<close> over groups of entries: the block offsets.\<close>

function writeFragBlocks :: "imageWriter \<Rightarrow> fragmentEntry list \<Rightarrow> u64 list \<times> imageWriter" where
  "writeFragBlocks iw fes =
     (if fes = [] then ([], iw)
      else
        (let start = of_nat (length (iw_data iw));
             iw1 = writeMetaBlock iw (concat (map encodeFragEntry (take fragPerMetaBlock fes))) in
         case writeFragBlocks iw1 (drop fragPerMetaBlock fes) of (offs, iw2) \<Rightarrow> (start # offs, iw2)))"
  by pat_completeness auto
termination
  by (relation "measure (\<lambda>(iw, fes). length fes)")
    (auto simp: fragPerMetaBlock_def metaBlockMax_def fragEntrySize_def)

declare writeFragBlocks.simps [simp del]

definition writeFragmentTable :: "imageWriter \<Rightarrow> u64 \<times> imageWriter" where
  "writeFragmentTable iw =
     (case writeFragBlocks iw (iw_fragEntries iw) of (offs, iw1) \<Rightarrow>
      (of_nat (length (iw_data iw1)), iw1\<lparr>iw_data := iw_data iw1 @ concat (map PutUint64 offs)\<rparr>))"


section \<open>Inodes\<close>

definition nextInode :: "imageWriter \<Rightarrow> u32 \<times> imageWriter" where
  "nextInode iw = (iw_inodeNum iw + 1, iw\<lparr>iw_inodeNum := iw_inodeNum iw + 1\<rparr>)"

text \<open>
  The loop over the full blocks of a file. A block size of zero, with which it
  would not end, never occurs: \<^verbatim>\<open>buildImage\<close> sets \<open>defaultBlockSize\<close>.
\<close>

function writeBlocks :: "imageWriter \<Rightarrow> bytes \<Rightarrow> u32 list \<times> imageWriter" where
  "writeBlocks iw d =
     (if d = [] \<or> iw_blockSize iw = 0 then ([], iw)
      else
        (case writeDataBlock iw (take (unat (iw_blockSize iw)) d) of (sz, iw1) \<Rightarrow>
         case writeBlocks iw1 (drop (unat (iw_blockSize iw)) d) of (szs, iw2) \<Rightarrow> (sz # szs, iw2)))"
  by pat_completeness auto
termination
  by (relation "measure (\<lambda>(iw, d). length d)") (auto simp: unat_gt_0)

declare writeBlocks.simps [simp del]

definition fileInodeBytes :: "u16 \<Rightarrow> u32 \<Rightarrow> u32 \<Rightarrow> u32 \<Rightarrow> u32 \<Rightarrow> u32 \<Rightarrow> u32 list \<Rightarrow> bytes" where
  "fileInodeBytes mode num blocksStart fragIdx fragOffset sz blockSizes =
     PutUint16 inodeBasicFile @ PutUint16 (mode AND 0xFFF) @ PutUint16 0 @ PutUint16 0 @
     PutUint32 0 @ PutUint32 num @
     PutUint32 blocksStart @ PutUint32 fragIdx @ PutUint32 fragOffset @ PutUint32 sz @
     concat (map PutUint32 blockSizes)"

definition emitFileInode :: "imageWriter \<Rightarrow> node \<Rightarrow> error + node \<times> imageWriter" where
  "emitFileInode iw n =
     (let useFrag = \<not> bo_NoFragments (iw_opts iw); bs = unat (iw_blockSize iw);
          fullLen = (if useFrag then length (nd_data n) div bs * bs else length (nd_data n));
          blocksStart = of_nat (length (iw_data iw)) :: u64 in
      case writeBlocks iw (take fullLen (nd_data n)) of (blockSizes, iw1) \<Rightarrow>
      case (if useFrag \<and> fullLen < length (nd_data n)
            then addToFragment iw1 (drop fullLen (nd_data n))
            else (invalidFrag, 0, iw1)) of (fragIdx, fragOffset, iw2) \<Rightarrow>
      case nextInode iw2 of (num, iw3) \<Rightarrow>
      let ref = mw_ref (iw_inodes iw3);
          body = fileInodeBytes (nd_mode n) num (ucast blocksStart) fragIdx fragOffset
                   (of_nat (length (nd_data n))) blockSizes in
      Inr (Node (nd_name n) (nd_mode n) (nd_uid n) (nd_gid n) (nd_target n) (nd_data n) (nd_children n) ref num,
       iw3\<lparr>iw_inodes := mw_write iw3 (iw_inodes iw3) body\<rparr>))"

definition symlinkInodeBytes :: "u16 \<Rightarrow> u32 \<Rightarrow> bytes \<Rightarrow> bytes" where
  "symlinkInodeBytes mode num target =
     PutUint16 inodeBasicSymlink @ PutUint16 (mode AND 0xFFF) @ replicate 8 0 @ PutUint32 num @
     PutUint32 1 @ PutUint32 (of_nat (length target)) @ target"

definition emitSymlinkInode :: "imageWriter \<Rightarrow> node \<Rightarrow> node \<times> imageWriter" where
  "emitSymlinkInode iw n =
     (case nextInode iw of (num, iw1) \<Rightarrow>
      let ref = mw_ref (iw_inodes iw1) in
      (Node (nd_name n) (nd_mode n) (nd_uid n) (nd_gid n) (nd_target n) (nd_data n) (nd_children n) ref num,
       iw1\<lparr>iw_inodes := mw_write iw1 (iw_inodes iw1) (symlinkInodeBytes (nd_mode n) num (nd_target n))\<rparr>))"

definition dirEntryType :: "u16 \<Rightarrow> u16" where
  "dirEntryType mode =
     (if mode AND 0xF000 = sIFDIR then inodeBasicDir
      else if mode AND 0xF000 = sIFLNK then inodeBasicSymlink
      else inodeBasicFile)"

text \<open>The metadata block an emitted node's inode starts in, at the width of a header.\<close>

definition nodeBlock :: "node \<Rightarrow> u32" where
  "nodeBlock c = ucast (drop_bit 16 (nd_inodeRef c))"

definition dirEntryBytes :: "u32 \<Rightarrow> node \<Rightarrow> bytes" where
  "dirEntryBytes baseInode c =
     PutUint16 (ucast (nd_inodeRef c AND 0xFFFF)) @
     PutUint16 (word_of_int (uint (nd_inodeNum c) - uint baseInode)) @
     PutUint16 (dirEntryType (nd_mode c)) @
     PutUint16 (word_of_int (int (length (nd_name c)) - 1)) @ nd_name c"

definition dirGroupBytes :: "node list \<Rightarrow> bytes" where
  "dirGroupBytes cs =
     PutUint32 (of_nat (length cs) - 1) @ PutUint32 (nodeBlock (hd cs)) @
     PutUint32 (nd_inodeNum (hd cs)) @
     concat (map (dirEntryBytes (nd_inodeNum (hd cs))) cs)"

text \<open>The entries that share a header: at most 256, in one inode-table block.\<close>

definition dirGroup :: "node list \<Rightarrow> node list" where
  "dirGroup cs = takeWhile (\<lambda>c. nodeBlock c = nodeBlock (hd cs)) (take 256 cs)"

lemma dirGroup_nonempty: "cs \<noteq> [] \<Longrightarrow> dirGroup cs \<noteq> []"
  by (cases cs) (simp_all add: dirGroup_def)

function buildDirListing :: "node list \<Rightarrow> bytes" where
  "buildDirListing cs =
     (if cs = [] then []
      else dirGroupBytes (dirGroup cs) @ buildDirListing (drop (length (dirGroup cs)) cs))"
  by pat_completeness auto
termination
  by (relation "measure length") (auto simp: dirGroup_nonempty)

declare buildDirListing.simps [simp del]

definition dirInodeBytes :: "u16 \<Rightarrow> u32 \<Rightarrow> u32 \<Rightarrow> nat \<Rightarrow> nat \<Rightarrow> u16 \<Rightarrow> bytes" where
  "dirInodeBytes mode num dirBlock nChildren listingLen dirOffset =
     PutUint16 inodeBasicDir @ PutUint16 (mode AND 0xFFF) @ replicate 8 0 @ PutUint32 num @
     PutUint32 dirBlock @ PutUint32 (of_nat nChildren + 2) @ PutUint16 (of_nat (listingLen + 3)) @
     PutUint16 dirOffset @ PutUint32 1"

text \<open>
  Children are sorted by name, bytewise. \<^verbatim>\<open>sort.Slice\<close> is not stable; names in one
  directory are distinct, so this does not matter.
\<close>

definition emitDirInode :: "imageWriter \<Rightarrow> node \<Rightarrow> error + node \<times> imageWriter" where
  "emitDirInode iw n =
     (let cs = sort_key nd_name (nd_children n);
          dirStart = mw_ref (iw_dirs iw);
          dirBlock = ucast (drop_bit 16 dirStart) :: u32; dirOffset = ucast (dirStart AND 0xFFFF) :: u16;
          listing = buildDirListing cs;
          iw1 = iw\<lparr>iw_dirs := mw_write iw (iw_dirs iw) listing\<rparr> in
      case nextInode iw1 of (num, iw2) \<Rightarrow>
      let ref = mw_ref (iw_inodes iw2) in
      Inr (Node (nd_name n) (nd_mode n) (nd_uid n) (nd_gid n) (nd_target n) (nd_data n) cs ref num,
       iw2\<lparr>iw_inodes := mw_write iw2 (iw_inodes iw2)
             (dirInodeBytes (nd_mode n) num dirBlock (length cs) (length listing) dirOffset)\<rparr>))"

text \<open>
  Post-order emission, which ends at the first error. Only the children, name, mode,
  target and data of the argument are read.
\<close>

fun emitNode :: "imageWriter \<Rightarrow> node \<Rightarrow> error + node \<times> imageWriter"
  and emitNodes :: "imageWriter \<Rightarrow> node list \<Rightarrow> error + node list \<times> imageWriter" where
  "emitNode iw (Node name mode uid gid target data children ref num) =
     (if mode AND 0xF000 = sIFDIR then
        (case emitNodes iw children of
           Inl e \<Rightarrow> Inl e
         | Inr (cs, iw1) \<Rightarrow> emitDirInode iw1 (Node name mode uid gid target data cs ref num))
      else if mode AND 0xF000 = sIFLNK
        then Inr (emitSymlinkInode iw (Node name mode uid gid target data children ref num))
      else emitFileInode iw (Node name mode uid gid target data children ref num))"
| "emitNodes iw [] = Inr ([], iw)"
| "emitNodes iw (c # cs) =
     (case emitNode iw c of
        Inl e \<Rightarrow> Inl e
      | Inr (c', iw1) \<Rightarrow>
          (case emitNodes iw1 cs of
             Inl e \<Rightarrow> Inl e
           | Inr (cs', iw2) \<Rightarrow> Inr (c' # cs', iw2)))"

text \<open>The emission of a directory, and of several nodes, in stages.\<close>

lemma emitNode_dirE:
  assumes "emitNode iw (Node name mode uid gid target content children ref num) = Inr (n', iw')" "mode AND 0xF000 = sIFDIR"
  obtains cs iw1 where "emitNodes iw children = Inr (cs, iw1)"
    "emitDirInode iw1 (Node name mode uid gid target content cs ref num) = Inr (n', iw')"
  using assms by (auto split: sum.splits)

lemma emitNodes_ConsE:
  assumes "emitNodes iw (c # cs) = Inr (ns', iw')"
  obtains c' iw1 cs' where "emitNode iw c = Inr (c', iw1)" "emitNodes iw1 cs = Inr (cs', iw')" "ns' = c' # cs'"
  using assms by (auto split: sum.splits)

text \<open>No step of the emission reports an error, so every tree is emitted.\<close>

lemma emit_total:
  "\<exists>n' iw'. emitNode iw n = Inr (n', iw')"
  "\<exists>ns' iw'. emitNodes iw ns = Inr (ns', iw')"
proof (induction iw n and iw ns rule: emitNode_emitNodes.induct)
  case (1 iw name mode uid gid target content children ref num)
  then show ?case
    by (auto simp: emitDirInode_def emitFileInode_def Let_def split: prod.split sum.split)
next
  case (3 iw c cs)
  then show ?case by (fastforce split: sum.splits prod.splits)
qed simp


section \<open>The image\<close>

definition hasCompressorOptions :: "imageWriter \<Rightarrow> bool" where
  "hasCompressorOptions iw = (case iw_comp iw of None \<Rightarrow> False | Some cmp \<Rightarrow> comp_id cmp = compLZ4)"

definition writeCompressorOptions :: "imageWriter \<Rightarrow> imageWriter" where
  "writeCompressorOptions iw =
     (if \<not> hasCompressorOptions iw then iw
      else
        (let payload = PutUint32 lz4OptionsVersion @ PutUint32 lz4OptionsFlagHC in
         iw\<lparr>iw_data := iw_data iw @ PutUint16 (of_nat (length payload) OR metaHeaderCompressedBit) @ payload\<rparr>))"

definition bytesUsedNoTable :: u64 where "bytesUsedNoTable = NOT 0"

function blockLogLoop :: "u32 \<Rightarrow> u16 \<Rightarrow> u16" where
  "blockLogLoop v l = (if v > 1 then blockLogLoop (drop_bit 1 v) (l + 1) else l)"
  by pat_completeness auto
termination
  by (relation "measure (\<lambda>(v, l). unat v)")
    (auto simp: drop_bit_eq_div unat_div word_less_nat_alt)

declare blockLogLoop.simps [simp del]

definition blockLog :: "u32 \<Rightarrow> u16" where
  "blockLog bs = blockLogLoop bs 0"

definition superblockFlags :: "imageWriter \<Rightarrow> u32 \<Rightarrow> u16" where
  "superblockFlags iw fragCount =
     flagNoXattrs OR
     (if fragCount = 0 then flagNoFragments else 0) OR
     (if bo_Uncompressed (iw_opts iw) then flagUncompressedInodes OR flagUncompressedData else 0) OR
     (if hasCompressorOptions iw then flagCompressorOptions else 0)"

definition superblock ::
  "imageWriter \<Rightarrow> u64 \<Rightarrow> u32 \<Rightarrow> u64 \<Rightarrow> u64 \<Rightarrow> u64 \<Rightarrow> u64 \<Rightarrow> u32 \<Rightarrow> u64 \<Rightarrow> bytes" where
  "superblock iw rootRef inodeCount inodeStart dirStart idStart fragStart fragCount bytesUsed =
     (let compID = (case iw_comp iw of None \<Rightarrow> compGZIP | Some cmp \<Rightarrow> comp_id cmp) in
      PutUint32 Magic @ PutUint32 inodeCount @ PutUint32 0 @ PutUint32 (iw_blockSize iw) @
      PutUint32 fragCount @ PutUint16 compID @ PutUint16 (blockLog (iw_blockSize iw)) @
      PutUint16 (superblockFlags iw fragCount) @ PutUint16 1 @ PutUint16 4 @ PutUint16 0 @
      PutUint64 rootRef @ PutUint64 bytesUsed @ PutUint64 idStart @ PutUint64 0xFFFFFFFFFFFFFFFF @
      PutUint64 inodeStart @ PutUint64 dirStart @ PutUint64 fragStart @ PutUint64 0xFFFFFFFFFFFFFFFF)"

definition newImageWriter :: "BuildOptions \<Rightarrow> compressor option \<Rightarrow> imageWriter" where
  "newImageWriter opts cmp =
     \<lparr> iw_opts = opts, iw_comp = cmp, iw_data = [],
       iw_inodes = \<lparr>mw_out = [], mw_buf = []\<rparr>, iw_dirs = \<lparr>mw_out = [], mw_buf = []\<rparr>,
       iw_inodeNum = 0, iw_blockSize = defaultBlockSize, iw_fragBuf = [], iw_fragEntries = [] \<rparr>"

text \<open>Everything \<^verbatim>\<open>buildImage\<close> does after the tree has been emitted.\<close>

definition finishImage :: "imageWriter \<Rightarrow> u64 \<Rightarrow> bytes" where
  "finishImage iw rootRef =
     (let iw1 = flushFragment iw;
          inodeCount = iw_inodeNum iw1;
          inodes = mw_finish iw1 (iw_inodes iw1);
          dirs = mw_finish iw1 (iw_dirs iw1);
          inodeTableStart = of_nat (length (iw_data iw1));
          iw2 = iw1\<lparr>iw_data := iw_data iw1 @ mw_out inodes\<rparr>;
          dirTableStart = of_nat (length (iw_data iw2));
          iw3 = iw2\<lparr>iw_data := iw_data iw2 @ mw_out dirs\<rparr>;
          (fragTableStart, iw4) =
            (if length (iw_fragEntries iw3) > 0 then writeFragmentTable iw3 else (bytesUsedNoTable, iw3));
          idValuesAt = of_nat (length (iw_data iw4));
          iw5 = writeMetaBlock iw4 (replicate 4 0);
          idTableStart = of_nat (length (iw_data iw5));
          iw6 = iw5\<lparr>iw_data := iw_data iw5 @ PutUint64 idValuesAt\<rparr>;
          bytesUsed = of_nat (length (iw_data iw6));
          sb = superblock iw6 rootRef inodeCount inodeTableStart dirTableStart idTableStart
                 fragTableStart (of_nat (length (iw_fragEntries iw6))) bytesUsed
      in sb @ drop superblockSize (iw_data iw6))"

definition buildImage :: "codecLibs \<Rightarrow> node \<Rightarrow> BuildOptions \<Rightarrow> error + bytes" where
  "buildImage libs root opts =
     bindE (if bo_Uncompressed opts then Inr None
            else bindE (newCompressor libs (bo_Compressor opts)) (\<lambda>c. Inr (Some c))) (\<lambda>cmp.
     let iw0 = newImageWriter opts cmp;
         iw1 = writeCompressorOptions (iw0\<lparr>iw_data := replicate superblockSize 0\<rparr>) in
     bindE (emitNode iw1 root) (\<lambda>(root', iw2). Inr (finishImage iw2 (nd_inodeRef root'))))"

text \<open>\<open>writeFile\<close> is \<^verbatim>\<open>os.WriteFile\<close> on the destination path.\<close>

definition BuildFromDir ::
  "codecLibs \<Rightarrow> (bytes \<Rightarrow> error + unit) \<Rightarrow> error + u16 \<Rightarrow> error + (bytes \<times> hostNode) list \<Rightarrow> BuildOptions
     \<Rightarrow> error + unit" where
  "BuildFromDir libs writeFile lstat readdir opts =
     bindE (scanDir lstat readdir) (\<lambda>root. bindE (buildImage libs root opts) writeFile)"

text \<open>The stages of a build that succeeds.\<close>

lemma buildImageE:
  assumes "buildImage libs root opts = Inr img"
  obtains cmp root' iw where
    "(if bo_Uncompressed opts then Inr None
      else bindE (newCompressor libs (bo_Compressor opts)) (\<lambda>c. Inr (Some c))) = Inr cmp"
    "emitNode (writeCompressorOptions ((newImageWriter opts cmp)\<lparr>iw_data := replicate superblockSize 0\<rparr>)) root = Inr (root', iw)"
    "img = finishImage iw (nd_inodeRef root')"
  using assms that unfolding buildImage_def Let_def bindE_eq_Inr by auto

end
