(* ===== verification/TreeView.thy ===== *)
theory TreeView
  imports FsApi ImageWriter
begin

text \<open>
  What the operations of an opened file system mean on the tree it was built
  from, and that an image whose inodes show a tree answers like the tree. The
  tree is the abstract specification: paths are walked over nodes, there are no
  inodes, blocks or caches in it.
\<close>

section \<open>The specification\<close>

abbreviation kind :: "node \<Rightarrow> u16" where
  "kind n \<equiv> nd_mode n AND 0xF000"

function treeResolve :: "node \<Rightarrow> node \<Rightarrow> bytes \<Rightarrow> bool \<Rightarrow> nat \<Rightarrow> error + node"
  and treeWalk :: "node \<Rightarrow> node \<Rightarrow> bytes list \<Rightarrow> bool \<Rightarrow> nat \<Rightarrow> error + node" where
  "treeResolve root start path followFinal hops =
     (if hops > 40 then Inl ErrTooManyLinks
      else treeWalk root start (splitPath path) followFinal hops)"
| "treeWalk root cur [] followFinal hops = Inr cur"
| "treeWalk root cur (name # rest) followFinal hops =
     (if kind cur \<noteq> sIFDIR then Inl (Wrapped ErrNotDirectory)
      else case find (\<lambda>c. nd_name c = name) (nd_children cur) of
        None \<Rightarrow> Inl (Wrapped ErrNotFound)
      | Some child \<Rightarrow>
          if kind child = sIFLNK \<and> (rest \<noteq> [] \<or> followFinal) then
            bindE (treeResolve root (if take 1 (nd_target child) = [slash] then root else cur)
                     (nd_target child) True (hops + 1)) (\<lambda>child'.
            treeWalk root child' rest followFinal hops)
          else treeWalk root child rest followFinal hops)"
  by pat_completeness auto
termination
  by (relation "measures
      [\<lambda>x. case x of Inl (r, st, p, f, hops) \<Rightarrow> 2 * (41 - hops)
                   | Inr (r, cur, parts, f, hops) \<Rightarrow> 2 * (41 - hops) - 1,
       \<lambda>x. case x of Inl _ \<Rightarrow> 0 | Inr _ \<Rightarrow> 1,
       \<lambda>x. case x of Inl _ \<Rightarrow> 0 | Inr (r, cur, parts, f, hops) \<Rightarrow> length parts]") auto

declare treeResolve.simps [simp del] treeWalk.simps [simp del]

definition tree_lookup :: "node \<Rightarrow> bytes \<Rightarrow> bool \<Rightarrow> error + node" where
  "tree_lookup root path followFinal = treeResolve root root path followFinal 0"

definition tree_ReadFileLimit :: "node \<Rightarrow> bytes \<Rightarrow> int64 \<Rightarrow> error + bytes" where
  "tree_ReadFileLimit root path maxLen =
     bindE (tree_lookup root path True) (\<lambda>n.
     if kind n \<noteq> sIFREG then Inl (Wrapped ErrNotRegular)
     else if 0 \<le>s maxLen \<and> maxLen < of_nat (length (nd_data n)) then Inl (Wrapped ErrTooLarge)
     else Inr (nd_data n))"

definition tree_ListDir :: "node \<Rightarrow> bytes \<Rightarrow> error + (bytes \<times> byte) list" where
  "tree_ListDir root path =
     bindE (tree_lookup root path True) (\<lambda>n.
     if kind n \<noteq> sIFDIR then Inl (Wrapped ErrNotDirectory)
     else Inr (map (\<lambda>c. (nd_name c, ucast (dirEntryType (nd_mode c)))) (sort_key nd_name (nd_children n))))"

text \<open>The size a node is reported with; a directory's is that of its encoded listing.\<close>

definition tree_Stat :: "node \<Rightarrow> bytes \<Rightarrow> error + u16 \<times> u64 option" where
  "tree_Stat root path =
     bindE (tree_lookup root path True) (\<lambda>n.
     Inr (nd_mode n, if kind n = sIFDIR then None
       else Some (of_nat (length (if kind n = sIFLNK then nd_target n else nd_data n)))))"

definition tree_ReadLink :: "node \<Rightarrow> bytes \<Rightarrow> error + bytes" where
  "tree_ReadLink root path =
     bindE (tree_lookup root path False) (\<lambda>n.
     if kind n \<noteq> sIFLNK then Inl (Wrapped ErrNotSymlink) else Inr (nd_target n))"


section \<open>Paths without links\<close>

lemma kinds_differ [simp]: "sIFREG \<noteq> sIFDIR" "sIFLNK \<noteq> sIFDIR" "sIFREG \<noteq> sIFLNK"
  "sIFDIR \<noteq> sIFREG" "sIFDIR \<noteq> sIFLNK" "sIFLNK \<noteq> sIFREG"
  by (simp_all add: mode_defs)

text \<open>The node a list of names leads to through directories alone.\<close>

fun descend :: "node \<Rightarrow> bytes list \<Rightarrow> node option" where
  "descend n [] = Some n"
| "descend n (name # rest) =
     (if kind n \<noteq> sIFDIR then None
      else case find (\<lambda>c. nd_name c = name) (nd_children n) of
        None \<Rightarrow> None
      | Some c \<Rightarrow> descend c rest)"

lemma descend_treeWalk:
  "\<lbrakk>descend n parts = Some m; kind m \<noteq> sIFLNK\<rbrakk> \<Longrightarrow> treeWalk root n parts ff hops = Inr m"
proof (induction n parts rule: descend.induct)
  case (2 n name rest)
  then obtain c where c: "kind n = sIFDIR" "find (\<lambda>c. nd_name c = name) (nd_children n) = Some c" "descend c rest = Some m"
    by (auto split: if_splits option.splits)
  have "kind c \<noteq> sIFLNK" using c(3) "2.prems"(2) by (cases rest) (auto split: if_splits)
  with c 2 show ?case by (simp add: treeWalk.simps)
qed (simp add: treeWalk.simps)

lemma descend_lookup:
  assumes "descend root parts = Some n" "kind n \<noteq> sIFLNK" "list_all component parts"
  shows "tree_lookup root (joinPath parts) ff = Inr n"
  using descend_treeWalk [OF assms(1,2)] splitPath_joinPath [of parts] assms(3)
  by (simp add: tree_lookup_def treeResolve.simps list_all_iff)


section \<open>Inodes that show a tree\<close>

text \<open>
  \<open>shown nb mk W fs n i\<close>: without a cache, the inode \<open>i\<close> behaves like the node \<open>n\<close>,
  and, for a directory, its entries lead to inodes that show its children. The
  blocks of a file have the stored lengths \<open>W\<close> names. With \<open>nb\<close> the nodes also carry the
  inodes' numbers.
\<close>

inductive shown :: "bool \<Rightarrow> makeBytesFn \<Rightarrow> (int64 \<Rightarrow> int64) \<Rightarrow> FS \<Rightarrow> node \<Rightarrow> inode \<Rightarrow> bool" for nb mk W fs where
  regular: "\<lbrakk>nb \<Longrightarrow> in_Number i = nd_inodeNum n; kind n = sIFREG; isRegular i; in_Mode i = nd_mode n; in_Size i = of_nat (length (nd_data n));
      file_sized W fs i;
      \<And>maxLen. readFileLimit mk fs i maxLen None =
        (if 0 \<le>s maxLen \<and> maxLen < of_nat (length (nd_data n)) then Inl (Wrapped ErrTooLarge) else Inr (nd_data n), None)\<rbrakk>
    \<Longrightarrow> shown nb mk W fs n i"
| link: "\<lbrakk>nb \<Longrightarrow> in_Number i = nd_inodeNum n; kind n = sIFLNK; isSymlink i; in_Mode i = nd_mode n; in_Size i = of_nat (length (nd_target n));
      in_symlinkTarget i = nd_target n\<rbrakk>
    \<Longrightarrow> shown nb mk W fs n i"
| directory: "\<lbrakk>nb \<Longrightarrow> in_Number i = nd_inodeNum n; kind n = sIFDIR; isDir i; in_Mode i = nd_mode n; distinct (map nd_name (nd_children n));
      readDir fs i None = (Inr es, None);
      list_all2 (\<lambda>e c. de_Name e = nd_name c \<and> de_Type e = dirEntryType (nd_mode c) \<and>
        (\<exists>j. readInode fs (de_InodeRef e) None = (Inr j, None) \<and> de_Number e = in_Number j \<and> shown nb mk W fs c j))
        es (sort_key nd_name (nd_children n))\<rbrakk>
    \<Longrightarrow> shown nb mk W fs n i"

lemma shown_kind:
  assumes "shown nb mk W fs n i"
  shows "isDir i \<longleftrightarrow> kind n = sIFDIR" "isSymlink i \<longleftrightarrow> kind n = sIFLNK" "isRegular i \<longleftrightarrow> kind n = sIFREG"
    "in_Mode i = nd_mode n"
  using assms
  by (cases; auto simp: inode_kind_defs inode_type_defs)+

lemma shown_number: "shown True mk W fs n i \<Longrightarrow> in_Number i = nd_inodeNum n"
  by (erule shown.cases) simp_all

lemma shown_linkD: "\<lbrakk>shown nb mk W fs n i; kind n = sIFLNK\<rbrakk> \<Longrightarrow> in_symlinkTarget i = nd_target n"
  by (erule shown.cases) auto

lemma find_sort_key:
  assumes "distinct (map f cs)"
  shows "find (\<lambda>c. f c = k) (sort_key f cs) = find (\<lambda>c. f c = k) cs"
proof -
  have one: "find (\<lambda>c. f c = k) xs = Some x \<longleftrightarrow> x \<in> set xs \<and> f x = k" if "distinct (map f xs)" for xs x
    using that by (induction xs) (auto simp: image_iff)
  have "distinct (map f (sort_key f cs))" using assms by (simp add: distinct_map)
  note 1 = one [OF this] and 2 = one [OF assms]
  have "find (\<lambda>c. f c = k) (sort_key f cs) = Some x \<longleftrightarrow> find (\<lambda>c. f c = k) cs = Some x" for x
    unfolding 1 2 by simp
  then show ?thesis by (metis option.exhaust)
qed

lemma sum_list_sort_key: "sum_list (map g (sort_key f xs)) = (sum_list (map g xs) :: nat)"
proof -
  have "sum_list (map g (insort_key f x ys)) = g x + sum_list (map g ys)" for x ys by (induction ys) simp_all
  then show ?thesis by (induction xs) simp_all
qed

text \<open>A directory's entry for a name, against the node's child of that name.\<close>

lemma find_list_all2:
  assumes "list_all2 R es cs" "\<And>e c. R e c \<Longrightarrow> P e = Q c"
  shows "rel_option R (find P es) (find Q cs)"
  using assms by (induction rule: list_all2_induct) auto

lemma shown_dirD:
  assumes "shown nb mk W fs n i" "kind n = sIFDIR"
  obtains es where "readDir fs i None = (Inr es, None)"
    "rel_option (\<lambda>e c. \<exists>j. readInode fs (de_InodeRef e) None = (Inr j, None) \<and> de_Number e = in_Number j \<and> shown nb mk W fs c j)
       (find (\<lambda>e. de_Name e = name) es) (find (\<lambda>c. nd_name c = name) (nd_children n))"
    "map de_Name es = map nd_name (sort_key nd_name (nd_children n))"
    "map de_Type es = map (\<lambda>c. dirEntryType (nd_mode c)) (sort_key nd_name (nd_children n))"
    "nb \<Longrightarrow> map de_Number es = map nd_inodeNum (sort_key nd_name (nd_children n))"
  using assms(1)
proof cases
  case (directory es)
  let ?R = "\<lambda>e c. de_Name e = nd_name c \<and> de_Type e = dirEntryType (nd_mode c) \<and>
        (\<exists>j. readInode fs (de_InodeRef e) None = (Inr j, None) \<and> de_Number e = in_Number j \<and> shown nb mk W fs c j)"
  have "rel_option ?R (find (\<lambda>e. de_Name e = name) es) (find (\<lambda>c. nd_name c = name) (sort_key nd_name (nd_children n)))"
    using directory(7) by (rule find_list_all2) auto
  then have r: "rel_option (\<lambda>e c. \<exists>j. readInode fs (de_InodeRef e) None = (Inr j, None) \<and> de_Number e = in_Number j \<and> shown nb mk W fs c j)
       (find (\<lambda>e. de_Name e = name) es) (find (\<lambda>c. nd_name c = name) (nd_children n))"
    unfolding find_sort_key [OF directory(5)] by (rule option.rel_mono_strong) auto
  have "map de_Name es = map nd_name (sort_key nd_name (nd_children n))"
    "map de_Type es = map (\<lambda>c. dirEntryType (nd_mode c)) (sort_key nd_name (nd_children n))"
    "nb \<Longrightarrow> map de_Number es = map nd_inodeNum (sort_key nd_name (nd_children n))"
    using directory(7) by (induction rule: list_all2_induct) (auto simp: shown_number)
  from that [OF directory(6) r this] show ?thesis .
qed (use assms(2) in auto)


section \<open>Walking inodes is walking the tree\<close>

definition shows_result :: "bool \<Rightarrow> makeBytesFn \<Rightarrow> (int64 \<Rightarrow> int64) \<Rightarrow> FS \<Rightarrow> error + node \<Rightarrow> (error + inode) \<times> cachePtr \<Rightarrow> bool" where
  "shows_result nb mk W fs r x =
     (case r of
        Inl e \<Rightarrow> x = (Inl e, None)
      | Inr n \<Rightarrow> \<exists>i. x = (Inr i, None) \<and> shown nb mk W fs n i)"

lemma shows_result_simps [simp]:
  "shows_result nb mk W fs (Inl e) x \<longleftrightarrow> x = (Inl e, None)"
  "shows_result nb mk W fs (Inr n) x \<longleftrightarrow> (\<exists>i. x = (Inr i, None) \<and> shown nb mk W fs n i)"
  by (simp_all add: shows_result_def)

lemma shows_result_bind:
  assumes "shows_result nb mk W fs r (m None)"
    and "\<And>n i. \<lbrakk>r = Inr n; m None = (Inr i, None); shown nb mk W fs n i\<rbrakk> \<Longrightarrow> shows_result nb mk W fs (g n) (f i None)"
  shows "shows_result nb mk W fs (bindE r g) (bindM m f None)"
  using assms by (cases r) (auto simp: bindM_def)

lemma walkParts_found:
  assumes "isDir i" "readDir fs i None = (Inr es, None)" "find (\<lambda>e. de_Name e = name) es = Some e"
    and "readInode fs (de_InodeRef e) None = (Inr j, None)"
  shows "walkParts fs i (name # rest) followFinal hops None =
     (if isSymlink j \<and> (rest \<noteq> [] \<or> followFinal) then
        bindM (if take 1 (in_symlinkTarget j) = [slash]
               then readInode fs (sb_RootInode (fs_sb fs)) else retM i) (\<lambda>base.
        bindM (resolveFrom fs base (in_symlinkTarget j) True (hops + 1)) (\<lambda>child'.
        walkParts fs child' rest followFinal hops))
      else walkParts fs j rest followFinal hops) None"
  using assms by (simp add: walkParts.simps(2))

text \<open>A link that is followed: the target is resolved from its base, the rest from there.\<close>

lemma follow_shown:
  assumes root: "readInode fs (sb_RootInode (fs_sb fs)) None = (Inr rooti, None)" "shown nb mk W fs root rooti"
    and cur: "shown nb mk W fs cur i" and child: "shown nb mk W fs child j" "kind child = sIFLNK"
    and res: "\<And>k. shown nb mk W fs (if take 1 (nd_target child) = [slash] then root else cur) k \<Longrightarrow>
      shows_result nb mk W fs (treeResolve root (if take 1 (nd_target child) = [slash] then root else cur) (nd_target child) True h)
        (resolveFrom fs k (nd_target child) True h None)"
    and walk: "\<And>n k. shown nb mk W fs n k \<Longrightarrow> shows_result nb mk W fs (g n) (walkParts fs k rest followFinal hops None)"
  shows "shows_result nb mk W fs
     (bindE (treeResolve root (if take 1 (nd_target child) = [slash] then root else cur) (nd_target child) True h) g)
     (bindM (if take 1 (in_symlinkTarget j) = [slash] then readInode fs (sb_RootInode (fs_sb fs)) else retM i) (\<lambda>base.
        bindM (resolveFrom fs base (in_symlinkTarget j) True h) (\<lambda>child'. walkParts fs child' rest followFinal hops)) None)"
proof -
  let ?bi = "if take 1 (nd_target child) = [slash] then rooti else i"
  have tg: "in_symlinkTarget j = nd_target child" by (rule shown_linkD [OF child])
  have b: "(if take 1 (nd_target child) = [slash] then readInode fs (sb_RootInode (fs_sb fs)) else retM i) None = (Inr ?bi, None)"
    and bs: "shown nb mk W fs (if take 1 (nd_target child) = [slash] then root else cur) ?bi" using root cur by simp_all
  show ?thesis
    unfolding tg bindM_Inr [of "if take 1 (nd_target child) = [slash] then readInode fs (sb_RootInode (fs_sb fs)) else retM i", OF b]
    by (rule shows_result_bind, rule res, rule bs) (rule walk)
qed

lemma entry_shown:
  assumes cur: "shown nb mk W fs cur i" and d: "kind cur = sIFDIR"
    and c: "find (\<lambda>c. nd_name c = name) (nd_children cur) = Some child"
  obtains j where "shown nb mk W fs child j" "\<And>rest ff hops. walkParts fs i (name # rest) ff hops None =
     (if kind child = sIFLNK \<and> (rest \<noteq> [] \<or> ff) then
        bindM (if take 1 (in_symlinkTarget j) = [slash] then readInode fs (sb_RootInode (fs_sb fs)) else retM i) (\<lambda>base.
        bindM (resolveFrom fs base (in_symlinkTarget j) True (hops + 1)) (\<lambda>child'. walkParts fs child' rest ff hops))
      else walkParts fs j rest ff hops) None"
proof -
  obtain es where es: "readDir fs i None = (Inr es, None)"
    "rel_option (\<lambda>e c. \<exists>j. readInode fs (de_InodeRef e) None = (Inr j, None) \<and> de_Number e = in_Number j \<and> shown nb mk W fs c j)
       (find (\<lambda>e. de_Name e = name) es) (find (\<lambda>c. nd_name c = name) (nd_children cur))"
    by (rule shown_dirD [OF cur d])
  with c obtain e j where e: "find (\<lambda>e. de_Name e = name) es = Some e"
    "readInode fs (de_InodeRef e) None = (Inr j, None)" "shown nb mk W fs child j"
    by (auto simp: option_rel_Some2)
  have "isDir i" using shown_kind(1) [OF cur] d by simp
  from that [OF e(3)] walkParts_found [OF this es(1) e(1,2), unfolded shown_kind(2) [OF e(3)]] show thesis by blast
qed

lemma walk_shown:
  assumes root: "readInode fs (sb_RootInode (fs_sb fs)) None = (Inr rooti, None)" "shown nb mk W fs root rooti"
  shows "shown nb mk W fs start i \<Longrightarrow>
      shows_result nb mk W fs (treeResolve root start path followFinal hops) (resolveFrom fs i path followFinal hops None)"
    and "shown nb mk W fs cur i \<Longrightarrow>
      shows_result nb mk W fs (treeWalk root cur parts followFinal hops) (walkParts fs i parts followFinal hops None)"
  using root
proof (induction root start path followFinal hops and root cur parts followFinal hops
    arbitrary: i and i rule: treeResolve_treeWalk.induct)
  case (1 root start path followFinal hops)
  then show ?case by (simp add: treeResolve.simps resolveFrom.simps maxSymlinkHops_def)
next
  case (2 root cur followFinal hops)
  then show ?case by (simp add: treeWalk.simps walkParts.simps)
next
  case (3 root cur name rest followFinal hops)
  note root = "3.prems"(2,3) and cur = "3.prems"(1)
  show ?case
  proof (cases "kind cur = sIFDIR")
    case False
    with shown_kind(1) [OF cur] show ?thesis by (simp add: treeWalk.simps walkParts.simps)
  next
    case True
    then have kd: "\<not> kind cur \<noteq> sIFDIR" and d: "isDir i" using shown_kind(1) [OF cur] by simp_all
    show ?thesis
    proof (cases "find (\<lambda>c. nd_name c = name) (nd_children cur)")
      case None
      from shown_dirD [OF cur True, of name] obtain es where "readDir fs i None = (Inr es, None)" "find (\<lambda>e. de_Name e = name) es = None"
        unfolding None by auto
      with None d True show ?thesis by (simp add: treeWalk.simps walkParts.simps)
    next
      case (Some child)
      obtain j where j: "shown nb mk W fs child j" and w: "\<And>rest ff hops. walkParts fs i (name # rest) ff hops None =
         (if kind child = sIFLNK \<and> (rest \<noteq> [] \<or> ff) then
            bindM (if take 1 (in_symlinkTarget j) = [slash] then readInode fs (sb_RootInode (fs_sb fs)) else retM i) (\<lambda>base.
            bindM (resolveFrom fs base (in_symlinkTarget j) True (hops + 1)) (\<lambda>child'. walkParts fs child' rest ff hops))
          else walkParts fs j rest ff hops) None"
        by (rule entry_shown [OF cur True Some]) blast
      show ?thesis
      proof (cases "kind child = sIFLNK \<and> (rest \<noteq> [] \<or> followFinal)")
        case False
        show ?thesis
          unfolding w treeWalk.simps(2) if_not_P [OF kd] Some option.case if_not_P [OF False]
          by (rule "3.IH"(3) [OF kd Some False j root])
      next
        case tl: True
        show ?thesis
          unfolding w treeWalk.simps(2) if_not_P [OF kd] Some option.case if_P [OF tl]
          by (rule follow_shown [OF root cur j conjunct1 [OF tl]]) (erule "3.IH"(1,2) [OF kd Some tl _ root])+
      qed
    qed
  qed
qed

definition tree_shown :: "bool \<Rightarrow> makeBytesFn \<Rightarrow> (int64 \<Rightarrow> int64) \<Rightarrow> FS \<Rightarrow> node \<Rightarrow> bool" where
  "tree_shown nb mk W fs root \<longleftrightarrow>
     \<not> hasXattrTable fs \<and>
     (\<exists>i. readInode fs (sb_RootInode (fs_sb fs)) None = (Inr i, None) \<and> shown nb mk W fs root i)"

abbreviation fs_shows :: "makeBytesFn \<Rightarrow> (int64 \<Rightarrow> int64) \<Rightarrow> FS \<Rightarrow> node \<Rightarrow> bool" where
  "fs_shows \<equiv> tree_shown False"

lemma resolve_shown:
  assumes "tree_shown nb mk W fs root"
  shows "shows_result nb mk W fs (tree_lookup root path followFinal) (resolve fs path followFinal None)"
proof -
  from assms obtain i where i: "readInode fs (sb_RootInode (fs_sb fs)) None = (Inr i, None)" "shown nb mk W fs root i"
    by (auto simp: tree_shown_def)
  from walk_shown(1) [OF i i(2)] i(1) show ?thesis
    by (simp add: resolve_def tree_lookup_def)
qed

lemma resolve_shownE:
  assumes "tree_shown nb mk W fs root"
  obtains (fail) e where "tree_lookup root path ff = Inl e" "resolve fs path ff None = (Inl e, None)"
  | (found) n i where "tree_lookup root path ff = Inr n" "resolve fs path ff None = (Inr i, None)" "shown nb mk W fs n i"
  using resolve_shown [OF assms, of path ff] by (cases "tree_lookup root path ff") auto


section \<open>The operations\<close>

lemma ReadFileLimit_shown:
  assumes "tree_shown nb mk W fs root"
  shows "ReadFileLimit mk fs path maxLen None = (tree_ReadFileLimit root path maxLen, None)"
  using assms
proof (cases rule: resolve_shownE [where path = path and ff = True])
  case fail
  then show ?thesis by (simp add: ReadFileLimit_def tree_ReadFileLimit_def)
next
  case (found n i)
  from found(3) shown_kind(3) [OF found(3)] show ?thesis
    by (cases; simp add: ReadFileLimit_def tree_ReadFileLimit_def found(1,2))
qed

lemma ReadLink_shown:
  assumes "tree_shown nb mk W fs root"
  shows "ReadLink fs path None = (tree_ReadLink root path, None)"
  using assms
proof (cases rule: resolve_shownE [where path = path and ff = False])
  case (found n i)
  then show ?thesis
    using shown_kind(2) [OF found(3)] shown_linkD [OF found(3)] by (simp add: ReadLink_def tree_ReadLink_def)
qed (simp add: ReadLink_def tree_ReadLink_def)

lemma map_pair_eq:
  "map f xs = map f' ys \<Longrightarrow> map g xs = map g' ys \<Longrightarrow> map (\<lambda>x. (f x, g x)) xs = map (\<lambda>y. (f' y, g' y)) ys"
  by (induction xs arbitrary: ys) auto

lemma ListDir_shown:
  assumes "tree_shown nb mk W fs root"
  shows "ListDir (\<lambda>num name t. (name, t)) fs path None = (tree_ListDir root path, None)"
  using assms
proof (cases rule: resolve_shownE [where path = path and ff = True])
  case (found n i)
  show ?thesis
  proof (cases "kind n = sIFDIR")
    case True
    obtain es where es: "readDir fs i None = (Inr es, None)"
      "map de_Name es = map nd_name (sort_key nd_name (nd_children n))"
      "map de_Type es = map (\<lambda>c. dirEntryType (nd_mode c)) (sort_key nd_name (nd_children n))"
      by (rule shown_dirD [OF found(3) True])
    have "map (\<lambda>e. ucast (de_Type e) :: byte) es = map (\<lambda>c. ucast (dirEntryType (nd_mode c))) (sort_key nd_name (nd_children n))"
      using arg_cong [OF es(3), of "map ucast"] by (simp add: comp_def)
    from map_pair_eq [OF es(2) this] es(1) found True shown_kind(1) [OF found(3)] show ?thesis
      by (simp add: ListDir_def tree_ListDir_def)
  next
    case False
    with found shown_kind(1) [OF found(3)] show ?thesis by (simp add: ListDir_def tree_ListDir_def)
  qed
qed (simp add: ListDir_def tree_ListDir_def)

lemma Stat_shown:
  assumes "tree_shown nb mk W fs root"
  shows "Stat (\<lambda>mode sz num. (mode, if mode AND 0xF000 = sIFDIR then None else Some sz)) fs path None =
     (tree_Stat root path, None)"
  using assms
proof (cases rule: resolve_shownE [where path = path and ff = True])
  case (found n i)
  from found(3) show ?thesis by cases (simp_all add: Stat_def tree_Stat_def found(1,2))
qed (simp add: Stat_def tree_Stat_def)

lemma Xattrs_shown:
  assumes "tree_shown nb mk W fs root"
  shows "Xattrs fs path None = (map_sum id (\<lambda>_. None) (tree_lookup root path True), None)"
  using assms
proof (cases rule: resolve_shownE [where path = path and ff = True])
  case (found n i)
  with assms show ?thesis by (simp add: Xattrs_def inodeXattrs_def tree_shown_def)
qed (simp add: Xattrs_def)


text \<open>The number a listing gives for a child is the one the child's inode has.\<close>

lemma find_distinct: "\<lbrakk>distinct (map f xs); x \<in> set xs\<rbrakk> \<Longrightarrow> find (\<lambda>y. f y = f x) xs = Some x"
  by (induction xs) (auto simp: image_iff)

lemma number_shown:
  assumes fs: "tree_shown nb mk W fs root" and n: "tree_lookup root path True = Inr n" "kind n = sIFDIR"
    and c: "c \<in> set (nd_children n)" "kind c \<noteq> sIFLNK" "component (nd_name c)"
  obtains es num t mode sz where
    "ListDir (\<lambda>num name t. (num, name, t)) fs path None = (Inr es, None)" "(num, nd_name c, t) \<in> set es"
    "Stat (\<lambda>mode sz num. (mode, sz, num)) fs (path @ slash # nd_name c) None = (Inr (mode, sz, num), None)"
proof -
  obtain i where i: "resolve fs path True None = (Inr i, None)" "shown nb mk W fs n i"
    using resolve_shown [OF fs, of path True] n(1) by auto
  have d: "isDir i" and dist: "distinct (map nd_name (nd_children n))"
    using i(2) n(2) shown_kind(1) [OF i(2)] by (auto elim: shown.cases)
  obtain es where es: "readDir fs i None = (Inr es, None)"
    "rel_option (\<lambda>e c. \<exists>j. readInode fs (de_InodeRef e) None = (Inr j, None) \<and> de_Number e = in_Number j \<and> shown nb mk W fs c j)
       (find (\<lambda>e. de_Name e = nd_name c) es) (find (\<lambda>x. nd_name x = nd_name c) (nd_children n))"
    by (rule shown_dirD [OF i(2) n(2)])
  from es(2) find_distinct [OF dist c(1)] obtain e j where e: "find (\<lambda>e. de_Name e = nd_name c) es = Some e"
    "readInode fs (de_InodeRef e) None = (Inr j, None)" "de_Number e = in_Number j" "shown nb mk W fs c j"
    by (auto simp: option_rel_Some2)
  have e': "e \<in> set es" "de_Name e = nd_name c" using e(1) by (auto simp: find_Some_iff)
  have sp: "splitPath (nd_name c) = [nd_name c]" using c(3) splitSlash_component [of "nd_name c"] by (simp add: splitPath_def component_def)
  have "resolve fs (path @ slash # nd_name c) True None = (Inr j, None)"
    using resolve_append [of "nd_name c" fs path True] i(1) d es(1) e(1,2) c(2) shown_kind(2) [OF e(4)]
    by (simp add: sp resolveFrom.simps maxSymlinkHops_def walkParts.simps)
  then have "Stat (\<lambda>mode sz num. (mode, sz, num)) fs (path @ slash # nd_name c) None = (Inr (in_Mode j, in_Size j, ucast (in_Number j)), None)"
    by (simp add: Stat_def)
  moreover have "ListDir (\<lambda>num name t. (num, name, t)) fs path None =
      (Inr (map (\<lambda>e. (ucast (de_Number e), de_Name e, ucast (de_Type e))) es), None)"
    using i(1) d es(1) by (simp add: ListDir_def)
  moreover have "(ucast (in_Number j), nd_name c, ucast (de_Type e)) \<in> set (map (\<lambda>e. (ucast (de_Number e), de_Name e, ucast (de_Type e))) es)"
    using e' e(3) by force
  ultimately show thesis using that by blast
qed


section \<open>The file system as a server of the tree\<close>

text \<open>
  The answer of the tree to a request. Inode numbers, and the sizes of
  directories, are facts of the encoding and not of the tree: \<open>forget\<close> removes
  them from a reply.
\<close>

definition forget :: "reply \<Rightarrow> reply" where
  "forget r =
     (case r of
        RepEntries es \<Rightarrow> RepEntries (map (\<lambda>(num, name, t). (0, name, t)) es)
      | RepStat (mode, sz, num) \<Rightarrow> RepStat (mode, if mode AND 0xF000 = sIFDIR then 0 else sz, 0)
      | _ \<Rightarrow> r)"

definition tree_serve :: "node \<Rightarrow> request \<Rightarrow> error + reply" where
  "tree_serve root q =
     (case q of
        ReqReadFileLimit path maxLen \<Rightarrow> map_sum id RepBytes (tree_ReadFileLimit root path maxLen)
      | ReqListDir path \<Rightarrow> map_sum id (\<lambda>es. RepEntries (map (\<lambda>(name, t). (0, name, t)) es)) (tree_ListDir root path)
      | ReqStat path \<Rightarrow>
          map_sum id (\<lambda>(mode, sz). RepStat (mode, case sz of None \<Rightarrow> 0 | Some s \<Rightarrow> s, 0)) (tree_Stat root path)
      | ReqXattrs path \<Rightarrow> map_sum id (\<lambda>_. RepXattrs None) (tree_lookup root path True)
      | ReqReadLink path \<Rightarrow> map_sum id RepBytes (tree_ReadLink root path)
      | ReqMutate m \<Rightarrow> Inl ErrReadOnly)"

lemma fst_mapM: "fst (mapM f m s) = map_sum id f (fst (m s))"
  by (auto simp: mapM_def bindM_def split: prod.split sum.split)

lemma ListDir_natural:
  "fst (ListDir g fs path s) = map_sum id (map (\<lambda>(num, name, t). g num name t)) (fst (ListDir (\<lambda>num name t. (num, name, t)) fs path s))"
  by (auto simp: ListDir_def bindM_def split: prod.split sum.split)

lemma Stat_natural:
  "fst (Stat g fs path s) = map_sum id (\<lambda>(mode, sz, num). g mode sz num) (fst (Stat (\<lambda>mode sz num. (mode, sz, num)) fs path s))"
  by (auto simp: Stat_def bindM_def split: prod.split sum.split)

lemma serve_shown:
  assumes "tree_shown nb mk W fs root"
  shows "map_sum id forget (fst (serve mk fs q None)) = tree_serve root q"
proof (cases q)
  case (ReqReadFileLimit path maxLen)
  then show ?thesis
    by (simp add: serve_def tree_serve_def fst_mapM ReadFileLimit_shown [OF assms] sum.map_comp comp_def id_def forget_def)
next
  case (ReqListDir path)
  let ?r = "fst (ListDir (\<lambda>num name t. (num, name, t)) fs path None)"
  have "tree_ListDir root path = map_sum id (map (\<lambda>(num, name, t). (name, t))) ?r"
    using ListDir_natural [of "\<lambda>num name t. (name, t)" fs path None] ListDir_shown [OF assms] by simp
  then show ?thesis
    by (cases ?r) (auto simp: ReqListDir serve_def tree_serve_def fst_mapM forget_def)
next
  case (ReqStat path)
  let ?r = "fst (Stat (\<lambda>mode sz num. (mode, sz, num)) fs path None)"
  have "tree_Stat root path = map_sum id (\<lambda>(mode, sz, num). (mode, if mode AND 0xF000 = sIFDIR then None else Some sz)) ?r"
    using Stat_natural [of "\<lambda>mode sz num. (mode, if mode AND 0xF000 = sIFDIR then None else Some sz)" fs path None]
      Stat_shown [OF assms] by simp
  then show ?thesis
    by (cases ?r) (auto simp: ReqStat serve_def tree_serve_def fst_mapM forget_def)
next
  case (ReqXattrs path)
  then show ?thesis
    by (simp add: serve_def tree_serve_def fst_mapM Xattrs_shown [OF assms] sum.map_comp comp_def id_def forget_def)
next
  case (ReqReadLink path)
  then show ?thesis
    by (simp add: serve_def tree_serve_def fst_mapM ReadLink_shown [OF assms] sum.map_comp comp_def id_def forget_def)
next
  case (ReqMutate m)
  then show ?thesis by (simp add: serve_def tree_serve_def fst_mapM mutate_eq)
qed

text \<open>
  With the numbers of the inodes in the tree the answers are complete but for the
  size that is reported for a directory, which \<open>forget_size\<close> removes.
\<close>

definition forget_size :: "reply \<Rightarrow> reply" where
  "forget_size r =
     (case r of RepStat (mode, sz, num) \<Rightarrow> RepStat (mode, if mode AND 0xF000 = sIFDIR then 0 else sz, num) | _ \<Rightarrow> r)"

definition tree_reply :: "node \<Rightarrow> request \<Rightarrow> error + reply" where
  "tree_reply root q =
     (case q of
        ReqListDir path \<Rightarrow>
          bindE (tree_lookup root path True) (\<lambda>n.
          if kind n \<noteq> sIFDIR then Inl (Wrapped ErrNotDirectory)
          else Inr (RepEntries (map (\<lambda>c. (ucast (nd_inodeNum c), nd_name c, ucast (dirEntryType (nd_mode c))))
            (sort_key nd_name (nd_children n)))))
      | ReqStat path \<Rightarrow>
          bindE (tree_lookup root path True) (\<lambda>n.
          Inr (RepStat (nd_mode n,
            if kind n = sIFDIR then 0 else of_nat (length (if kind n = sIFLNK then nd_target n else nd_data n)),
            ucast (nd_inodeNum n))))
      | _ \<Rightarrow> tree_serve root q)"

lemma map_triple_eq:
  "\<lbrakk>map f xs = map f' ys; map g xs = map g' ys; map h xs = map h' ys\<rbrakk>
    \<Longrightarrow> map (\<lambda>x. (F (f x), g x, H (h x))) xs = map (\<lambda>y. (F (f' y), g' y, H (h' y))) ys"
  by (induction xs arbitrary: ys) auto

lemma reply_shown:
  assumes "tree_shown True mk W fs root"
  shows "map_sum id forget_size (fst (serve mk fs q None)) = tree_reply root q"
proof (cases q)
  case (ReqListDir path)
  from assms show ?thesis
  proof (cases rule: resolve_shownE [where path = path and ff = True])
    case (found n i)
    show ?thesis
    proof (cases "kind n = sIFDIR")
      case True
      obtain es where es: "readDir fs i None = (Inr es, None)"
        "map de_Name es = map nd_name (sort_key nd_name (nd_children n))"
        "map de_Type es = map (\<lambda>c. dirEntryType (nd_mode c)) (sort_key nd_name (nd_children n))"
        "map de_Number es = map nd_inodeNum (sort_key nd_name (nd_children n))"
        by (rule shown_dirD [OF found(3) True]) simp
      from map_triple_eq [OF es(4,2,3), of ucast ucast] es(1) found True shown_kind(1) [OF found(3)] show ?thesis
        by (simp add: ReqListDir serve_def fst_mapM ListDir_def tree_reply_def forget_size_def)
    next
      case False
      with found shown_kind(1) [OF found(3)] show ?thesis
        by (simp add: ReqListDir serve_def fst_mapM ListDir_def tree_reply_def)
    qed
  qed (simp add: ReqListDir serve_def fst_mapM ListDir_def tree_reply_def)
next
  case (ReqStat path)
  from assms show ?thesis
  proof (cases rule: resolve_shownE [where path = path and ff = True])
    case (found n i)
    from found(3) shown_number [OF found(3)] show ?thesis
      by cases (simp_all add: ReqStat serve_def fst_mapM Stat_def tree_reply_def forget_size_def found(1,2))
  qed (simp add: ReqStat serve_def fst_mapM Stat_def tree_reply_def)
qed (use serve_shown [OF assms, of q] in
    \<open>simp_all add: tree_reply_def serve_def fst_mapM sum.map_comp comp_def forget_def forget_size_def\<close>)

text \<open>The references of the inodes do not matter to what the tree answers.\<close>

fun unref :: "node \<Rightarrow> node" where
  "unref (Node name mode uid gid target content cs ref num) =
     Node name mode uid gid target content (map unref cs) 0 num"

lemma unref_fields [simp]:
  "nd_name (unref n) = nd_name n" "nd_mode (unref n) = nd_mode n" "nd_target (unref n) = nd_target n"
  "nd_data (unref n) = nd_data n" "nd_inodeNum (unref n) = nd_inodeNum n" "nd_children (unref n) = map unref (nd_children n)"
  by (cases n; simp)+

lemma find_unref: "find (\<lambda>c. nd_name c = name) (map unref cs) = map_option unref (find (\<lambda>c. nd_name c = name) cs)"
  by (induction cs) auto

lemma treeWalk_unref:
  "treeResolve (unref root) (unref start) path ff hops = map_sum id unref (treeResolve root start path ff hops)"
  "treeWalk (unref root) (unref cur) parts ff hops = map_sum id unref (treeWalk root cur parts ff hops)"
proof (induction root start path ff hops and root cur parts ff hops rule: treeResolve_treeWalk.induct)
  case (1 root start path followFinal hops)
  then show ?case by (simp add: treeResolve.simps)
next
  case (2 root cur followFinal hops)
  show ?case by (simp add: treeWalk.simps)
next
  case (3 root cur name rest followFinal hops)
  show ?case
  proof (cases "find (\<lambda>c. nd_name c = name) (nd_children cur)")
    case (Some child)
    show ?thesis
    proof (cases "kind cur = sIFDIR")
      case True
      then have d: "\<not> kind cur \<noteq> sIFDIR" by simp
      note ih = "3.IH"(1,2,3) [OF d Some]
      have base: "(if P then unref root else unref cur) = unref (if P then root else cur)" for P by simp
      show ?thesis
        using True Some ih(1,3)
        by (cases "treeResolve root (if take 1 (nd_target child) = [slash] then root else cur) (nd_target child) True (hops + 1)")
          (auto simp: treeWalk.simps find_unref base ih(2))
    qed (simp add: treeWalk.simps)
  qed (simp add: treeWalk.simps find_unref)
qed

lemma lookup_unref: "tree_lookup (unref root) path ff = map_sum id unref (tree_lookup root path ff)"
  by (simp add: tree_lookup_def treeWalk_unref)

lemma sort_key_unref: "sort_key nd_name (map unref cs) = map unref (sort_key nd_name cs)"
proof -
  have "insort_key nd_name (unref x) (map unref ys) = map unref (insort_key nd_name x ys)" for x ys
    by (induction ys) auto
  then show ?thesis by (induction cs) simp_all
qed

lemma bindE_unref: "bindE (map_sum id unref r) f = bindE r (\<lambda>n. f (unref n))"
  by (cases r) simp_all

lemma map_sum_unref: "map_sum id (\<lambda>_. y) (map_sum id unref r) = map_sum id (\<lambda>_. y) r"
  by (cases r) simp_all

lemma reply_unref: "tree_reply (unref root) q = tree_reply root q"
  by (cases q) (simp_all add: tree_reply_def tree_serve_def tree_ReadFileLimit_def tree_ReadLink_def lookup_unref
      bindE_unref sort_key_unref comp_def map_sum_unref cong: if_cong)

lemma request_shown:
  assumes "tree_shown nb mk W fs root"
  shows "request_ok W fs q"
proof -
  have "path_sized W fs path" for path
    using assms
  proof (cases rule: resolve_shownE [where path = path and ff = True])
    case (found n i)
    from found(3) have "isRegular i \<longrightarrow> file_sized W fs i"
      by cases (auto simp: inode_kind_defs inode_type_defs)
    with found(2) show ?thesis by (simp add: path_sized_def)
  qed (simp add: path_sized_def)
  then show ?thesis by (cases q) (simp_all add: request_ok_def)
qed

text \<open>Whatever was served before, the cached file system answers like the tree.\<close>

lemma history_shown:
  assumes "tree_shown nb mk W fs root"
  shows "map_sum id forget (fst (serve mk fs q (fold (\<lambda>q c. snd (serve mk fs q c)) qs (Some newBlockCache)))) =
     tree_serve root q"
proof -
  have "list_all (request_ok W fs) qs" using request_shown [OF assms] by (simp add: list_all_iff)
  from fsServer.history_invisible [OF this request_shown [OF assms] empty_cache_coherent]
  show ?thesis using serve_shown [OF assms] by simp
qed

end
