(* ===== verification/MetaStream.thy ===== *)
theory MetaStream
  imports ImageWriter
begin

text \<open>
  What the metadata writer of \<^verbatim>\<open>write.go\<close> produces and what the cursor of
  \<^verbatim>\<open>metadata.go\<close> reads from it. The writer is abstracted by the bytes that were
  written to it: \<open>mw_of\<close> gives the writer from the log, writing appends to the
  log, and a reference handed out by the writer leads the reader's cursor to the
  bytes written from then on.
\<close>

section \<open>Cutting a log into blocks\<close>

function fullBlocks :: "bytes \<Rightarrow> bytes list" where
  "fullBlocks bs =
     (if length bs \<ge> metaBlockMax then take metaBlockMax bs # fullBlocks (drop metaBlockMax bs) else [])"
  by pat_completeness auto
termination by (relation "measure length") (auto simp: metaBlockMax_def)

function lastPart :: "bytes \<Rightarrow> bytes" where
  "lastPart bs = (if length bs \<ge> metaBlockMax then lastPart (drop metaBlockMax bs) else bs)"
  by pat_completeness auto
termination by (relation "measure length") (auto simp: metaBlockMax_def)

declare fullBlocks.simps [simp del] lastPart.simps [simp del]

lemma blocks_log: "concat (fullBlocks bs) @ lastPart bs = bs"
proof (induction bs rule: fullBlocks.induct)
  case (1 bs)
  then show ?case
    by (cases "length bs \<ge> metaBlockMax")
      (simp_all add: fullBlocks.simps [of bs] lastPart.simps [of bs])
qed

lemma length_lastPart: "length (lastPart bs) < metaBlockMax"
proof (induction bs rule: lastPart.induct)
  case (1 bs)
  then show ?case
    by (cases "length bs \<ge> metaBlockMax") (simp_all add: lastPart.simps [of bs])
qed

lemma fullBlocks_length: "p \<in> set (fullBlocks bs) \<Longrightarrow> length p = metaBlockMax"
proof (induction bs rule: fullBlocks.induct)
  case (1 bs)
  then show ?case
    by (cases "length bs \<ge> metaBlockMax") (auto simp: fullBlocks.simps [of bs])
qed

lemma blocks_append:
  "fullBlocks (a @ b) = fullBlocks a @ fullBlocks (lastPart a @ b)"
  "lastPart (a @ b) = lastPart (lastPart a @ b)"
proof (induction a rule: fullBlocks.induct)
  case (1 a)
  {
    case 1
    with "1.IH"(1) show ?case
      by (cases "length a \<ge> metaBlockMax")
        (simp_all add: fullBlocks.simps [of a] fullBlocks.simps [of "a @ b"] lastPart.simps [of a])
  next
    case 2
    with "1.IH"(2) show ?case
      by (cases "length a \<ge> metaBlockMax")
        (simp_all add: lastPart.simps [of a] lastPart.simps [of "a @ b"])
  }
qed


section \<open>The writer as a function of its log\<close>

definition mw_of :: "imageWriter \<Rightarrow> bytes \<Rightarrow> metaWriter" where
  "mw_of iw bs = \<lparr>mw_out = concat (map (metaBlockBytes iw) (fullBlocks bs)), mw_buf = lastPart bs\<rparr>"

lemma mw_drain_eq:
  "mw_drain iw m =
     \<lparr>mw_out = mw_out m @ concat (map (metaBlockBytes iw) (fullBlocks (mw_buf m))), mw_buf = lastPart (mw_buf m)\<rparr>"
proof (induction iw m rule: mw_drain.induct)
  case (1 iw m)
  then show ?case
    by (cases "length (mw_buf m) \<ge> metaBlockMax")
      (simp_all add: mw_drain.simps [of iw m] fullBlocks.simps [of "mw_buf m"]
        lastPart.simps [of "mw_buf m"] mw_emit_def)
qed

lemma mw_write_of: "mw_write iw (mw_of iw a) b = mw_of iw (a @ b)"
  by (simp add: mw_write_def mw_of_def mw_drain_eq blocks_append [of a b])

lemma mw_of_nil: "mw_of iw [] = \<lparr>mw_out = [], mw_buf = []\<rparr>"
  by (simp add: mw_of_def fullBlocks.simps lastPart.simps metaBlockMax_def)

text \<open>The blocks of the finished writer: the full ones and the rest, if any.\<close>

definition logBlocks :: "bytes \<Rightarrow> bytes list" where
  "logBlocks bs = fullBlocks bs @ (if lastPart bs = [] then [] else [lastPart bs])"

lemma concat_logBlocks: "concat (logBlocks bs) = bs"
  using blocks_log [of bs] by (cases "lastPart bs = []") (simp_all add: logBlocks_def)

lemma logBlocks_length: "p \<in> set (logBlocks bs) \<Longrightarrow> 0 < length p \<and> length p \<le> metaBlockMax"
  using length_lastPart [of bs] fullBlocks_length [of p bs]
  by (auto simp: logBlocks_def metaBlockMax_def split: if_splits)

lemma mw_finish_of: "mw_finish iw (mw_of iw bs) = \<lparr>mw_out = concat (map (metaBlockBytes iw) (logBlocks bs)), mw_buf = []\<rparr>"
  by (simp add: mw_finish_def mw_of_def mw_emit_def logBlocks_def)

text \<open>The blocks of a longer log: those of the shorter one, then those of what was pending.\<close>

lemma logBlocks_append: "logBlocks (a @ b) = fullBlocks a @ logBlocks (lastPart a @ b)"
  by (simp add: logBlocks_def blocks_append [of a b])

lemma logBlocks_Cons:
  assumes "length r < metaBlockMax" "b \<noteq> []"
  obtains p ps where "logBlocks (r @ b) = p # ps" "length r < length p"
proof (cases "length (r @ b) \<ge> metaBlockMax")
  case True
  with assms that [of "take metaBlockMax (r @ b)"] show ?thesis
    by (simp add: logBlocks_def fullBlocks.simps [of "r @ b"])
next
  case False
  with assms that [of "r @ b"] show ?thesis
    by (simp add: logBlocks_def fullBlocks.simps [of "r @ b"] lastPart.simps [of "r @ b"])
qed


section \<open>One block\<close>

text \<open>
  A decoder that undoes what the writer stored: the writer stores raw, or its
  encoder and the decoder are a pair and no encoding of a non-empty block is
  empty.
\<close>

definition codec_agrees :: "imageWriter \<Rightarrow> decompressor \<Rightarrow> bool" where
  "codec_agrees iw d \<longleftrightarrow>
     bo_Uncompressed (iw_opts iw) \<or> iw_comp iw = None \<or>
     (\<exists>cmp. iw_comp iw = Some cmp \<and> codec_pair (comp_compress cmp) d \<and>
        (\<forall>src. src \<noteq> [] \<longrightarrow> comp_compress cmp src \<noteq> Inr []))"

lemma iw_compress_cases:
  assumes "iw_compress iw payload (bo_Uncompressed (iw_opts iw)) = (stored, compressed)"
    and "codec_agrees iw d" "payload \<noteq> []" "length payload \<le> 2 ^ 20"
  shows "0 < length stored" "length stored \<le> length payload"
    "\<not> compressed \<Longrightarrow> stored = payload"
    "compressed \<Longrightarrow> length payload \<le> m \<Longrightarrow> d stored m = Inr payload"
  using assms
  by (auto simp: iw_compress_def codec_agrees_def split: if_splits option.splits sum.splits
      dest: codec_pairD)

lemma header_bits:
  fixes n :: nat
  assumes "n \<le> metaBlockMax"
  shows "(of_nat n OR metaHeaderCompressedBit) AND NOT metaHeaderCompressedBit = (of_nat n :: u16)"
    and "of_nat n AND NOT metaHeaderCompressedBit = (of_nat n :: u16)"
    and "of_nat n AND metaHeaderCompressedBit = (0 :: u16)"
    and "(of_nat n OR metaHeaderCompressedBit) AND metaHeaderCompressedBit \<noteq> (0 :: u16)"
    and "unat (of_nat n :: u16) = n"
proof -
  have n: "n < 2 ^ 15" using assms by (simp add: metaBlockMax_def)
  have "take_bit 15 (of_nat n :: u16) = of_nat n"
    using n by (simp add: take_bit_of_nat take_bit_nat_eq_self)
  then have b: "\<not> bit (of_nat n :: u16) 15" by (metis bit_take_bit_iff less_irrefl)
  have m: "bit metaHeaderCompressedBit k \<longleftrightarrow> k = 15" for k
  proof -
    have e: "metaHeaderCompressedBit = 2 ^ 15" by (simp add: metaHeaderCompressedBit_def)
    show ?thesis unfolding e bit_exp_iff by (auto simp: possible_bit_def)
  qed
  show "(of_nat n OR metaHeaderCompressedBit) AND NOT metaHeaderCompressedBit = (of_nat n :: u16)"
    "of_nat n AND NOT metaHeaderCompressedBit = (of_nat n :: u16)"
    "of_nat n AND metaHeaderCompressedBit = (0 :: u16)"
    by (rule bit_word_eqI; use b m in \<open>auto simp: bit_and_iff bit_or_iff bit_not_iff simp del: of_nat_less_iff\<close>)+
  show "(of_nat n OR metaHeaderCompressedBit) AND metaHeaderCompressedBit \<noteq> (0 :: u16)"
    using m by (metis bit_0_eq bit_and_iff bit_or_iff bot_apply bot_bool_def)
  show "unat (of_nat n :: u16) = n" using n by (simp add: unat_of_nat)
qed

lemma metaBlockBytes_read:
  assumes codec: "codec_agrees iw d" and payload: "payload \<noteq> []" "length payload \<le> metaBlockMax"
    and img: "img = pre @ metaBlockBytes iw payload @ post" "length img < 2 ^ 63"
  shows "readMetaBlock (bytesReader img) d (of_nat (length pre)) =
     Inr (payload, of_nat (length pre + length (metaBlockBytes iw payload)))"
proof -
  obtain stored compressed where c: "iw_compress iw payload (bo_Uncompressed (iw_opts iw)) = (stored, compressed)"
    by fastforce
  have p20: "length payload \<le> 2 ^ 20" using payload(2) by (simp add: metaBlockMax_def)
  note st = iw_compress_cases [OF c codec payload(1) p20]
  have len: "length stored \<le> metaBlockMax" using st(2) payload(2) by simp
  note h = header_bits [OF len]
  define hdr where "hdr = PutUint16 (if compressed then of_nat (length stored)
      else of_nat (length stored) OR metaHeaderCompressedBit)"
  have mb: "metaBlockBytes iw payload = hdr @ stored" by (simp add: metaBlockBytes_def c hdr_def)
  have lh: "length hdr = 2" by (simp add: hdr_def)
  have i1: "img = pre @ hdr @ stored @ post" and i2: "img = (pre @ hdr) @ stored @ post"
    using img(1) by (simp_all add: mb)
  have "hdr \<noteq> []" "stored \<noteq> []" using lh st(1) by auto
  then have r1: "ReadAt (bytesReader img) (of_nat (length pre)) 2 = Inr hdr"
    and r2: "ReadAt (bytesReader img) (of_nat (length pre) + 2) (length stored) = Inr stored"
    using ReadAt_piece [OF i1 img(2)] ReadAt_piece [OF i2 img(2)] lh by (simp_all add: add.commute)
  have s0: "(of_nat (length stored) :: u16) \<noteq> 0" using h(5) st(1) by (metis length_0_conv unat_0 less_irrefl)
  have nx: "of_nat (length pre) + 2 + ucast (of_nat (length stored) :: u16) =
      (of_nat (length pre + length (metaBlockBytes iw payload)) :: int64)"
  proof -
    have "ucast (x :: u16) = (of_nat (unat x) :: int64)" for x by simp
    with h(5) show ?thesis by (simp only: mb lh length_append of_nat_add) simp
  qed
  show ?thesis
  proof (cases compressed)
    case True
    have "hdr = PutUint16 (of_nat (length stored))" using True by (simp add: hdr_def)
    with True r1 r2 s0 st(4) [OF True payload(2)] len nx show ?thesis
      unfolding readMetaBlock_def r1 by (simp add: h)
  next
    case False
    have "hdr = PutUint16 (of_nat (length stored) OR metaHeaderCompressedBit)" using False by (simp add: hdr_def)
    with False r1 r2 s0 len nx have "readMetaBlock (bytesReader img) d (of_nat (length pre)) =
        Inr (stored, of_nat (length pre + length (metaBlockBytes iw payload)))"
      unfolding readMetaBlock_def r1 by (simp add: h Let_def metaHeaderCompressedBit_def [THEN arg_cong, of "\<lambda>x. x = 0"])
    with st(3) [OF False] show ?thesis by simp
  qed
qed


section \<open>The whole table\<close>

text \<open>Consecutive blocks in an image are a stream for the cursor.\<close>

lemma stream_of_blocks:
  assumes fs: "fs_rs fs = bytesReader img" "codec_agrees iw (fs_d fs)" "length img < 2 ^ 63"
    and ps: "\<And>p. p \<in> set ps \<Longrightarrow> 0 < length p \<and> length p \<le> metaBlockMax"
    and img: "img = pre @ concat (map (metaBlockBytes iw) ps) @ post"
  shows "stream_from fs (of_nat (length pre)) (concat ps)"
  using ps img
proof (induction ps arbitrary: pre)
  case Nil
  show ?case by (simp add: stream_nil)
next
  case (Cons p ps)
  have img: "img = pre @ metaBlockBytes iw p @ concat (map (metaBlockBytes iw) ps) @ post"
    using Cons.prems(2) by simp
  have p: "p \<noteq> []" "length p \<le> metaBlockMax" using Cons.prems(1) [of p] by auto
  note r = metaBlockBytes_read [OF fs(2) p img fs(3)]
  have "stream_from fs (of_nat (length (pre @ metaBlockBytes iw p))) (concat ps)"
    using Cons.prems by (intro Cons.IH) auto
  then show ?case
    using stream_block [of fs "of_nat (length pre)" p] r p fs(1) by simp
qed

text \<open>
  The reference the writer hands out when its log is \<open>a\<close> leads the cursor, in
  the finished table, to the bytes \<open>b\<close> written afterwards.
\<close>

lemma inodeRef_mw_ref:
  assumes "length (mw_out m) < 2 ^ 48" "length (mw_buf m) < 2 ^ 16"
  shows "inodeRef (mw_ref m) = (of_nat (length (mw_out m)), length (mw_buf m))"
proof -
  define x :: u64 where "x = of_nat (length (mw_out m))"
  define y :: u64 where "y = of_nat (length (mw_buf m))"
  have "take_bit 48 x = x" "take_bit 16 y = y"
    using assms by (simp_all add: x_def y_def take_bit_of_nat take_bit_nat_eq_self)
  then have xb: "bit x k \<Longrightarrow> k < 48" and yb: "bit y k \<Longrightarrow> k < 16" for k
    by (metis bit_take_bit_iff)+
  have r: "mw_ref m = push_bit 16 x OR y" by (simp add: mw_ref_def x_def y_def)
  have "drop_bit 16 (mw_ref m) = x"
    by (rule bit_word_eqI) (auto simp: r bit_simps dest: xb yb)
  moreover have "mw_ref m AND 0xFFFF = y"
  proof -
    have "mw_ref m AND 0xFFFF = take_bit 16 (mw_ref m)" by (simp add: take_bit_eq_mask mask_numeral)
    also have "\<dots> = y"
      by (rule bit_word_eqI) (auto simp: r bit_simps dest: yb)
    finally show ?thesis .
  qed
  moreover have "unat y = length (mw_buf m)" using assms by (simp add: y_def unat_of_nat63)
  ultimately show ?thesis by (simp add: inodeRef_def x_def)
qed

lemma cursor_at_ref:
  assumes fs: "fs_rs fs = bytesReader img" "codec_agrees iw (fs_d fs)" "length img < 2 ^ 48"
    and img: "img = pre @ mw_out (mw_finish iw (mw_of iw (a @ b))) @ post"
    and b: "b \<noteq> []"
  obtains blockOff inBlockOff c where
    "inodeRef (mw_ref (mw_of iw a)) = (blockOff, inBlockOff)"
    "newMetaCursor fs (of_nat (length pre) + blockOff) inBlockOff None = (Inr c, None)"
    "avail fs c b"
proof -
  let ?out = "concat (map (metaBlockBytes iw) (fullBlocks a))"
  let ?rest = "logBlocks (lastPart a @ b)"
  have i: "img = (pre @ ?out) @ concat (map (metaBlockBytes iw) ?rest) @ post"
    using img unfolding mw_finish_of logBlocks_append [of a b] by simp
  have "length img < 2 ^ 63" using fs(3) by simp
  note small = this
  have st: "stream_from fs (of_nat (length (pre @ ?out))) (concat ?rest)"
    using i by (rule stream_of_blocks [OF fs(1,2) small logBlocks_length, rotated])
  obtain p ps where p: "?rest = p # ps" "length (lastPart a) < length p"
    using logBlocks_Cons [OF length_lastPart b] by blast
  have pin: "p \<in> set ?rest" using p(1) by simp
  have rd: "readMetaBlock (fs_rs fs) (fs_d fs) (of_nat (length (pre @ ?out))) =
      Inr (p, of_nat (length (pre @ ?out) + length (metaBlockBytes iw p)))"
    using metaBlockBytes_read [OF fs(2) _ _ _ small, of p "pre @ ?out" "concat (map (metaBlockBytes iw) ps) @ post"]
      logBlocks_length [OF pin] i p(1) fs(1) by auto
  have cc: "concat ?rest = lastPart a @ b" by (rule concat_logBlocks)
  have lt: "length (lastPart a) < length (concat ?rest)" using b unfolding cc by simp
  have "length (lastPart a) \<le> length p" using p(2) by simp
  from newMetaCursor_avail [OF st lt rd this] obtain c where
    "newMetaCursor fs (of_nat (length (pre @ ?out))) (length (lastPart a)) None = (Inr c, None)"
    "avail fs c b" unfolding cc by auto
  moreover have "inodeRef (mw_ref (mw_of iw a)) = (of_nat (length ?out), length (lastPart a))"
    using inodeRef_mw_ref [of "mw_of iw a"] fs(3) i length_lastPart [of a]
    by (simp add: mw_of_def metaBlockMax_def)
  ultimately show thesis using that by simp
qed

end
