(* ===== verification/ImageReadback.thy ===== *)
theory ImageReadback
  imports MetaStream FsApi
begin

text \<open>
  Reading back what the image writer puts around the metadata tables: the
  superblock, data and fragment blocks, and the fragment table.
\<close>

section \<open>The superblock\<close>

lemma blockLog_default: "blockLog defaultBlockSize = 17"
  by code_simp

lemma decode_superblock:
  "decodeSuperblock (superblock iw rootRef inodeCount inodeStart dirStart idStart fragStart fragCount bytesUsed) =
     \<lparr> sb_Magic = Magic, sb_InodeCount = inodeCount, sb_ModTime = 0, sb_BlockSize = iw_blockSize iw,
       sb_FragCount = fragCount,
       sb_Compression = (case iw_comp iw of None \<Rightarrow> compGZIP | Some cmp \<Rightarrow> comp_id cmp),
       sb_BlockLog = blockLog (iw_blockSize iw), sb_Flags = superblockFlags iw fragCount,
       sb_IDCount = 1, sb_VersionMajor = 4, sb_VersionMinor = 0, sb_RootInode = rootRef,
       sb_BytesUsed = bytesUsed, sb_IDTableStart = idStart, sb_XattrTableStart = 0xFFFFFFFFFFFFFFFF,
       sb_InodeTableStart = inodeStart, sb_DirTableStart = dirStart, sb_FragTableStart = fragStart,
       sb_LookupTableStart = 0xFFFFFFFFFFFFFFFF \<rparr>"
  unfolding superblock_def Let_def decodeSuperblock_def by simp

lemma length_superblock [simp]:
  "length (superblock iw rootRef inodeCount inodeStart dirStart idStart fragStart fragCount bytesUsed) = 96"
  by (simp add: superblock_def Let_def)

lemma readSuperblock_superblock:
  assumes img: "img = superblock iw rootRef inodeCount inodeStart dirStart idStart fragStart fragCount bytesUsed @ post"
    and bs: "iw_blockSize iw = defaultBlockSize" and len: "length img < 2 ^ 63"
  shows "readSuperblock (bytesReader img) =
     Inr (decodeSuperblock (superblock iw rootRef inodeCount inodeStart dirStart idStart fragStart fragCount bytesUsed))"
proof -
  let ?sb = "superblock iw rootRef inodeCount inodeStart dirStart idStart fragStart fragCount bytesUsed"
  have "?sb \<noteq> []" using length_superblock by (metis list.size(3) zero_neq_numeral)
  then have r: "ReadAt (bytesReader img) 0 superblockSize = Inr ?sb"
    using ReadAt_piece [of img "[]" ?sb post] img len by (simp add: superblockSize_def)
  show ?thesis
    unfolding readSuperblock_def r
    by (simp add: decode_superblock Let_def bs blockLog_default [unfolded defaultBlockSize_def] defaultBlockSize_def maxBlockLog_def
        maxBlockSize_def)
qed


section \<open>Data blocks\<close>

text \<open>
  \<open>bytes_at data off x\<close>: the buffer \<open>data\<close> holds \<open>x\<close> at offset \<open>off\<close>, behind the
  superblock. Appending to the buffer and patching the superblock keep it.
\<close>

definition bytes_at :: "bytes \<Rightarrow> u64 \<Rightarrow> bytes \<Rightarrow> bool" where
  "bytes_at data off x \<longleftrightarrow>
     (\<exists>pre post. data = pre @ x @ post \<and> superblockSize \<le> length pre \<and> off = of_nat (length pre))"

lemma bytes_at_append: "bytes_at data off x \<Longrightarrow> bytes_at (data @ ext) off x"
  unfolding bytes_at_def by (metis append.assoc)

lemma bytes_at_patch:
  assumes "bytes_at data off x" "length sb = superblockSize"
  shows "bytes_at (sb @ drop superblockSize data) off x"
proof -
  from assms(1) obtain pre post where
    d: "data = pre @ x @ post" "superblockSize \<le> length pre" "off = of_nat (length pre)"
    by (auto simp: bytes_at_def)
  then have "sb @ drop superblockSize data = (sb @ drop superblockSize pre) @ x @ post"
    "length (sb @ drop superblockSize pre) = length pre"
    using assms(2) by simp_all
  with d show ?thesis unfolding bytes_at_def by metis
qed

lemma bytes_at_end:
  "superblockSize \<le> length data \<Longrightarrow> off = of_nat (length data) \<Longrightarrow> bytes_at (data @ x) off x"
  unfolding bytes_at_def by (metis append_Nil2)

lemma bytes_at_sub:
  assumes "bytes_at data off (x @ y @ z)"
  shows "bytes_at data (off + of_nat (length x)) y"
proof -
  from assms obtain pre post where
    d: "data = pre @ (x @ y @ z) @ post" "superblockSize \<le> length pre" "off = of_nat (length pre)"
    by (auto simp: bytes_at_def)
  then show ?thesis
    unfolding bytes_at_def by (intro exI [of _ "pre @ x"] exI [of _ "z @ post"]) simp
qed

text \<open>
  \<open>data_has iw data off sz block\<close>: the block, as the writer stores it, with size
  word \<open>sz\<close>. \<open>meta_has\<close>: a metadata block with the given payload.
\<close>

definition data_has :: "imageWriter \<Rightarrow> bytes \<Rightarrow> u64 \<Rightarrow> u32 \<Rightarrow> bytes \<Rightarrow> bool" where
  "data_has iw data off sz block \<longleftrightarrow>
     (case iw_compress iw block (bo_Uncompressed (iw_opts iw)) of (stored, compressed) \<Rightarrow>
      bytes_at data off stored \<and>
      sz = (if compressed then of_nat (length stored) else of_nat (length stored) OR dataUncompressedBit))"

definition meta_has :: "imageWriter \<Rightarrow> bytes \<Rightarrow> u64 \<Rightarrow> bytes \<Rightarrow> bool" where
  "meta_has iw data off payload = bytes_at data off (metaBlockBytes iw payload)"

lemma data_has_append: "data_has iw data off sz block \<Longrightarrow> data_has iw (data @ ext) off sz block"
  by (auto simp: data_has_def bytes_at_append)

lemma data_has_patch:
  "data_has iw data off sz block \<Longrightarrow> length sb = superblockSize
    \<Longrightarrow> data_has iw (sb @ drop superblockSize data) off sz block"
  by (auto simp: data_has_def bytes_at_patch)

lemma writeDataBlock_has:
  assumes "writeDataBlock iw block = (sz, iw')" "superblockSize \<le> length (iw_data iw)"
  shows "data_has iw (iw_data iw') (of_nat (length (iw_data iw))) sz block"
  using assms bytes_at_end [OF assms(2) refl]
  by (auto simp: writeDataBlock_def data_has_def Let_def split: prod.splits)

lemma sizeWord_bits:
  assumes "n < 2 ^ 24"
  shows "blockOnDiskBytes (of_nat n) = of_nat n" "blockOnDiskBytes (of_nat n OR dataUncompressedBit) = of_nat n"
    "(of_nat n :: u32) AND dataUncompressedBit = 0"
    "(of_nat n OR dataUncompressedBit) AND dataUncompressedBit \<noteq> (0 :: u32)"
proof -
  define x :: u32 where "x = of_nat n"
  have "take_bit 24 x = x" using assms by (simp add: x_def take_bit_of_nat take_bit_nat_eq_self)
  then have xb: "bit x k \<Longrightarrow> k < 24" for k by (metis bit_take_bit_iff)
  have m: "bit dataUncompressedBit k \<longleftrightarrow> k = 24" for k
  proof -
    have e: "dataUncompressedBit = 2 ^ 24" by (simp add: dataUncompressedBit_def)
    show ?thesis unfolding e bit_exp_iff by (auto simp: possible_bit_def)
  qed
  have nx: "(of_nat n :: u64) = ucast x"
  proof -
    have "unat x = n" using assms by (simp add: x_def unat_of_nat)
    then have "of_nat n = (of_nat (unat x) :: u64)" by simp
    then show ?thesis by simp
  qed
  show "blockOnDiskBytes (of_nat n) = of_nat n" "blockOnDiskBytes (of_nat n OR dataUncompressedBit) = of_nat n"
    unfolding nx unfolding x_def [symmetric]
    by (rule bit_word_eqI; auto simp: blockOnDiskBytes_bits bit_or_iff bit_simps m dest: xb)+
  show "(of_nat n :: u32) AND dataUncompressedBit = 0"
    unfolding x_def [symmetric] by (rule bit_word_eqI) (auto simp: bit_and_iff m dest: xb)
  show "(of_nat n OR dataUncompressedBit) AND dataUncompressedBit \<noteq> (0 :: u32)"
    using m by (metis bit_0_eq bit_and_iff bit_or_iff bot_apply bot_bool_def)
qed

text \<open>The view of the finished image the remaining lemmas share.\<close>

definition reads_image :: "FS \<Rightarrow> imageWriter \<Rightarrow> bytes \<Rightarrow> bool" where
  "reads_image fs iw img \<longleftrightarrow>
     fs_rs fs = bytesReader img \<and> codec_agrees iw (fs_d fs) \<and> length img < 2 ^ 32 \<and>
     fs_size fs = of_nat (length img) \<and> sb_BlockSize (fs_sb fs) = iw_blockSize iw \<and>
     iw_blockSize iw = defaultBlockSize"

lemma readBlock_data_has:
  assumes fs: "reads_image fs iw img" and has: "data_has iw img off sz block"
    and block: "block \<noteq> []" "length block \<le> unat defaultBlockSize"
  shows "readBlock fs off sz None = (Inr block, None)" "blockOnDiskBytes sz \<noteq> 0"
proof -
  from has obtain pre stored compressed post where
    d: "img = pre @ stored @ post" "off = of_nat (length pre)"
      "iw_compress iw block (bo_Uncompressed (iw_opts iw)) = (stored, compressed)"
      "sz = (if compressed then of_nat (length stored) else of_nat (length stored) OR dataUncompressedBit)"
    by (auto simp: data_has_def bytes_at_def)
  from fs have f: "fs_rs fs = bytesReader img" "codec_agrees iw (fs_d fs)" "length img < 2 ^ 32"
    "fs_size fs = of_nat (length img)" "sb_BlockSize (fs_sb fs) = defaultBlockSize"
    by (simp_all add: reads_image_def)
  have bs: "unat defaultBlockSize = 131072" by (simp add: defaultBlockSize_def)
  have "length block \<le> 2 ^ 20" using block(2) bs by simp
  note st = iw_compress_cases [OF d(3) f(2) block(1) this]
  have n24: "length stored < 2 ^ 24" using st(2) block(2) bs by simp
  note w = sizeWord_bits [OF n24]
  have n: "blockOnDiskBytes sz = of_nat (length stored)" using w d(4) by simp
  have un: "unat (of_nat (length stored) :: u64) = length stored" using n24 by (simp add: unat_of_nat63)
  show nz: "blockOnDiskBytes sz \<noteq> 0" using n un st(1) by (metis less_irrefl unat_0)
  have cmp: "sz AND dataUncompressedBit = 0 \<longleftrightarrow> compressed" using w d(4) by simp
  have fits: "\<not> ucast defaultBlockSize <s (of_nat (length stored) :: int64)"
    using sless_small [of "ucast defaultBlockSize" "of_nat (length stored)"] un n24 st(2) block(2) bs
    by (simp add: defaultBlockSize_def)
  have us: "unat (fs_size fs) = length img" using f(3,4) by (simp only: f(4)) (simp add: unat_of_nat63)
  have "0 < length img" using st(1) d(1) by simp
  then have size0: "0 <s fs_size fs"
    using sless_small [of 0 "fs_size fs"] f(3) us by simp
  have ext: "checkExtent fs off (of_nat (length stored)) = Inr ()"
  proof -
    have "unat off = length pre" using d(1,2) f(3) by (simp add: unat_of_nat63)
    moreover have "length pre + length stored \<le> length img" using d(1) by simp
    ultimately show ?thesis
      using checkExtent_iff [OF size0, of "of_nat (length stored)" off] un n24 us f(3) by simp
  qed
  have rd: "ReadAt (fs_rs fs) off (length stored) = Inr stored"
    using ReadAt_piece [OF d(1)] f(1,3) st(1) d(2) by simp
  show "readBlock fs off sz None = (Inr block, None)"
    unfolding readBlock_def blockOnDiskSize_def
    using nz fits ext rd st(3) st(4) [OF _ block(2)] by (auto simp: n cmp f(5) un bindM_def fetchBlock_def)
qed

lemma readMetaBlock_meta_has:
  assumes "reads_image fs iw img" "meta_has iw img off payload" "payload \<noteq> []" "length payload \<le> metaBlockMax"
  shows "\<exists>nx. readMetaBlockCached fs off None = (Inr (payload, nx), None)"
  using assms metaBlockBytes_read [of iw "fs_d fs" payload img]
  by (fastforce simp: meta_has_def bytes_at_def readMetaBlockCached_None reads_image_def)

lemma ReadAt_bytes_at:
  assumes "reads_image fs iw img" "bytes_at img off x" "x \<noteq> []"
  shows "ReadAt (fs_rs fs) off (length x) = Inr x"
  using assms ReadAt_piece [of img _ x] by (fastforce simp: bytes_at_def reads_image_def)


section \<open>The fragment table\<close>

lemma metaBlockBytes_data [simp]: "metaBlockBytes (iw\<lparr>iw_data := d\<rparr>) = metaBlockBytes iw"
  by (simp add: fun_eq_iff metaBlockBytes_def iw_compress_def)

lemma writeMetaBlock_has:
  assumes "superblockSize \<le> length (iw_data iw)"
  shows "meta_has iw (iw_data (writeMetaBlock iw payload)) (of_nat (length (iw_data iw))) payload"
  using bytes_at_end [OF assms refl] by (simp add: writeMetaBlock_def meta_has_def)

lemma writeFragBlocks_spec:
  assumes "writeFragBlocks iw fes = (offs, iw')" "superblockSize \<le> length (iw_data iw)"
  shows "(\<exists>ext. iw' = iw\<lparr>iw_data := iw_data iw @ ext\<rparr>) \<and>
     (\<forall>j. j * fragPerMetaBlock < length fes \<longrightarrow> j < length offs \<and>
        meta_has iw (iw_data iw') (offs ! j)
          (concat (map encodeFragEntry (take fragPerMetaBlock (drop (j * fragPerMetaBlock) fes)))))"
  using assms
proof (induction iw fes arbitrary: offs iw' rule: writeFragBlocks.induct)
  case (1 iw fes)
  show ?case
  proof (cases "fes = []")
    case True
    with 1(2) show ?thesis by (auto simp: writeFragBlocks.simps intro: exI [of _ "[]"])
  next
    case False
    let ?p = "concat (map encodeFragEntry (take fragPerMetaBlock fes))"
    let ?iw1 = "writeMetaBlock iw ?p"
    obtain offs2 iw2 where rec: "writeFragBlocks ?iw1 (drop fragPerMetaBlock fes) = (offs2, iw2)" by fastforce
    with 1(2) False have offs: "offs = of_nat (length (iw_data iw)) # offs2" "iw' = iw2"
      by (auto simp: writeFragBlocks.simps [of iw fes] Let_def)
    have d1: "?iw1 = iw\<lparr>iw_data := iw_data iw @ metaBlockBytes iw ?p\<rparr>" by (simp add: writeMetaBlock_def)
    have "superblockSize \<le> length (iw_data ?iw1)" using 1(3) by (simp add: d1)
    from 1(1) [OF False refl refl rec this] obtain ext where ext: "iw2 = ?iw1\<lparr>iw_data := iw_data ?iw1 @ ext\<rparr>"
      and IH: "\<And>j. j * fragPerMetaBlock < length (drop fragPerMetaBlock fes) \<Longrightarrow> j < length offs2 \<and>
        meta_has ?iw1 (iw_data iw2) (offs2 ! j)
          (concat (map encodeFragEntry (take fragPerMetaBlock (drop (j * fragPerMetaBlock) (drop fragPerMetaBlock fes)))))"
      by blast
    have h0: "meta_has iw (iw_data iw2) (of_nat (length (iw_data iw))) ?p"
      using writeMetaBlock_has [OF 1(3), of ?p] bytes_at_append by (auto simp: meta_has_def ext)
    have "j < length offs \<and> meta_has iw (iw_data iw') (offs ! j)
        (concat (map encodeFragEntry (take fragPerMetaBlock (drop (j * fragPerMetaBlock) fes))))"
      if "j * fragPerMetaBlock < length fes" for j
    proof (cases j)
      case 0
      with h0 offs show ?thesis by simp
    next
      case (Suc k)
      with that have "k * fragPerMetaBlock < length (drop fragPerMetaBlock fes)" by simp
      from IH [OF this] show ?thesis
        by (simp add: offs Suc meta_has_def d1 add.commute)
    qed
    moreover have "iw' = iw\<lparr>iw_data := iw_data iw @ (metaBlockBytes iw ?p @ ext)\<rparr>"
      using offs ext d1 by simp
    ultimately show ?thesis by blast
  qed
qed

interpretation fragEntries: wire_format encodeFragEntry decodeFragEntry fragEntrySize
  by unfold_locales (simp_all add: encodeFragEntry_def fragEntrySize_def decodeFragEntry_def)

text \<open>The two-level table: a flat array of block offsets, and the blocks.\<close>

definition frag_table :: "imageWriter \<Rightarrow> bytes \<Rightarrow> u64 \<Rightarrow> fragmentEntry list \<Rightarrow> bool" where
  "frag_table iw data start fes \<longleftrightarrow>
     (\<exists>offs. bytes_at data start (concat (map PutUint64 offs)) \<and>
        (\<forall>j. j * fragPerMetaBlock < length fes \<longrightarrow> j < length offs \<and>
           meta_has iw data (offs ! j)
             (concat (map encodeFragEntry (take fragPerMetaBlock (drop (j * fragPerMetaBlock) fes))))))"

lemma frag_table_append: "frag_table iw data start fes \<Longrightarrow> frag_table iw (data @ ext) start fes"
  unfolding frag_table_def meta_has_def by (meson bytes_at_append)

lemma frag_table_patch:
  "frag_table iw data start fes \<Longrightarrow> length sb = superblockSize
    \<Longrightarrow> frag_table iw (sb @ drop superblockSize data) start fes"
  unfolding frag_table_def meta_has_def by (meson bytes_at_patch)

lemma writeFragmentTable_has:
  assumes "writeFragmentTable iw = (start, iw')" "superblockSize \<le> length (iw_data iw)"
  shows "frag_table iw (iw_data iw') start (iw_fragEntries iw)"
    and "\<exists>ext. iw' = iw\<lparr>iw_data := iw_data iw @ ext\<rparr>"
proof -
  obtain offs iw1 where w: "writeFragBlocks iw (iw_fragEntries iw) = (offs, iw1)" by fastforce
  with assms(1) have start: "start = of_nat (length (iw_data iw1))"
    and iw': "iw' = iw1\<lparr>iw_data := iw_data iw1 @ concat (map PutUint64 offs)\<rparr>"
    by (auto simp: writeFragmentTable_def)
  note spec = writeFragBlocks_spec [OF w assms(2)]
  then obtain ext where ext: "iw1 = iw\<lparr>iw_data := iw_data iw @ ext\<rparr>" by blast
  have "superblockSize \<le> length (iw_data iw1)" using assms(2) by (simp add: ext)
  then have "bytes_at (iw_data iw') start (concat (map PutUint64 offs))"
    unfolding iw' by (simp add: bytes_at_end start)
  moreover have "meta_has iw (iw_data iw') off p" if "meta_has iw (iw_data iw1) off p" for off p
    using that by (simp add: iw' meta_has_def bytes_at_append)
  ultimately show "frag_table iw (iw_data iw') start (iw_fragEntries iw)"
    using spec unfolding frag_table_def by blast
  show "\<exists>ext. iw' = iw\<lparr>iw_data := iw_data iw @ ext\<rparr>" using iw' ext by auto
qed

lemma readFragmentEntry_table:
  assumes fs: "reads_image fs iw img" and tab: "frag_table iw img (sb_FragTableStart (fs_sb fs)) fes"
    and cnt: "sb_FragCount (fs_sb fs) = of_nat (length fes)" "length fes < 2 ^ 32"
    and idx: "idx < length fes"
  shows "readFragmentEntry fs (of_nat idx) None = (Inr (fes ! idx), None)"
proof -
  define j where "j = idx div fragPerMetaBlock"
  define k where "k = idx mod fragPerMetaBlock"
  define grp where "grp = take fragPerMetaBlock (drop (j * fragPerMetaBlock) fes)"
  have F: "fragPerMetaBlock = 512" by (simp add: fragPerMetaBlock_def metaBlockMax_def fragEntrySize_def)
  have ui: "unat (of_nat idx :: u32) = idx" using idx cnt(2) by (simp add: unat_of_nat)
  have jk: "idx = j * fragPerMetaBlock + k" "k < fragPerMetaBlock" by (simp_all add: j_def k_def F)
  then have "j * fragPerMetaBlock < length fes" using idx by simp
  with tab obtain offs where offs: "bytes_at img (sb_FragTableStart (fs_sb fs)) (concat (map PutUint64 offs))"
    "j < length offs" "meta_has iw img (offs ! j) (concat (map encodeFragEntry grp))"
    unfolding frag_table_def grp_def by blast
  have kg: "k < length grp" "grp ! k = fes ! idx" using jk idx by (simp_all add: grp_def)
  have lg: "length grp \<le> 512" by (simp add: grp_def F)
  have "concat (map PutUint64 offs) =
      concat (map PutUint64 (take j offs)) @ PutUint64 (offs ! j) @ concat (map PutUint64 (drop (Suc j) offs))"
    using arg_cong [OF id_take_nth_drop [OF offs(2)], of "\<lambda>xs. concat (map PutUint64 xs)"] by simp
  with offs(1,2) have "bytes_at img (sb_FragTableStart (fs_sb fs) + of_nat (j * 8)) (PutUint64 (offs ! j))"
    using bytes_at_sub [of img _ "concat (map PutUint64 (take j offs))"] by (simp add: w64.length_array)
  from ReadAt_bytes_at [OF fs this]
  have ptr: "ReadAt (fs_rs fs) (sb_FragTableStart (fs_sb fs) + of_nat j * 8) 8 = Inr (PutUint64 (offs ! j))"
    by (metis (no_types) length_Put(3) list.size(3) of_nat_mult of_nat_numeral zero_neq_numeral)
  have "length (concat (map encodeFragEntry grp)) = length grp * 16"
    by (simp add: fragEntries.length_array fragEntrySize_def)
  then obtain nx where blk: "readMetaBlockCached fs (offs ! j) None = (Inr (concat (map encodeFragEntry grp), nx), None)"
    using readMetaBlock_meta_has [OF fs offs(3)] kg(1) lg by (fastforce simp: metaBlockMax_def)
  have lt: "\<not> (of_nat (length fes) :: u32) \<le> of_nat idx"
    using idx cnt(2) ui by (simp add: word_le_nat_alt unat_of_nat)
  show ?thesis
    unfolding readFragmentEntry_def cnt(1) ui j_def [symmetric] k_def [symmetric] Let_def
    using lt ptr blk fragEntries.array_in_bounds [OF kg(1)] fragEntries.dec_array_nil [OF kg(1)] kg(2)
    by (simp add: bindM_def not_less)
qed

end
