(* ===== verification/InodeReadback.thy ===== *)
theory InodeReadback
  imports ImageReadback
begin

text \<open>
  Reading back the inodes, directory listings and file contents that
  \<^verbatim>\<open>write.go\<close> emits.
\<close>

section \<open>Inodes\<close>

text \<open>The cursor a reference leads to, in the inode table.\<close>

definition inode_cursor :: "FS \<Rightarrow> u64 \<Rightarrow> bytes \<Rightarrow> bool" where
  "inode_cursor fs ref bs \<longleftrightarrow>
     (\<exists>c. (case inodeRef ref of (blockOff, inBlockOff) \<Rightarrow>
        newMetaCursor fs (sb_InodeTableStart (fs_sb fs) + blockOff) inBlockOff None = (Inr c, None)) \<and>
        avail fs c bs)"

lemma readInode_at:
  assumes "inode_cursor fs ref (hdr @ bs)" "length hdr = 16"
  obtains c where "readInode fs ref None = readInodeBody fs (decodeInodeHeader hdr) c None" "avail fs c bs"
proof -
  obtain blockOff inBlockOff where r: "inodeRef ref = (blockOff, inBlockOff)" by fastforce
  with assms(1) obtain c where
    c: "newMetaCursor fs (sb_InodeTableStart (fs_sb fs) + blockOff) inBlockOff None = (Inr c, None)"
    "avail fs c (hdr @ bs)"
    by (auto simp: inode_cursor_def)
  from cur_read_append [OF c(2)] obtain c' where
    "cur_read fs c 16 None = (Inr (hdr, c'), None)" "avail fs c' bs" using assms(2) by auto
  with c r that [of c'] show thesis by (simp add: readInode_def bindM_def)
qed

definition fileInode :: "u16 \<Rightarrow> u32 \<Rightarrow> u32 \<Rightarrow> u32 \<Rightarrow> u32 \<Rightarrow> u32 \<Rightarrow> u32 list \<Rightarrow> inode" where
  "fileInode mode num blocksStart fragIdx fragOffset sz blockSizes =
     \<lparr> in_Type = inodeBasicFile, in_Mode = (mode AND 0xFFF) OR sIFREG, in_UID = 0, in_GID = 0,
       in_Mtime = 0, in_Number = num, in_Size = ucast sz, in_xattrIdx = noXattr,
       in_blocksStart = ucast blocksStart, in_fragIdx = fragIdx, in_fragOffset = fragOffset,
       in_blockSizes = blockSizes, in_dirStartBlock = 0, in_dirOffset = 0, in_symlinkTarget = [] \<rparr>"

lemma blockListLoop_encode:
  assumes "avail fs c (concat (map PutUint32 szs) @ rest)"
  shows "\<exists>c'. blockListLoop fs (length szs) [] c None = (Inr (szs, c'), None)"
proof -
  let ?b = "concat (map PutUint32 szs)"
  obtain c' where "cur_read fs c (length ?b) None = (Inr (?b, c'), None)"
    using cur_read_append [OF assms] by blast
  moreover have "length ?b = 4 * length szs" by (simp add: w32.length_array mult.commute)
  moreover have "decodeWords (length szs) ?b = szs"
    using w32.decode_all [of szs "[]"] by (simp add: decodeWords_def mult.commute)
  ultimately show ?thesis by (simp add: blockListLoop_one_read)
qed

lemma typeBits_simps:
  "typeBits inodeBasicFile = sIFREG" "typeBits inodeBasicSymlink = sIFLNK" "typeBits inodeBasicDir = sIFDIR"
  by (simp_all add: typeBits_def inode_type_defs)

lemma readInode_file:
  assumes cur: "inode_cursor fs ref
      (fileInodeBytes mode num blocksStart fragIdx fragOffset sz blockSizes @ rest)"
    and n: "length blockSizes = unat (blockCount (ucast sz) (sb_BlockSize (fs_sb fs)) (fragIdx \<noteq> invalidFrag))"
      "length blockSizes \<le> 2 ^ 24"
  shows "readInode fs ref None =
     (Inr (fileInode mode num blocksStart fragIdx fragOffset sz blockSizes), None)"
proof -
  let ?hdr = "PutUint16 inodeBasicFile @ PutUint16 (mode AND 0xFFF) @ PutUint16 0 @ PutUint16 0 @
     PutUint32 0 @ PutUint32 num"
  let ?b = "PutUint32 blocksStart @ PutUint32 fragIdx @ PutUint32 fragOffset @ PutUint32 sz"
  let ?l = "concat (map PutUint32 blockSizes)"
  have "inode_cursor fs ref (?hdr @ ?b @ ?l @ rest)" using cur by (simp add: fileInodeBytes_def)
  then obtain c where c: "readInode fs ref None = readInodeBody fs (decodeInodeHeader ?hdr) c None"
    "avail fs c (?b @ ?l @ rest)"
    by (rule readInode_at) simp
  obtain c1 where c1: "cur_read fs c 16 None = (Inr (?b, c1), None)" "avail fs c1 (?l @ rest)"
    using cur_read_append [OF c(2)] by auto
  obtain c2 where c2: "blockListLoop fs (length blockSizes) [] c1 None = (Inr (blockSizes, c2), None)"
    using blockListLoop_encode [OF c1(2)] by blast
  define cnt where "cnt = blockCount (ucast sz) (sb_BlockSize (fs_sb fs)) (fragIdx \<noteq> invalidFrag)"
  have ok: "\<not> cnt <s 0" "\<not> 0x1000000 <s cnt"
    using n sless_0_iff [of cnt] sless_small [of "0x1000000" cnt] unfolding cnt_def by auto
  have "readBasicFile fs (decodeInodeHeader ?hdr) c None =
      (Inr (fileInode mode num blocksStart fragIdx fragOffset sz blockSizes), None)"
    using c1 c2 ok n(1) unfolding readBasicFile_def readBlockList_def cnt_def
    by (simp add: bindM_def Let_def decodeInodeHeader_def fileInode_def typeBits_simps)
  then show ?thesis
    unfolding c(1) readInodeBody_def by (simp add: decodeInodeHeader_def Let_def inode_type_defs)
qed

definition symlinkInode :: "u16 \<Rightarrow> u32 \<Rightarrow> bytes \<Rightarrow> inode" where
  "symlinkInode mode num target =
     \<lparr> in_Type = inodeBasicSymlink, in_Mode = (mode AND 0xFFF) OR sIFLNK, in_UID = 0, in_GID = 0,
       in_Mtime = 0, in_Number = num, in_Size = of_nat (length target), in_xattrIdx = noXattr,
       in_blocksStart = 0, in_fragIdx = 0, in_fragOffset = 0,
       in_blockSizes = [], in_dirStartBlock = 0, in_dirOffset = 0, in_symlinkTarget = target \<rparr>"

lemma zero_fields: "replicate 8 0 = PutUint16 0 @ PutUint16 0 @ PutUint32 0"
  by code_simp

lemma readInode_symlink:
  assumes cur: "inode_cursor fs ref (symlinkInodeBytes mode num target @ rest)"
    and n: "length target \<le> metaBlockMax"
  shows "readInode fs ref None = (Inr (symlinkInode mode num target), None)"
proof -
  let ?hdr = "PutUint16 inodeBasicSymlink @ PutUint16 (mode AND 0xFFF) @
     PutUint16 0 @ PutUint16 0 @ PutUint32 0 @ PutUint32 num"
  let ?b = "PutUint32 1 @ PutUint32 (of_nat (length target))"
  have "inode_cursor fs ref (?hdr @ ?b @ target @ rest)" using cur by (simp add: symlinkInodeBytes_def zero_fields)
  then obtain c where c: "readInode fs ref None = readInodeBody fs (decodeInodeHeader ?hdr) c None"
    "avail fs c (?b @ target @ rest)"
    by (rule readInode_at) simp
  obtain c1 where c1: "cur_read fs c 8 None = (Inr (?b, c1), None)" "avail fs c1 (target @ rest)"
    using cur_read_append [OF c(2)] by auto
  obtain c2 where c2: "cur_read fs c1 (length target) None = (Inr (target, c2), None)"
    using cur_read_append [OF c1(2)] by auto
  have un: "unat (of_nat (length target) :: u32) = length target"
    "ucast (of_nat (length target) :: u32) = (of_nat (length target) :: u64)"
    using n by (simp_all add: metaBlockMax_def unat_of_nat unsigned_of_nat take_bit_nat_eq_self)
  have "readSymlink fs (decodeInodeHeader ?hdr) c None = (Inr (symlinkInode mode num target), None)"
    using c1 c2 un n unfolding readSymlink_def
    by (simp add: bindM_def Let_def decodeInodeHeader_def symlinkInode_def typeBits_simps [unfolded inode_type_defs]
        inode_type_defs)
  then show ?thesis
    unfolding c(1) readInodeBody_def by (simp add: decodeInodeHeader_def Let_def inode_type_defs)
qed

definition dirInode :: "u16 \<Rightarrow> u32 \<Rightarrow> u32 \<Rightarrow> nat \<Rightarrow> u16 \<Rightarrow> inode" where
  "dirInode mode num dirBlock listingLen dirOffset =
     \<lparr> in_Type = inodeBasicDir, in_Mode = (mode AND 0xFFF) OR sIFDIR, in_UID = 0, in_GID = 0,
       in_Mtime = 0, in_Number = num, in_Size = of_nat listingLen, in_xattrIdx = noXattr,
       in_blocksStart = 0, in_fragIdx = 0, in_fragOffset = 0,
       in_blockSizes = [], in_dirStartBlock = dirBlock, in_dirOffset = dirOffset, in_symlinkTarget = [] \<rparr>"

text \<open>The 16-bit size field of a directory inode holds the listing's length up to this bound only.\<close>

lemma dirDataSize_listing:
  assumes "len + 3 < 2 ^ 16"
  shows "dirDataSize (ucast (of_nat (len + 3) :: u16)) = of_nat len"
proof -
  have "unat (of_nat (len + 3) :: u16) = len + 3" using assms by (simp add: unat_of_nat del: of_nat_add)
  moreover have "ucast (x :: u16) = (of_nat (unat x) :: u64)" for x by simp
  ultimately have u: "ucast (of_nat (len + 3) :: u16) = (of_nat (len + 3) :: u64)" by metis
  have "unat (of_nat (len + 3) :: u64) = len + 3" using assms by (simp add: unat_of_nat63 del: of_nat_add)
  then have "(of_nat (len + 3) :: u64) \<le> 3 \<longleftrightarrow> len = 0" by (simp add: word_le_nat_alt del: of_nat_add)
  then show ?thesis unfolding u dirDataSize_def by auto
qed

lemma readInode_dir:
  assumes cur: "inode_cursor fs ref (dirInodeBytes mode num dirBlock nChildren listingLen dirOffset @ rest)"
    and n: "listingLen + 3 < 2 ^ 16"
  shows "readInode fs ref None = (Inr (dirInode mode num dirBlock listingLen dirOffset), None)"
proof -
  let ?hdr = "PutUint16 inodeBasicDir @ PutUint16 (mode AND 0xFFF) @
     PutUint16 0 @ PutUint16 0 @ PutUint32 0 @ PutUint32 num"
  let ?b = "PutUint32 dirBlock @ PutUint32 (of_nat nChildren + 2) @ PutUint16 (of_nat (listingLen + 3)) @
     PutUint16 dirOffset @ PutUint32 1"
  have "inode_cursor fs ref (?hdr @ ?b @ rest)" using cur by (simp add: dirInodeBytes_def zero_fields)
  then obtain c where c: "readInode fs ref None = readInodeBody fs (decodeInodeHeader ?hdr) c None"
    "avail fs c (?b @ rest)"
    by (rule readInode_at) simp
  obtain c1 where c1: "cur_read fs c 16 None = (Inr (?b, c1), None)"
    using cur_read_append [OF c(2)] by auto
  have "readBasicDir fs (decodeInodeHeader ?hdr) c None =
      (Inr (dirInode mode num dirBlock listingLen dirOffset), None)"
    using c1 dirDataSize_listing [OF n] unfolding readBasicDir_def
    by (simp add: bindM_def decodeInodeHeader_def dirInode_def typeBits_simps del: of_nat_add)
  then show ?thesis
    unfolding c(1) readInodeBody_def by (simp add: decodeInodeHeader_def Let_def)
qed


declare of_nat_unat [simp del]

section \<open>Directory listings\<close>

text \<open>The entry the reader makes of a child listed under a header with base number \<open>base\<close>.\<close>

definition entryOf :: "u32 \<Rightarrow> node \<Rightarrow> dirEntry" where
  "entryOf base c =
     \<lparr> de_Name = nd_name c,
       de_InodeRef = push_bit 16 (ucast (nodeBlock c)) OR ucast (ucast (nd_inodeRef c AND 0xFFFF) :: u16),
       de_Number = word_of_int (sint base + sint (word_of_int (uint (nd_inodeNum c) - uint base) :: u16)),
       de_Type = dirEntryType (nd_mode c) \<rparr>"

definition name_ok :: "bytes \<Rightarrow> bool" where
  "name_ok s \<longleftrightarrow> 1 \<le> length s \<and> length s \<le> 256"

definition group_bytes :: "node list \<Rightarrow> nat" where
  "group_bytes cs = (\<Sum>c\<leftarrow>cs. 8 + length (nd_name c))"

lemma group_bytes_simps [simp]:
  "group_bytes [] = 0" "group_bytes (c # cs) = 8 + length (nd_name c) + group_bytes cs"
  by (simp_all add: group_bytes_def)

lemma length_group: "length (concat (map (dirEntryBytes base) cs)) = group_bytes cs"
  by (induction cs) (simp_all add: dirEntryBytes_def)

lemma unat_name_field: "name_ok s \<Longrightarrow> unat (word_of_int (int (length s) - 1) :: u16) + 1 = length s"
proof -
  assume s: "name_ok s"
  then obtain m where m: "length s = Suc m" "m < 256" by (cases "length s") (auto simp: name_ok_def)
  then have "(word_of_int (int (length s) - 1) :: u16) = of_nat m" by simp
  moreover have "unat (of_nat m :: u16) = m" using m(2) by (simp add: unat_of_nat)
  ultimately show ?thesis using m(1) by (simp only:)
qed

lemma dirEntriesLoop_encode:
  assumes "avail fs c (concat (map (dirEntryBytes base) cs) @ rest)"
    and "\<And>x. x \<in> set cs \<Longrightarrow> name_ok (nd_name x) \<and> nodeBlock x = b"
    and "int (group_bytes cs) \<le> remaining" "length out + length cs \<le> maxDirEntries"
  shows "\<exists>c'. dirEntriesLoop fs (ucast b) (sint base) (length cs) c remaining out None =
       (Inr (c', remaining - int (group_bytes cs), out @ map (entryOf base) cs), None) \<and> avail fs c' rest"
  using assms
proof (induction cs arbitrary: c remaining out)
  case Nil
  then show ?case by (simp add: dirEntriesLoop.simps)
next
  case (Cons x cs)
  let ?eh = "PutUint16 (ucast (nd_inodeRef x AND 0xFFFF)) @
     PutUint16 (word_of_int (uint (nd_inodeNum x) - uint base)) @
     PutUint16 (dirEntryType (nd_mode x)) @ PutUint16 (word_of_int (int (length (nd_name x)) - 1))"
  have x: "name_ok (nd_name x)" "nodeBlock x = b" using Cons.prems(2) by simp_all
  note nl = unat_name_field [OF x(1)]
  have "avail fs c (?eh @ nd_name x @ concat (map (dirEntryBytes base) cs) @ rest)"
    using Cons.prems(1) by (simp add: dirEntryBytes_def [of base x])
  from cur_read_append [OF this] obtain c1 where
    c1: "cur_read fs c 8 None = (Inr (?eh, c1), None)" "avail fs c1 (nd_name x @ concat (map (dirEntryBytes base) cs) @ rest)"
    by auto
  from cur_read_append [OF c1(2)] obtain c2 where
    c2: "cur_read fs c1 (length (nd_name x)) None = (Inr (nd_name x, c2), None)"
      "avail fs c2 (concat (map (dirEntryBytes base) cs) @ rest)"
    by auto
  have rem: "int (group_bytes cs) \<le> remaining - 8 - int (length (nd_name x))" using Cons.prems(3) by simp
  have "length (out @ [entryOf base x]) + length cs \<le> maxDirEntries" using Cons.prems(4) by simp
  from Cons.IH [OF c2(2) _ rem this] Cons.prems(2) obtain c' where
    IH: "dirEntriesLoop fs (ucast b) (sint base) (length cs) c2 (remaining - 8 - int (length (nd_name x)))
        (out @ [entryOf base x]) None =
      (Inr (c', remaining - 8 - int (length (nd_name x)) - int (group_bytes cs),
        (out @ [entryOf base x]) @ map (entryOf base) cs), None)" "avail fs c' rest"
    by auto
  have guards: "8 \<le> remaining" "int (length (nd_name x)) \<le> remaining - 8" "length (nd_name x) \<le> 256"
    "length out < maxDirEntries"
    using Cons.prems(3,4) x(1) by (auto simp: name_ok_def)
  have step: "dirEntriesLoop fs (ucast b) (sint base) (length (x # cs)) c remaining out None =
      dirEntriesLoop fs (ucast b) (sint base) (length cs) c2 (remaining - 8 - int (length (nd_name x)))
        (out @ [entryOf base x]) None"
    using guards c1(1) c2(1) nl x(2)
    by (simp add: dirEntriesLoop.simps(2) bindM_def Let_def entryOf_def not_less not_le)
  show ?case unfolding step IH(1) using IH(2) by (auto simp: algebra_simps)
qed

text \<open>The whole listing, header by header.\<close>

function listingEntries :: "node list \<Rightarrow> dirEntry list" where
  "listingEntries cs =
     (if cs = [] then []
      else map (entryOf (nd_inodeNum (hd cs))) (dirGroup cs) @ listingEntries (drop (length (dirGroup cs)) cs))"
  by pat_completeness auto
termination by (relation "measure length") (auto simp: dirGroup_nonempty)

declare listingEntries.simps [simp del]

lemma dirGroup_facts:
  assumes "cs \<noteq> []"
  shows "hd (dirGroup cs) = hd cs" "dirGroup cs \<noteq> []" "length (dirGroup cs) \<le> 256"
    "x \<in> set (dirGroup cs) \<Longrightarrow> x \<in> set cs \<and> nodeBlock x = nodeBlock (hd cs)"
    "dirGroup cs @ drop (length (dirGroup cs)) cs = cs"
proof -
  show "dirGroup cs \<noteq> []" using assms by (rule dirGroup_nonempty)
  show "hd (dirGroup cs) = hd cs" using assms by (cases cs) (simp_all add: dirGroup_def)
  show "length (dirGroup cs) \<le> 256"
    using length_takeWhile_le [of "\<lambda>c. nodeBlock c = nodeBlock (hd cs)" "take 256 cs"]
    unfolding dirGroup_def by simp
  show "x \<in> set (dirGroup cs) \<Longrightarrow> x \<in> set cs \<and> nodeBlock x = nodeBlock (hd cs)"
    unfolding dirGroup_def by (metis in_set_takeD set_takeWhileD)
  have "dirGroup cs = take (length (dirGroup cs)) cs"
    unfolding dirGroup_def by (metis (no_types) length_takeWhile_le takeWhile_eq_take take_take min.absorb1
        length_take min.bounded_iff)
  then show "dirGroup cs @ drop (length (dirGroup cs)) cs = cs"
    by (metis append_take_drop_id)
qed

lemma length_listingEntries: "length (listingEntries cs) = length cs"
proof (induction cs rule: listingEntries.induct)
  case (1 cs)
  then show ?case
    using dirGroup_facts(5) [of cs] by (cases "cs = []") 
      (auto simp: listingEntries.simps [of cs] listingEntries.simps [of "[]"] dest: arg_cong [of _ _ length])
qed

lemma count_field: "\<lbrakk>0 < n; n \<le> 256\<rbrakk> \<Longrightarrow> unat (of_nat n - 1 :: u32) + 1 = n"
proof (cases n)
  case (Suc m)
  assume "n \<le> 256"
  with Suc have "unat (of_nat m :: u32) = m" by (simp add: unat_of_nat)
  moreover from Suc have "(of_nat n - 1 :: u32) = of_nat m" by simp
  ultimately show ?thesis using Suc by (simp only:)
qed simp

text \<open>One round of the outer loop consumes the header of a group and its entries.\<close>

lemma dirHeadersLoop_group:
  assumes "avail fs c ((PutUint32 (of_nat (length g) - 1) @ PutUint32 b @ PutUint32 base) @
      concat (map (dirEntryBytes base) g) @ rest)"
    and g: "0 < length g" "length g \<le> 256" "\<And>x. x \<in> set g \<Longrightarrow> name_ok (nd_name x) \<and> nodeBlock x = b"
    and rem: "int (group_bytes g) \<le> remaining - 12" "length out + length g \<le> maxDirEntries"
  obtains c2 where "avail fs c2 rest" "dirHeadersLoop fs c remaining out None =
     dirHeadersLoop fs c2 (remaining - 12 - int (group_bytes g)) (out @ map (entryOf base) g) None"
proof -
  let ?h = "PutUint32 (of_nat (length g) - 1) @ PutUint32 b @ PutUint32 base"
  from cur_read_append [OF assms(1)] obtain c1 where
    c1: "cur_read fs c 12 None = (Inr (?h, c1), None)" "avail fs c1 (concat (map (dirEntryBytes base) g) @ rest)" by auto
  from dirEntriesLoop_encode [OF c1(2) g(3) rem] obtain c2 where
    c2: "dirEntriesLoop fs (ucast b) (sint base) (length g) c1 (remaining - 12) out None =
      (Inr (c2, remaining - 12 - int (group_bytes g), out @ map (entryOf base) g), None)" "avail fs c2 rest" by blast
  have "12 \<le> remaining" using rem(1) by linarith
  with c1(1) c2(1) count_field [OF g(1,2)] g(2) have "dirHeadersLoop fs c remaining out None =
     dirHeadersLoop fs c2 (remaining - 12 - int (group_bytes g)) (out @ map (entryOf base) g) None"
    by (subst dirHeadersLoop.simps) (simp add: Let_def)
  with that c2(2) show thesis by blast
qed

lemma dirHeadersLoop_encode:
  assumes "avail fs c (buildDirListing cs @ rest)"
    and "\<And>x. x \<in> set cs \<Longrightarrow> name_ok (nd_name x)"
    and "remaining = int (length (buildDirListing cs))" "length out + length cs \<le> maxDirEntries"
  shows "dirHeadersLoop fs c remaining out None = (Inr (out @ listingEntries cs), None)"
  using assms
proof (induction cs arbitrary: c remaining out rule: buildDirListing.induct)
  case (1 cs)
  show ?case
  proof (cases "cs = []")
    case True
    with 1 show ?thesis by (simp add: buildDirListing.simps listingEntries.simps dirHeadersLoop.simps)
  next
    case False
    define g where "g = dirGroup cs"
    define tl_cs where "tl_cs = drop (length g) cs"
    define base where "base = nd_inodeNum (hd cs)"
    note facts = dirGroup_facts [OF False, folded g_def]
    have bd: "buildDirListing cs = (PutUint32 (of_nat (length g) - 1) @ PutUint32 (nodeBlock (hd cs)) @ PutUint32 base) @
        concat (map (dirEntryBytes base) g) @ buildDirListing tl_cs"
      using False facts(1) by (simp add: buildDirListing.simps [of cs] dirGroupBytes_def g_def tl_cs_def base_def)
    have lcs: "length cs = length g + length tl_cs" using facts(5) by (metis length_append tl_cs_def)
    have rem: "remaining = 12 + int (group_bytes g) + int (length (buildDirListing tl_cs))"
      using "1.prems"(3) by (simp add: bd length_group)
    have "avail fs c ((PutUint32 (of_nat (length g) - 1) @ PutUint32 (nodeBlock (hd cs)) @ PutUint32 base) @
        concat (map (dirEntryBytes base) g) @ buildDirListing tl_cs @ rest)"
      using "1.prems"(1) by (simp add: bd)
    moreover have "0 < length g" "length g \<le> 256" using facts(2,3) by auto
    moreover have "name_ok (nd_name x) \<and> nodeBlock x = nodeBlock (hd cs)" if "x \<in> set g" for x
      using facts(4) [OF that] "1.prems"(2) by blast
    moreover have "int (group_bytes g) \<le> remaining - 12" "length out + length g \<le> maxDirEntries"
      using rem "1.prems"(4) lcs by simp_all
    ultimately obtain c2 where c2: "avail fs c2 (buildDirListing tl_cs @ rest)" "dirHeadersLoop fs c remaining out None =
        dirHeadersLoop fs c2 (remaining - 12 - int (group_bytes g)) (out @ map (entryOf base) g) None"
      by (rule dirHeadersLoop_group)
    have "dirHeadersLoop fs c2 (remaining - 12 - int (group_bytes g)) (out @ map (entryOf base) g) None =
        (Inr ((out @ map (entryOf base) g) @ listingEntries tl_cs), None)"
    proof (rule "1.IH" [OF False, folded g_def, folded tl_cs_def, OF c2(1)])
      show "name_ok (nd_name x)" if "x \<in> set tl_cs" for x
        using that "1.prems"(2) by (metis tl_cs_def in_set_dropD)
    qed (use "1.prems"(4) rem lcs in simp_all)
    with c2(2) False show ?thesis by (simp add: listingEntries.simps [of cs] g_def tl_cs_def base_def)
  qed
qed

text \<open>What the entries say: names and types in order, and references, which are 48-bit.\<close>

lemma ref_recompose:
  assumes "unat (ref :: u64) < 2 ^ 48"
  shows "push_bit 16 (ucast (ucast (drop_bit 16 ref) :: u32)) OR ucast (ucast (ref AND 0xFFFF) :: u16) = ref"
proof -
  have "unat (take_bit 48 ref) = unat ref"
    using assms by (simp only: unsigned_take_bit_eq take_bit_nat_eq_self)
  then have "take_bit 48 ref = ref" by (rule unsigned_word_eqI)
  then have b: "bit ref k \<Longrightarrow> k < 48" for k by (metis bit_take_bit_iff)
  have m: "ref AND 0xFFFF = take_bit 16 ref" by (simp add: take_bit_eq_mask mask_numeral)
  show ?thesis
    unfolding m by (rule bit_word_eqI) (auto simp: bit_simps dest: b)
qed

lemma listingEntries_map:
  assumes "\<And>base x. x \<in> set cs \<Longrightarrow> f (entryOf base x) = g x"
  shows "map f (listingEntries cs) = map g cs"
  using assms
proof (induction cs rule: listingEntries.induct)
  case (1 cs)
  show ?case
  proof (cases "cs = []")
    case True
    then show ?thesis by (simp add: listingEntries.simps)
  next
    case False
    note facts = dirGroup_facts [OF False]
    have "map f (listingEntries (drop (length (dirGroup cs)) cs)) = map g (drop (length (dirGroup cs)) cs)"
      using "1.IH" [OF False] "1.prems" in_set_dropD by metis
    moreover have "map f (map (entryOf (nd_inodeNum (hd cs))) (dirGroup cs)) = map g (dirGroup cs)"
      using "1.prems" facts(4) by simp
    ultimately have "map f (listingEntries cs) = map g (dirGroup cs @ drop (length (dirGroup cs)) cs)"
      using False by (simp add: listingEntries.simps [of cs])
    then show ?thesis by (simp only: facts(5))
  qed
qed

lemma listingEntries_facts:
  "map de_Name (listingEntries cs) = map nd_name cs"
  "map de_Type (listingEntries cs) = map (\<lambda>c. dirEntryType (nd_mode c)) cs"
  "(\<And>x. x \<in> set cs \<Longrightarrow> unat (nd_inodeRef x) < 2 ^ 48) \<Longrightarrow> map de_InodeRef (listingEntries cs) = map nd_inodeRef cs"
  by (rule listingEntries_map; simp add: entryOf_def nodeBlock_def ref_recompose)+

lemma length_buildDirListing:
  shows "length cs \<le> length (buildDirListing cs)"
    "length (buildDirListing cs) \<le> (\<Sum>c\<leftarrow>cs. 20 + length (nd_name c))"
proof -
  have "group_bytes cs \<le> length (buildDirListing cs) \<and> length (buildDirListing cs) \<le> (\<Sum>c\<leftarrow>cs. 20 + length (nd_name c))"
  proof (induction cs rule: buildDirListing.induct)
    case (1 cs)
    show ?case
    proof (cases "cs = []")
      case True
      then show ?thesis by (simp add: buildDirListing.simps)
    next
      case False
      define g where "g = dirGroup cs"
      define r where "r = drop (length g) cs"
      note facts = dirGroup_facts [OF False, folded g_def, folded r_def]
      have gb: "group_bytes cs = group_bytes g + group_bytes r"
        using arg_cong [OF facts(5), of group_bytes] by (simp add: group_bytes_def)
      have sm: "(\<Sum>c\<leftarrow>cs. 20 + length (nd_name c)) = (\<Sum>c\<leftarrow>g. 20 + length (nd_name c)) + (\<Sum>c\<leftarrow>r. 20 + length (nd_name c))"
        using arg_cong [OF facts(5), of "\<lambda>cs. \<Sum>c\<leftarrow>cs. 20 + length (nd_name c)"] by simp
      have "12 + group_bytes g \<le> (\<Sum>c\<leftarrow>g. 20 + length (nd_name c))"
      proof -
        have "(\<Sum>c\<leftarrow>g. 20 + length (nd_name c)) = group_bytes g + 12 * length g"
          by (induction g) simp_all
        moreover have "1 \<le> length g" using facts(2) by (cases g) simp_all
        ultimately show ?thesis by simp
      qed
      moreover have "length (buildDirListing cs) = 12 + group_bytes g + length (buildDirListing r)"
        using False by (simp add: buildDirListing.simps [of cs] dirGroupBytes_def length_group g_def r_def)
      ultimately show ?thesis
        using "1.IH" [OF False, folded g_def, folded r_def] gb sm by simp
    qed
  qed
  moreover have "length cs \<le> group_bytes cs" by (induction cs) simp_all
  ultimately show "length cs \<le> length (buildDirListing cs)"
    "length (buildDirListing cs) \<le> (\<Sum>c\<leftarrow>cs. 20 + length (nd_name c))" by simp_all
qed

definition dir_cursor :: "FS \<Rightarrow> u32 \<Rightarrow> u16 \<Rightarrow> bytes \<Rightarrow> bool" where
  "dir_cursor fs dirBlock dirOffset bs \<longleftrightarrow>
     (\<exists>c. newMetaCursor fs (sb_DirTableStart (fs_sb fs) + ucast dirBlock) (unat dirOffset) None = (Inr c, None) \<and>
        avail fs c bs)"

lemma readDir_listing:
  assumes cur: "cs \<noteq> [] \<Longrightarrow> dir_cursor fs dirBlock dirOffset (buildDirListing cs @ rest)"
    and names: "\<And>x. x \<in> set cs \<Longrightarrow> name_ok (nd_name x)"
    and len: "length (buildDirListing cs) + 3 < 2 ^ 16"
  shows "readDir fs (dirInode mode num dirBlock (length (buildDirListing cs)) dirOffset) None =
     (Inr (listingEntries cs), None)"
proof (cases "cs = []")
  case True
  then show ?thesis by (simp add: readDir_def dirInode_def buildDirListing.simps listingEntries.simps)
next
  case False
  let ?n = "length (buildDirListing cs)"
  have "0 < ?n" using length_buildDirListing(1) [of cs] False by (cases cs) auto
  have un: "unat (of_nat ?n :: u64) = ?n" using len by (simp add: unat_of_nat63)
  with \<open>0 < ?n\<close> have nz: "(of_nat ?n :: u64) \<noteq> 0" by (metis less_irrefl unat_0)
  have "sint (of_nat ?n :: u64) = int (unat (of_nat ?n :: u64))"
    using len un by (simp add: sint64_eq)
  then have si: "sint (of_nat ?n :: u64) = int ?n" unfolding un .
  obtain c where c: "newMetaCursor fs (sb_DirTableStart (fs_sb fs) + ucast dirBlock) (unat dirOffset) None = (Inr c, None)"
    "avail fs c (buildDirListing cs @ rest)"
    using cur [OF False] by (auto simp: dir_cursor_def)
  have "length [] + length cs \<le> maxDirEntries"
    using length_buildDirListing(1) [of cs] len by (simp add: maxDirEntries_def)
  from dirHeadersLoop_encode [OF c(2) names refl this] c(1) nz si show ?thesis
    by (simp add: readDir_def dirInode_def bindM_def)
qed

end
