(* ===== verification/FileReadback.thy ===== *)
theory FileReadback
  imports InodeReadback
begin

text \<open>
  Reading back the contents of a file: its full blocks, and its tail in a shared
  fragment block.
\<close>

section \<open>Writers with the same configuration\<close>

definition same_codec :: "imageWriter \<Rightarrow> imageWriter \<Rightarrow> bool" where
  "same_codec a b \<longleftrightarrow> iw_comp a = iw_comp b \<and> iw_opts a = iw_opts b \<and> iw_blockSize a = iw_blockSize b"

lemma same_codec_refl [simp]: "same_codec a a"
  by (simp add: same_codec_def)

lemma same_codec_compress: "same_codec a b \<Longrightarrow> iw_compress a = iw_compress b"
  by (simp add: same_codec_def iw_compress_def fun_eq_iff)

lemma same_codec_meta: "same_codec a b \<Longrightarrow> metaBlockBytes a = metaBlockBytes b"
  by (simp add: metaBlockBytes_def fun_eq_iff same_codec_compress) (simp add: same_codec_def)

lemma same_codec_data: "same_codec a b \<Longrightarrow> data_has a = data_has b"
  by (simp add: data_has_def fun_eq_iff same_codec_compress) (simp add: same_codec_def)

lemma same_codec_mw_write: "same_codec a b \<Longrightarrow> mw_write a = mw_write b"
  by (simp add: mw_write_def fun_eq_iff mw_drain_eq same_codec_meta)

lemma same_codec_mw_finish: "same_codec a b \<Longrightarrow> mw_finish a = mw_finish b"
  by (simp add: mw_finish_def mw_emit_def fun_eq_iff same_codec_meta)

lemma same_codec_mw_of: "same_codec a b \<Longrightarrow> mw_of a = mw_of b"
  by (simp add: mw_of_def fun_eq_iff same_codec_meta)

abbreviation defBS :: nat where "defBS \<equiv> 131072"

lemma unat_defaultBlockSize: "unat defaultBlockSize = defBS"
  by (simp add: defaultBlockSize_def)


section \<open>Full blocks\<close>

fun blocks_at :: "imageWriter \<Rightarrow> bytes \<Rightarrow> u64 \<Rightarrow> u32 list \<Rightarrow> bytes \<Rightarrow> bool" where
  "blocks_at iw data off [] d = (d = [])"
| "blocks_at iw data off (sz # szs) d =
     (d \<noteq> [] \<and> data_has iw data off sz (take defBS d) \<and>
      blocks_at iw data (off + blockOnDiskBytes sz) szs (drop defBS d))"

lemma same_codec_blocks: "same_codec a b \<Longrightarrow> blocks_at a data off szs d = blocks_at b data off szs d"
  by (induction szs arbitrary: off d) (simp_all add: same_codec_data)

lemma blocks_at_append: "blocks_at iw data off szs d \<Longrightarrow> blocks_at iw (data @ ext) off szs d"
  by (induction szs arbitrary: off d) (auto intro: data_has_append)

lemma blocks_at_patch:
  "\<lbrakk>blocks_at iw data off szs d; length sb = superblockSize\<rbrakk>
    \<Longrightarrow> blocks_at iw (sb @ drop superblockSize data) off szs d"
  by (induction szs arbitrary: off d) (auto intro: data_has_patch)

lemma blocks_at_length: "blocks_at iw data off szs d \<Longrightarrow> length szs = (length d + (defBS - 1)) div defBS"
proof (induction szs arbitrary: off d)
  case (Cons sz szs)
  then have d: "d \<noteq> []" and IH: "length szs = (length (drop defBS d) + (defBS - 1)) div defBS" by auto
  show ?case
  proof (cases "defBS \<le> length d")
    case True
    then obtain k where "length d = k + defBS" by (metis add.commute le_Suc_ex)
    with IH show ?thesis by simp
  next
    case False
    moreover have "Suc 0 \<le> length d" using d by (simp add: Suc_le_eq)
    ultimately have "(length d + (defBS - 1)) div defBS = 1"
      by (intro div_nat_eqI) auto
    with False IH show ?thesis by simp
  qed
qed simp

lemma iw_compress_le: "iw_compress iw p r = (stored, compressed) \<Longrightarrow> length stored \<le> length p"
  by (auto simp: iw_compress_def split: if_splits option.splits sum.splits)

lemma writeDataBlock_state:
  assumes "writeDataBlock iw block = (sz, iw')"
  shows "\<exists>stored. iw' = iw\<lparr>iw_data := iw_data iw @ stored\<rparr>"
    and "length block < 2 ^ 24 \<Longrightarrow>
      of_nat (length (iw_data iw')) = of_nat (length (iw_data iw)) + blockOnDiskBytes sz"
proof -
  obtain stored compressed where c: "iw_compress iw block (bo_Uncompressed (iw_opts iw)) = (stored, compressed)"
    by fastforce
  with assms have iw': "iw' = iw\<lparr>iw_data := iw_data iw @ stored\<rparr>"
    and sz: "sz = (if compressed then of_nat (length stored) else of_nat (length stored) OR dataUncompressedBit)"
    by (auto simp: writeDataBlock_def Let_def)
  show "\<exists>stored. iw' = iw\<lparr>iw_data := iw_data iw @ stored\<rparr>" using iw' by blast
  assume "length block < 2 ^ 24"
  then have "length stored < 2 ^ 24" using iw_compress_le [OF c] by simp
  from sizeWord_bits(1,2) [OF this] show
    "of_nat (length (iw_data iw')) = of_nat (length (iw_data iw)) + blockOnDiskBytes sz"
    using sz iw' by simp
qed

lemma writeBlocks_spec:
  assumes "writeBlocks iw d = (szs, iw')" "superblockSize \<le> length (iw_data iw)"
    "iw_blockSize iw = defaultBlockSize"
  shows "(\<exists>ext. iw' = iw\<lparr>iw_data := iw_data iw @ ext\<rparr>) \<and>
    blocks_at iw (iw_data iw') (of_nat (length (iw_data iw))) szs d"
  using assms
proof (induction iw d arbitrary: szs iw' rule: writeBlocks.induct)
  case (1 iw d)
  have bs: "unat (iw_blockSize iw) = defBS" using 1(4) by (simp add: unat_defaultBlockSize)
  have nz: "iw_blockSize iw \<noteq> 0" using 1(4) by (simp add: defaultBlockSize_def)
  show ?case
  proof (cases "d = []")
    case True
    with 1(2) show ?thesis by (auto simp: writeBlocks.simps intro: exI [of _ "[]"])
  next
    case False
    obtain sz iw1 where w: "writeDataBlock iw (take defBS d) = (sz, iw1)" by fastforce
    obtain szs2 iw2 where r: "writeBlocks iw1 (drop defBS d) = (szs2, iw2)" by fastforce
    from 1(2) w r False nz have res: "szs = sz # szs2" "iw' = iw2"
      by (auto simp: writeBlocks.simps [of iw d] bs)
    obtain stored where iw1: "iw1 = iw\<lparr>iw_data := iw_data iw @ stored\<rparr>"
      using writeDataBlock_state(1) [OF w] by blast
    have sc: "same_codec iw1 iw" by (simp add: iw1 same_codec_def)
    have "length (take defBS d) < 2 ^ 24" by simp
    note adv = writeDataBlock_state(2) [OF w this]
    have "\<not> (d = [] \<or> iw_blockSize iw = 0)" using False nz by simp
    from 1(1) [OF this, of sz iw1 szs2 iw2] w r 1(3,4) iw1
    obtain ext where ext: "iw2 = iw1\<lparr>iw_data := iw_data iw1 @ ext\<rparr>"
      and bl: "blocks_at iw1 (iw_data iw2) (of_nat (length (iw_data iw1))) szs2 (drop defBS d)"
      by (auto simp: bs unat_defaultBlockSize)
    have "data_has iw (iw_data iw2) (of_nat (length (iw_data iw))) sz (take defBS d)"
      using data_has_append [OF writeDataBlock_has [OF w 1(3)]] by (simp add: ext)
    moreover have "blocks_at iw (iw_data iw2) (of_nat (length (iw_data iw)) + blockOnDiskBytes sz) szs2 (drop defBS d)"
    proof -
      from bl show ?thesis unfolding adv using same_codec_blocks [OF sc] by simp
    qed
    ultimately have "blocks_at iw (iw_data iw') (of_nat (length (iw_data iw))) szs d"
      using False res by simp
    moreover have "iw' = iw\<lparr>iw_data := iw_data iw @ (stored @ ext)\<rparr>" using res ext iw1 by simp
    ultimately show ?thesis by blast
  qed
qed

text \<open>The reader's two passes over the block list of such a file.\<close>

lemma block_piece_facts:
  assumes fs: "reads_image fs iw img" and has: "data_has iw img off sz (take defBS d)" and d: "d \<noteq> []"
  shows "readBlock fs off sz None = (Inr (take defBS d), None)" "blockOnDiskBytes sz \<noteq> 0"
    "\<not> ucast (sb_BlockSize (fs_sb fs)) <s blockOnDiskBytes sz" "checkExtent fs off (blockOnDiskBytes sz) = Inr ()"
proof -
  have t: "take defBS d \<noteq> []" "length (take defBS d) \<le> unat defaultBlockSize"
    using d by (simp_all add: unat_defaultBlockSize)
  note r = readBlock_data_has [OF fs has t]
  show "readBlock fs off sz None = (Inr (take defBS d), None)" "blockOnDiskBytes sz \<noteq> 0" using r by simp_all
  then show "\<not> ucast (sb_BlockSize (fs_sb fs)) <s blockOnDiskBytes sz"
    "checkExtent fs off (blockOnDiskBytes sz) = Inr ()"
    by (auto simp: readBlock_def blockOnDiskSize_def bindM_eq_Inr split: if_splits)
qed

lemma checkExtents_blocks:
  "\<lbrakk>reads_image fs iw img; blocks_at iw img off szs d\<rbrakk> \<Longrightarrow> checkExtents fs off szs = Inr ()"
proof (induction szs arbitrary: off d)
  case (Cons sz szs)
  from Cons.prems have h: "data_has iw img off sz (take defBS d)" "d \<noteq> []"
    and rest: "blocks_at iw img (off + blockOnDiskBytes sz) szs (drop defBS d)" by simp_all
  from block_piece_facts [OF Cons.prems(1) h] Cons.IH [OF Cons.prems(1) rest] show ?case
    by (simp add: Let_def)
qed simp

lemma assembleBlocks_blocks:
  assumes "reads_image fs iw img" "blocks_at iw img off szs d"
    and "length d = rm \<or> defBS dvd length d \<and> length d \<le> rm"
  shows "assembleBlocks fs off rm szs out None = (Inr (rm - length d, out @ d), None)"
  using assms
proof (induction szs arbitrary: off d rm out)
  case (Cons sz szs)
  from Cons.prems have h: "data_has iw img off sz (take defBS d)" "d \<noteq> []"
    and rest: "blocks_at iw img (off + blockOnDiskBytes sz) szs (drop defBS d)" by simp_all
  have bs: "unat (sb_BlockSize (fs_sb fs)) = defBS"
    using Cons.prems(1) by (simp add: reads_image_def unat_defaultBlockSize)
  note b = block_piece_facts [OF Cons.prems(1) h]
  define want where "want = min defBS rm"
  have w: "want = length (take defBS d)" and rm: "length (drop defBS d) = rm - want \<or>
      defBS dvd length (drop defBS d) \<and> length (drop defBS d) \<le> rm - want"
  proof -
    have "w = length (take defBS d) \<and> (length (drop defBS d) = rm - w \<or>
      defBS dvd length (drop defBS d) \<and> length (drop defBS d) \<le> rm - w)" if "w = min defBS rm" for w
    proof (cases "defBS \<le> length d")
      case True
      with Cons.prems(3) have "defBS \<le> rm" by linarith
      then have "w = defBS" using that by simp
      with True Cons.prems(3) show ?thesis by (auto intro: dvd_diff_nat)
    next
      case False
      then have "\<not> defBS dvd length d" using h(2) by (auto dest: dvd_imp_le)
      with Cons.prems(3) have "length d = rm" by blast
      with False that show ?thesis by simp
    qed
    from this [OF want_def] show "want = length (take defBS d)" "length (drop defBS d) = rm - want \<or>
      defBS dvd length (drop defBS d) \<and> length (drop defBS d) \<le> rm - want" by blast+
  qed
  have step: "assembleBlocks fs off rm (sz # szs) out None =
      assembleBlocks fs (off + blockOnDiskBytes sz) (rm - want) szs (out @ blk) None" if "blk = take defBS d" for blk
    using b w unfolding that [symmetric] by (simp add: Let_def bs bindM_def flip: want_def)
  have "assembleBlocks fs off rm (sz # szs) out None =
      assembleBlocks fs (off + blockOnDiskBytes sz) (rm - want) szs (out @ take defBS d) None"
    by (rule step) (rule refl)
  also have "\<dots> = (Inr (rm - want - length (drop defBS d), (out @ take defBS d) @ drop defBS d), None)"
    by (rule Cons.IH [OF Cons.prems(1) rest rm])
  finally show ?case using w by simp
qed simp


section \<open>Whole files\<close>

text \<open>
  \<open>slice_of X o t\<close>: the bytes \<open>t\<close> lie at offset \<open>o\<close> of the block \<open>X\<close>.
  \<open>file_ok\<close>: the content of a file is its blocks in the image, and possibly a
  tail in one of the fragment blocks \<open>F\<close>.
\<close>

definition slice_of :: "bytes \<Rightarrow> nat \<Rightarrow> bytes \<Rightarrow> bool" where
  "slice_of X o_b t \<longleftrightarrow> o_b + length t \<le> length X \<and> take (length t) (drop o_b X) = t"

definition file_ok ::
  "imageWriter \<Rightarrow> bytes \<Rightarrow> (nat \<Rightarrow> bytes option) \<Rightarrow> bytes \<Rightarrow> u64 \<Rightarrow> u32 \<Rightarrow> u32 \<Rightarrow> u32 list \<Rightarrow> bool" where
  "file_ok iw data F content bstart fragIdx fragOffset szs \<longleftrightarrow>
     (\<exists>full t. content = full @ t \<and> blocks_at iw data bstart szs full \<and>
        (t = [] \<and> fragIdx = invalidFrag \<or>
         t \<noteq> [] \<and> defBS dvd length full \<and> length t < defBS \<and>
           (\<exists>k X o_b. F k = Some X \<and> fragIdx = of_nat k \<and> fragOffset = of_nat o_b \<and>
              o_b < 2 ^ 32 \<and> slice_of X o_b t)))"

lemma file_okE:
  assumes "file_ok iw data F content bstart fragIdx fragOffset szs"
  obtains (whole) "blocks_at iw data bstart szs content" "fragIdx = invalidFrag"
  | (tail) full t k X o_b where "content = full @ t" "blocks_at iw data bstart szs full" "t \<noteq> []"
      "defBS dvd length full" "length t < defBS" "F k = Some X" "fragIdx = of_nat k"
      "fragOffset = of_nat o_b" "o_b < 2 ^ 32" "slice_of X o_b t"
  using assms unfolding file_ok_def by (elim exE conjE disjE) simp_all

lemma file_ok_wholeI:
  "blocks_at iw data bstart szs content \<Longrightarrow> fragIdx = invalidFrag \<Longrightarrow>
    file_ok iw data F content bstart fragIdx fragOffset szs"
  unfolding file_ok_def by (intro exI [of _ content] exI [of _ "[]"]) simp

lemma file_ok_tailI:
  assumes "blocks_at iw data bstart szs full" "t \<noteq> []" "defBS dvd length full" "length t < defBS"
    "F k = Some X" "fragIdx = of_nat k" "fragOffset = of_nat o_b" "o_b < 2 ^ 32" "slice_of X o_b t"
    "content = full @ t"
  shows "file_ok iw data F content bstart fragIdx fragOffset szs"
proof -
  have "\<exists>k X o_b. F k = Some X \<and> fragIdx = of_nat k \<and> fragOffset = of_nat o_b \<and> o_b < 2 ^ 32 \<and> slice_of X o_b t"
    using assms(5-9) by blast
  with assms(1-4,10) have "\<exists>t. content = full @ t \<and> blocks_at iw data bstart szs full \<and>
      (t = [] \<and> fragIdx = invalidFrag \<or> t \<noteq> [] \<and> defBS dvd length full \<and> length t < defBS \<and>
        (\<exists>k X o_b. F k = Some X \<and> fragIdx = of_nat k \<and> fragOffset = of_nat o_b \<and> o_b < 2 ^ 32 \<and> slice_of X o_b t))"
    by (intro exI [of _ t]) simp
  then show ?thesis unfolding file_ok_def by (rule exI)
qed

text \<open>Fragment indices stay below the marker for "no fragment".\<close>

definition frag_small :: "(nat \<Rightarrow> bytes option) \<Rightarrow> bool" where
  "frag_small F \<longleftrightarrow> (\<forall>k X. F k = Some X \<longrightarrow> k < 2 ^ 32 - 1)"

definition makeBytes_ok :: "makeBytesFn \<Rightarrow> bool" where
  "makeBytes_ok mk \<longleftrightarrow> (\<forall>n m. 0 \<le>s n \<longrightarrow> n \<le>s m \<longrightarrow> (\<exists>b. mk n m = Inr b))"

lemma not_invalidFrag: "k < 2 ^ 32 - 1 \<Longrightarrow> (of_nat k :: u32) \<noteq> invalidFrag"
proof
  assume k: "k < 2 ^ 32 - 1" and eq: "(of_nat k :: u32) = invalidFrag"
  have "unat (of_nat k :: u32) = k" using k by (simp add: unat_of_nat)
  moreover have "unat invalidFrag = 2 ^ 32 - 1" by (simp add: invalidFrag_def)
  ultimately show False using k eq by simp
qed

lemma le_div_up:
  fixes b :: nat
  assumes "0 < b"
  shows "n \<le> ((n + (b - 1)) div b + 1) * b"
proof -
  have "n < b + n div b * b" by (rule dividend_less_div_times [OF assms])
  moreover have "n div b * b \<le> (n + (b - 1)) div b * b" by (intro mult_le_mono1 div_le_mono) simp
  moreover have "((n + (b - 1)) div b + 1) * b = (n + (b - 1)) div b * b + b" by (rule distrib_right [THEN trans]) simp
  ultimately show ?thesis by linarith
qed

lemma file_ok_count:
  assumes ok: "file_ok iw data F content bstart fragIdx fragOffset szs" and len: "length content < 2 ^ 32"
    and small: "frag_small F"
  shows "length szs = unat (blockCount (ucast (of_nat (length content) :: u32)) defaultBlockSize (fragIdx \<noteq> invalidFrag))"
    and "length szs \<le> 2 ^ 24" and "length content \<le> (length szs + 1) * defBS"
proof -
  define S :: u64 where "S = ucast (of_nat (length content) :: u32)"
  have S: "unat S = length content" using len by (simp add: S_def unat_of_nat)
  have B: "unat (ucast defaultBlockSize :: u64) = defBS" by (simp add: defaultBlockSize_def)
  from ok have main: "length szs = unat (blockCount S defaultBlockSize (fragIdx \<noteq> invalidFrag)) \<and>
      length content \<le> (length szs + 1) * defBS \<and> length szs \<le> (length content + (defBS - 1)) div defBS"
  proof (cases rule: file_okE)
    case whole
    have n: "length szs = (length content + (defBS - 1)) div defBS" using blocks_at_length [OF whole(1)] .
    have "S + ucast defaultBlockSize - 1 = of_nat (length content + (defBS - 1))"
    proof -
      have "S = of_nat (length content)" using S by (metis of_nat_unat ucast_id)
      moreover have "(ucast defaultBlockSize :: u64) = of_nat defBS" by (simp add: defaultBlockSize_def)
      ultimately show ?thesis by simp
    qed
    moreover have "unat (of_nat (length content + (defBS - 1)) :: u64) = length content + (defBS - 1)"
      using len by (intro unat_of_nat63) simp
    ultimately have "unat ((S + ucast defaultBlockSize - 1) div ucast defaultBlockSize) = (length content + (defBS - 1)) div defBS"
      by (simp only: unat_div B)
    moreover have "length content \<le> ((length content + (defBS - 1)) div defBS + 1) * defBS"
      by (rule le_div_up) simp
    ultimately show ?thesis using whole(2) n by (simp add: blockCount_def)
  next
    case (tail full t k X o_b)
    note n = blocks_at_length [OF tail(2)]
    from tail(4) obtain q where q: "length full = defBS * q" by (elim dvdE)
    have "length szs = q" using n q by simp
    moreover have "length content div defBS = q" using tail(1,5) q by simp
    moreover have "fragIdx \<noteq> invalidFrag" using tail(6,7) small not_invalidFrag by (simp add: frag_small_def)
    ultimately show ?thesis
      using tail(1,5) q S by (auto simp: blockCount_def unat_div unat_defaultBlockSize intro: div_le_mono)
  qed
  then show "length szs = unat (blockCount (ucast (of_nat (length content) :: u32)) defaultBlockSize (fragIdx \<noteq> invalidFrag))"
    and "length content \<le> (length szs + 1) * defBS" by (simp_all add: S_def)
  have "length content + (defBS - 1) < 2 ^ 33" using len by simp
  then have "(length content + (defBS - 1)) div defBS < 2 ^ 16" by (simp add: div_less_iff_less_mult)
  then show "length szs \<le> 2 ^ 24" using main by simp
qed

text \<open>
  Whatever fragments \<open>F\<close> names are read by their index; then a file that is laid
  out as \<open>file_ok\<close> says is read back, if it is not above the ceiling.
\<close>

definition frags_read :: "FS \<Rightarrow> (nat \<Rightarrow> bytes option) \<Rightarrow> bool" where
  "frags_read fs F \<longleftrightarrow> (\<forall>k X. F k = Some X \<longrightarrow> readFragment fs (of_nat k) None = (Inr X, None))"

lemma maxFileBytes_ok:
  assumes "length content \<le> (length (in_blockSizes i) + 1) * defBS" "length (in_blockSizes i) \<le> 2 ^ 24"
    "in_Size i = of_nat (length content)" "length content < 2 ^ 32" "sb_BlockSize (fs_sb fs) = defaultBlockSize"
  shows "in_Size i \<le> maxFileBytes fs i" "0 \<le>s in_Size i" "in_Size i \<le>s maxFileBytes fs i"
proof -
  let ?n = "(length (in_blockSizes i) + 1) * defBS"
  have m: "maxFileBytes fs i = of_nat ?n" by (simp add: maxFileBytes_def assms(5) defaultBlockSize_def)
  have n: "?n < 2 ^ 63" using assms(2) by simp
  have u: "unat (maxFileBytes fs i) = ?n" unfolding m using n by (rule unat_of_nat63)
  have s: "unat (in_Size i) = length content" using assms(3,4) by (simp add: unat_of_nat63)
  show "in_Size i \<le> maxFileBytes fs i" unfolding word_le_nat_alt u s by (rule assms(1))
  show "0 \<le>s in_Size i" using sle_small [of 0 "in_Size i"] s assms(4) by simp
  show "in_Size i \<le>s maxFileBytes fs i"
    using sle_small [of "in_Size i" "maxFileBytes fs i"] u s n assms(1,4) by simp
qed

lemma readFileLimit_file_ok:
  assumes fs: "reads_image fs iw img" and ok: "file_ok iw img F content (ucast bstart) fragIdx fragOffset szs"
    and fr: "frags_read fs F" and small: "frag_small F" and mk: "makeBytes_ok mk" and len: "length content < 2 ^ 32"
    and lim: "0 \<le>s maxLen \<Longrightarrow> of_nat (length content) \<le> maxLen"
  shows "readFileLimit mk fs (fileInode mode num bstart fragIdx fragOffset (of_nat (length content)) szs) maxLen None =
     (Inr content, None)"
proof -
  let ?i = "fileInode mode num bstart fragIdx fragOffset (of_nat (length content)) szs"
  have bs: "sb_BlockSize (fs_sb fs) = defaultBlockSize" using fs by (simp add: reads_image_def)
  have size: "in_Size ?i = of_nat (length content)"
    using len by (simp add: fileInode_def unsigned_of_nat take_bit_nat_eq_self)
  have us: "unat (in_Size ?i) = length content" using size len by (simp add: unat_of_nat63)
  have f: "in_blockSizes ?i = szs" "in_blocksStart ?i = ucast bstart" "in_fragIdx ?i = fragIdx" "in_fragOffset ?i = fragOffset"
    by (simp_all add: fileInode_def)
  note cnt = file_ok_count [OF ok len small]
  note mb = maxFileBytes_ok [of content ?i fs, unfolded f, OF cnt(3,2) size len bs]
  obtain b where b: "mk (in_Size ?i) (maxFileBytes fs ?i) = Inr b" using mk mb(2,3) by (auto simp: makeBytes_ok_def)
  have main: "checkExtents fs (ucast bstart) szs = Inr () \<and>
    bindM (assembleBlocks fs (ucast bstart) (length content) szs [])
      (\<lambda>(remaining, out). appendFragment fs ?i remaining out) None = (Inr content, None)"
    using ok
  proof (cases rule: file_okE)
    case whole
    then show ?thesis
      using checkExtents_blocks [OF fs whole(1)] assembleBlocks_blocks [OF fs whole(1), of "length content" "[]"]
      by (simp add: bindM_def appendFragment_def)
  next
    case (tail full t k X o_b)
    have "readFragment fs fragIdx None = (Inr X, None)" using fr tail(6,7) by (simp add: frags_read_def)
    moreover have "fragIdx \<noteq> invalidFrag" using tail(6,7) small not_invalidFrag by (simp add: frag_small_def)
    moreover have "unat fragOffset = o_b" using tail(8,9) by (simp add: unat_of_nat)
    moreover have "length t \<noteq> 0" using tail(3) by simp
    ultimately have "appendFragment fs ?i (length t) full None = (Inr (full @ t), None)"
      using tail(10) by (simp add: appendFragment_def f bindM_def Let_def slice_of_def)
    then show ?thesis
      using checkExtents_blocks [OF fs tail(2)] assembleBlocks_blocks [OF fs tail(2), of "length content" "[]"] tail(1,4)
      by (simp add: bindM_def)
  qed
  have lim': "\<not> (0 \<le>s maxLen \<and> in_Size ?i > maxLen)" using lim size by auto
  show ?thesis
    unfolding readFileLimit_def f us using main mb(1) lim' b us
    by (auto simp: bindM_def not_less split: prod.splits sum.splits)
qed

text \<open>Later writes keep a file's layout.\<close>

lemma slice_of_append: "slice_of X o_b t \<Longrightarrow> slice_of (X @ Y) o_b t"
  by (auto simp: slice_of_def)

lemma file_ok_mono:
  assumes "file_ok iw data F content bstart fragIdx fragOffset szs"
    and "\<And>k X. F k = Some X \<Longrightarrow> \<exists>Y. F' k = Some (X @ Y)"
  shows "file_ok iw (data @ ext) F' content bstart fragIdx fragOffset szs"
  using assms(1)
proof (cases rule: file_okE)
  case whole
  then show ?thesis by (intro file_ok_wholeI blocks_at_append)
next
  case (tail full t k X o_b)
  obtain Y where "F' k = Some (X @ Y)" using assms(2) [OF tail(6)] by blast
  then show ?thesis
    by (rule file_ok_tailI [OF blocks_at_append [OF tail(2)] tail(3-5) _ tail(7-9) slice_of_append [OF tail(10)] tail(1)])
qed

lemma file_ok_patch:
  assumes "file_ok iw data F content bstart fragIdx fragOffset szs" "length sb = superblockSize"
  shows "file_ok iw (sb @ drop superblockSize data) F content bstart fragIdx fragOffset szs"
  using assms blocks_at_patch unfolding file_ok_def by blast

end
