(* ===== verification/TreeEmission.thy ===== *)
theory TreeEmission
  imports FileReadback "HOL-Library.Sublist"
begin

text \<open>
  The invariant of the image writer while it emits a tree. A ghost record holds
  what the writer's buffers stand for: the bytes written to the inode and
  directory tables and the contents of the fragment blocks flushed so far. Every
  operation extends the state; a node, once emitted, stays placed.
\<close>

section \<open>Writer states\<close>

record ghost =
  g_li :: bytes
  g_ld :: bytes
  g_frags :: "bytes list"
  g_ext :: "(nat \<times> nat) list"

text \<open>
  The extents written so far, as offset and stored length: none is empty, none
  reaches past the end, no two start at the same offset.
\<close>

definition ext_ok :: "nat \<Rightarrow> (nat \<times> nat) list \<Rightarrow> bool" where
  "ext_ok n E \<longleftrightarrow> distinct (map fst E) \<and> (\<forall>(o_b, l) \<in> set E. 0 < l \<and> o_b + l \<le> n)"

definition stored_len :: "u32 \<Rightarrow> nat" where
  "stored_len sz = unat (blockOnDiskBytes sz)"

fun extents_of :: "nat \<Rightarrow> u32 list \<Rightarrow> (nat \<times> nat) list" where
  "extents_of m [] = []"
| "extents_of m (sz # szs) = (m, stored_len sz) # extents_of (m + stored_len sz) szs"

lemma ext_ok_nil [simp]: "ext_ok n []"
  by (simp add: ext_ok_def)

lemma ext_ok_mono: "ext_ok n E \<Longrightarrow> n \<le> n' \<Longrightarrow> ext_ok n' E"
  by (fastforce simp: ext_ok_def)

lemma ext_ok_snoc: "ext_ok n E \<Longrightarrow> 0 < l \<Longrightarrow> ext_ok (n + l) (E @ [(n, l)])"
  by (fastforce simp: ext_ok_def)

lemma ext_ok_extents:
  "\<lbrakk>ext_ok n E; \<forall>sz\<in>set szs. 0 < stored_len sz\<rbrakk> \<Longrightarrow> ext_ok (n + (\<Sum>sz\<leftarrow>szs. stored_len sz)) (E @ extents_of n szs)"
proof (induction szs arbitrary: n E)
  case (Cons sz szs)
  then have "ext_ok (n + stored_len sz) (E @ [(n, stored_len sz)])" by (simp add: ext_ok_snoc)
  from Cons.IH [OF this] Cons.prems(2) show ?case by (simp add: add.assoc)
qed simp

text \<open>The content of fragment block \<open>k\<close>: flushed, or the block being filled.\<close>

definition fragAt :: "imageWriter \<Rightarrow> ghost \<Rightarrow> nat \<Rightarrow> bytes option" where
  "fragAt iw G k =
     (if k < length (g_frags G) then Some (g_frags G ! k)
      else if k = length (g_frags G) \<and> iw_fragBuf iw \<noteq> [] then Some (iw_fragBuf iw)
      else None)"

definition ginv :: "imageWriter \<Rightarrow> imageWriter \<Rightarrow> ghost \<Rightarrow> bool" where
  "ginv w iw G \<longleftrightarrow>
     same_codec iw w \<and> iw_blockSize w = defaultBlockSize \<and> superblockSize \<le> length (iw_data iw) \<and>
     iw_inodes iw = mw_of w (g_li G) \<and> iw_dirs iw = mw_of w (g_ld G) \<and>
     length (iw_fragBuf iw) \<le> defBS \<and>
     length (iw_fragEntries iw) = length (g_frags G) \<and> length (g_frags G) \<le> length (iw_data iw) \<and>
     (\<forall>k < length (g_frags G). g_frags G ! k \<noteq> [] \<and> length (g_frags G ! k) \<le> defBS \<and>
        data_has w (iw_data iw) (fe_start (iw_fragEntries iw ! k)) (fe_sizeWord (iw_fragEntries iw ! k))
          (g_frags G ! k)) \<and>
     ext_ok (length (iw_data iw)) (g_ext G) \<and>
     (\<forall>k < length (g_frags G). \<exists>m. fe_start (iw_fragEntries iw ! k) = of_nat m \<and>
        (m, stored_len (fe_sizeWord (iw_fragEntries iw ! k))) \<in> set (g_ext G))"

definition gext :: "imageWriter \<Rightarrow> ghost \<Rightarrow> imageWriter \<Rightarrow> ghost \<Rightarrow> bool" where
  "gext iw G iw' G' \<longleftrightarrow>
     prefix (iw_data iw) (iw_data iw') \<and> prefix (g_li G) (g_li G') \<and> prefix (g_ld G) (g_ld G') \<and>
     set (g_ext G) \<subseteq> set (g_ext G') \<and>
     (\<forall>k X. fragAt iw G k = Some X \<longrightarrow> (\<exists>Y. fragAt iw' G' k = Some (X @ Y)))"

lemma gext_refl [simp]: "gext iw G iw G"
  by (auto simp: gext_def intro: exI [of _ "[]"])

lemma gext_trans: "\<lbrakk>gext a A b B; gext b B c C\<rbrakk> \<Longrightarrow> gext a A c C"
  unfolding gext_def by (metis append.assoc prefix_order.trans subset_trans)

lemma ginvD:
  assumes "ginv w iw G"
  shows "same_codec iw w" "iw_blockSize iw = defaultBlockSize" "superblockSize \<le> length (iw_data iw)"
    "iw_inodes iw = mw_of w (g_li G)" "iw_dirs iw = mw_of w (g_ld G)" "length (iw_fragBuf iw) \<le> defBS"
    "length (iw_fragEntries iw) = length (g_frags G)" "iw_blockSize w = defaultBlockSize"
  using assms by (simp_all add: ginv_def same_codec_def)

text \<open>Steps that only append to the data, or touch none of the tracked fields.\<close>

lemma ginv_data:
  assumes inv: "ginv w iw G" and ext: "ext_ok (length (iw_data iw @ x)) (g_ext G @ E)"
  shows "ginv w (iw\<lparr>iw_data := iw_data iw @ x\<rparr>) (G\<lparr>g_ext := g_ext G @ E\<rparr>) \<and>
    gext iw G (iw\<lparr>iw_data := iw_data iw @ x\<rparr>) (G\<lparr>g_ext := g_ext G @ E\<rparr>)"
proof -
  have "\<exists>m. fe_start (iw_fragEntries iw ! k) = of_nat m \<and>
      ((m, stored_len (fe_sizeWord (iw_fragEntries iw ! k))) \<in> set (g_ext G) \<or>
       (m, stored_len (fe_sizeWord (iw_fragEntries iw ! k))) \<in> set E)" if "k < length (g_frags G)" for k
    using inv that by (auto simp: ginv_def)
  then show ?thesis
    using inv ext by (auto simp: ginv_def gext_def fragAt_def same_codec_def data_has_append intro: exI [of _ "[]"])
qed

lemma ginv_inodeNum:
  assumes "ginv w iw G"
  shows "ginv w (iw\<lparr>iw_inodeNum := x\<rparr>) G \<and> gext iw G (iw\<lparr>iw_inodeNum := x\<rparr>) G"
  using assms by (auto simp: ginv_def gext_def fragAt_def same_codec_def intro: exI [of _ "[]"])

lemma ginv_inodes:
  assumes "ginv w iw G"
  shows "ginv w (iw\<lparr>iw_inodes := mw_write iw (iw_inodes iw) x\<rparr>) (G\<lparr>g_li := g_li G @ x\<rparr>) \<and>
    gext iw G (iw\<lparr>iw_inodes := mw_write iw (iw_inodes iw) x\<rparr>) (G\<lparr>g_li := g_li G @ x\<rparr>)"
proof -
  have "mw_write iw (iw_inodes iw) x = mw_of w (g_li G @ x)"
    using ginvD [OF assms] same_codec_mw_write [of iw w] by (simp add: mw_write_of)
  then show ?thesis
    using assms by (auto simp: ginv_def gext_def fragAt_def same_codec_def intro: exI [of _ "[]"])
qed

lemma ginv_dirs:
  assumes "ginv w iw G"
  shows "ginv w (iw\<lparr>iw_dirs := mw_write iw (iw_dirs iw) x\<rparr>) (G\<lparr>g_ld := g_ld G @ x\<rparr>) \<and>
    gext iw G (iw\<lparr>iw_dirs := mw_write iw (iw_dirs iw) x\<rparr>) (G\<lparr>g_ld := g_ld G @ x\<rparr>)"
proof -
  have "mw_write iw (iw_dirs iw) x = mw_of w (g_ld G @ x)"
    using ginvD [OF assms] same_codec_mw_write [of iw w] by (simp add: mw_write_of)
  then show ?thesis
    using assms by (auto simp: ginv_def gext_def fragAt_def same_codec_def intro: exI [of _ "[]"])
qed

text \<open>Flushing the fragment block turns its pending content into an entry.\<close>

lemma writeDataBlock_grows:
  assumes "writeDataBlock iw block = (sz, iw')" "codec_agrees iw d" "block \<noteq> []" "length block \<le> 2 ^ 20"
  shows "0 < stored_len sz" "length (iw_data iw') = length (iw_data iw) + stored_len sz"
proof -
  obtain stored compressed where c: "iw_compress iw block (bo_Uncompressed (iw_opts iw)) = (stored, compressed)"
    by fastforce
  with assms(1) have iw': "iw' = iw\<lparr>iw_data := iw_data iw @ stored\<rparr>"
    and sz: "sz = (if compressed then of_nat (length stored) else of_nat (length stored) OR dataUncompressedBit)"
    by (auto simp: writeDataBlock_def Let_def)
  note st = iw_compress_cases(1,2) [OF c assms(2-4)]
  have "length stored < 2 ^ 24" using st(2) assms(4) by simp
  from sizeWord_bits(1,2) [OF this] sz have "blockOnDiskBytes sz = of_nat (length stored)" by simp
  then have "stored_len sz = length stored" using \<open>length stored < 2 ^ 24\<close> by (simp add: stored_len_def unat_of_nat63)
  with st(1) iw' show "0 < stored_len sz" "length (iw_data iw') = length (iw_data iw) + stored_len sz" by simp_all
qed

lemma codec_agrees_same: "same_codec a b \<Longrightarrow> codec_agrees b d \<Longrightarrow> codec_agrees a d"
  by (simp add: codec_agrees_def same_codec_def)

lemma writeBlocks_grows:
  assumes "writeBlocks iw d_b = (szs, iw')" "codec_agrees iw d" "iw_blockSize iw = defaultBlockSize"
  shows "length (iw_data iw') = length (iw_data iw) + (\<Sum>sz\<leftarrow>szs. stored_len sz) \<and> (\<forall>sz\<in>set szs. 0 < stored_len sz)"
  using assms
proof (induction iw d_b arbitrary: szs iw' rule: writeBlocks.induct)
  case (1 iw d_b)
  have bs: "unat (iw_blockSize iw) = defBS" using 1(4) by (simp add: unat_defaultBlockSize)
  show ?case
  proof (cases "d_b = [] \<or> iw_blockSize iw = 0")
    case True
    with 1(2) show ?thesis by (auto simp: writeBlocks.simps [of iw d_b])
  next
    case False
    obtain sz iw1 where w: "writeDataBlock iw (take defBS d_b) = (sz, iw1)" by fastforce
    obtain szs2 iw2 where r: "writeBlocks iw1 (drop defBS d_b) = (szs2, iw2)" by fastforce
    from 1(2) w r False have res: "szs = sz # szs2" "iw' = iw2"
      by (auto simp: writeBlocks.simps [of iw d_b] bs)
    obtain stored where iw1: "iw1 = iw\<lparr>iw_data := iw_data iw @ stored\<rparr>"
      using writeDataBlock_state(1) [OF w] by blast
    have "take defBS d_b \<noteq> []" "length (take defBS d_b) \<le> 2 ^ 20" using False by simp_all
    note g = writeDataBlock_grows [OF w 1(3) this]
    have "codec_agrees iw1 d" "iw_blockSize iw1 = defaultBlockSize" using 1(3,4) by (simp_all add: iw1 codec_agrees_def)
    from 1(1) [OF False, of sz iw1 szs2 iw2] w r this
    have "length (iw_data iw2) = length (iw_data iw1) + (\<Sum>sz\<leftarrow>szs2. stored_len sz) \<and> (\<forall>sz\<in>set szs2. 0 < stored_len sz)"
      by (simp add: bs)
    with g show ?thesis unfolding res by simp
  qed
qed

lemma flushFragment_ghost:
  assumes inv: "ginv w iw G" and codec: "codec_agrees w d"
  shows "\<exists>G'. ginv w (flushFragment iw) G' \<and> gext iw G (flushFragment iw) G' \<and>
    iw_fragBuf (flushFragment iw) = [] \<and> g_li G' = g_li G \<and> g_ld G' = g_ld G"
proof (cases "iw_fragBuf iw = []")
  case True
  with inv show ?thesis by (auto simp: flushFragment_def intro!: exI [of _ G])
next
  case False
  obtain sz iw1 where w: "writeDataBlock iw (iw_fragBuf iw) = (sz, iw1)" by fastforce
  obtain stored where iw1: "iw1 = iw\<lparr>iw_data := iw_data iw @ stored\<rparr>"
    using writeDataBlock_state(1) [OF w] by blast
  note D = ginvD [OF inv]
  have "codec_agrees iw d" by (rule codec_agrees_same [OF D(1) codec])
  note grow = writeDataBlock_grows [OF w this False]
  have b20: "length (iw_fragBuf iw) \<le> 2 ^ 20" using D(6) by simp
  let ?e = "\<lparr>fe_start = of_nat (length (iw_data iw)), fe_sizeWord = sz\<rparr>"
  let ?iw' = "iw1\<lparr>iw_fragEntries := iw_fragEntries iw1 @ [?e], iw_fragBuf := []\<rparr>"
  let ?G' = "G\<lparr>g_frags := g_frags G @ [iw_fragBuf iw], g_ext := g_ext G @ [(length (iw_data iw), stored_len sz)]\<rparr>"
  have fl: "flushFragment iw = ?iw'" using False w by (simp add: flushFragment_def)
  have new: "data_has w (iw_data iw @ stored) (of_nat (length (iw_data iw))) sz (iw_fragBuf iw)"
    using writeDataBlock_has [OF w D(3)] same_codec_data [OF D(1)] by (simp add: iw1)
  have "ginv w ?iw' ?G'"
    unfolding ginv_def
  proof (intro conjI allI impI)
    show "ext_ok (length (iw_data ?iw')) (g_ext ?G')"
      using inv grow [OF b20] by (simp add: ginv_def ext_ok_snoc)
  next
    have "length (g_frags G) \<le> length (iw_data iw)" using inv by (simp add: ginv_def)
    then have "Suc (length (g_frags G)) \<le> length (iw_data iw1)" using grow [OF b20] by linarith
    then show "length (g_frags ?G') \<le> length (iw_data ?iw')" by simp
    fix k assume k: "k < length (g_frags ?G')"
    show "g_frags ?G' ! k \<noteq> []" "length (g_frags ?G' ! k) \<le> defBS"
      "data_has w (iw_data ?iw') (fe_start (iw_fragEntries ?iw' ! k)) (fe_sizeWord (iw_fragEntries ?iw' ! k)) (g_frags ?G' ! k)"
      using inv k False D(6) new by (auto simp: ginv_def nth_append iw1 less_Suc_eq intro: data_has_append)
    show "\<exists>m. fe_start (iw_fragEntries ?iw' ! k) = of_nat m \<and> (m, stored_len (fe_sizeWord (iw_fragEntries ?iw' ! k))) \<in> set (g_ext ?G')"
      using inv k by (auto simp: ginv_def nth_append iw1 less_Suc_eq)
  qed (use inv in \<open>simp_all add: ginv_def iw1 same_codec_def\<close>)
  moreover have "gext iw G ?iw' ?G'"
    by (auto simp: gext_def iw1 fragAt_def nth_append split: if_splits)
  ultimately show ?thesis unfolding fl by (intro exI [of _ ?G']) simp
qed

lemma addToFragment_ghost:
  assumes inv: "ginv w iw G" and codec: "codec_agrees w d" and t: "t \<noteq> []" "length t < defBS"
    and add: "addToFragment iw t = (idx, offset, iw')"
  shows "\<exists>G'. ginv w iw' G' \<and> gext iw G iw' G' \<and> g_li G' = g_li G \<and> g_ld G' = g_ld G \<and>
    (\<exists>k X o_b. fragAt iw' G' k = Some X \<and> idx = of_nat k \<and> offset = of_nat o_b \<and> o_b < 2 ^ 32 \<and> slice_of X o_b t)"
proof -
  note D = ginvD [OF inv]
  have bs: "unat (iw_blockSize iw) = defBS" using D(2) by (simp add: unat_defaultBlockSize)
  define iw1 where "iw1 = (if length (iw_fragBuf iw) + length t > defBS then flushFragment iw else iw)"
  obtain G1 where G1: "ginv w iw1 G1" "gext iw G iw1 G1" "g_li G1 = g_li G" "g_ld G1 = g_ld G"
    "length (iw_fragBuf iw1) + length t \<le> defBS"
  proof (cases "length (iw_fragBuf iw) + length t > defBS")
    case True
    with flushFragment_ghost [OF inv codec] t that show thesis by (auto simp: iw1_def)
  next
    case False
    with inv that [of G] show thesis by (simp add: iw1_def)
  qed
  let ?iw' = "iw1\<lparr>iw_fragBuf := iw_fragBuf iw1 @ t\<rparr>"
  from add have res: "idx = of_nat (length (iw_fragEntries iw1))" "offset = of_nat (length (iw_fragBuf iw1))" "iw' = ?iw'"
    by (auto simp: addToFragment_def bs iw1_def Let_def)
  have "ginv w ?iw' G1" using G1(1,5) by (simp add: ginv_def same_codec_def)
  moreover have "gext iw1 G1 ?iw' G1"
    using t(1) by (auto simp: gext_def fragAt_def intro: exI [of _ "[]"])
  then have "gext iw G ?iw' G1" using G1(2) by (rule gext_trans [rotated])
  moreover have "\<exists>k X o_b. fragAt ?iw' G1 k = Some X \<and> idx = of_nat k \<and> offset = of_nat o_b \<and>
      o_b < 2 ^ 32 \<and> slice_of X o_b t"
    using t(1) res(1,2) ginvD(7) [OF G1(1)] G1(5)
    by (intro exI [where x = "length (g_frags G1)"] exI [where x = "iw_fragBuf iw1 @ t"]
        exI [where x = "length (iw_fragBuf iw1)"]) (simp add: fragAt_def slice_of_def)
  ultimately show ?thesis
    using G1(3,4) res(3) by (intro exI [where x = G1]) simp
qed


section \<open>Emitted nodes\<close>

text \<open>\<open>at_ref w log ref bs\<close>: the reference handed out when \<open>bs\<close> was written to the table.\<close>

definition at_ref :: "imageWriter \<Rightarrow> bytes \<Rightarrow> u64 \<Rightarrow> bytes \<Rightarrow> bool" where
  "at_ref w log ref bs \<longleftrightarrow> (\<exists>a b. log = a @ bs @ b \<and> ref = mw_ref (mw_of w a))"

lemma at_ref_prefix: "at_ref w log ref bs \<Longrightarrow> prefix log log' \<Longrightarrow> at_ref w log' ref bs"
  unfolding at_ref_def prefix_def by (metis append.assoc)

lemma at_ref_end: "at_ref w (a @ bs) (mw_ref (mw_of w a)) bs"
  unfolding at_ref_def by (metis append_Nil2)

text \<open>
  \<open>placed\<close>: the inode of the node, its content or its listing, and those of all
  nodes below it, are where its reference and its inode say.
\<close>

definition file_placed ::
  "imageWriter \<Rightarrow> bytes \<Rightarrow> (nat \<Rightarrow> bytes option) \<Rightarrow> (nat \<times> nat) list \<Rightarrow> bytes \<Rightarrow> u16 \<Rightarrow> bytes \<Rightarrow> u64 \<Rightarrow> u32 \<Rightarrow> bool" where
  "file_placed w data F E li mode content ref num \<longleftrightarrow>
     (\<exists>m fragIdx fragOffset szs.
        at_ref w li ref (fileInodeBytes mode num (ucast (of_nat m :: u64)) fragIdx fragOffset
          (of_nat (length content)) szs) \<and>
        m \<le> length data \<and> file_ok w data F content (of_nat m) fragIdx fragOffset szs \<and>
        set (extents_of m szs) \<subseteq> set E)"

definition dir_placed :: "imageWriter \<Rightarrow> bytes \<Rightarrow> bytes \<Rightarrow> u16 \<Rightarrow> node list \<Rightarrow> u64 \<Rightarrow> u32 \<Rightarrow> bool" where
  "dir_placed w li ld mode cs ref num \<longleftrightarrow>
     (\<exists>dref. at_ref w ld dref (buildDirListing cs) \<and>
        at_ref w li ref (dirInodeBytes mode num (ucast (drop_bit 16 dref)) (length cs)
          (length (buildDirListing cs)) (ucast (dref AND 0xFFFF))))"

fun placed :: "imageWriter \<Rightarrow> bytes \<Rightarrow> (nat \<Rightarrow> bytes option) \<Rightarrow> (nat \<times> nat) list \<Rightarrow> bytes \<Rightarrow> bytes \<Rightarrow> node \<Rightarrow> bool" where
  "placed w data F E li ld (Node name mode uid gid target content cs ref num) =
     (if mode AND 0xF000 = sIFDIR then
        dir_placed w li ld mode cs ref num \<and> (\<forall>c\<in>set cs. placed w data F E li ld c)
      else if mode AND 0xF000 = sIFLNK then at_ref w li ref (symlinkInodeBytes mode num target)
      else file_placed w data F E li mode content ref num)"

definition placed_in :: "imageWriter \<Rightarrow> imageWriter \<Rightarrow> ghost \<Rightarrow> node \<Rightarrow> bool" where
  "placed_in w iw G n = placed w (iw_data iw) (fragAt iw G) (g_ext G) (g_li G) (g_ld G) n"

lemma file_placed_mono:
  assumes "file_placed w data F E li mode content ref num" "prefix li li'"
    and "\<And>k X. F k = Some X \<Longrightarrow> \<exists>Y. F' k = Some (X @ Y)"
    and "set E \<subseteq> set E'"
  shows "file_placed w (data @ ext) F' E' li' mode content ref num"
proof -
  from assms(1) obtain m fragIdx fragOffset szs where
    r: "at_ref w li ref (fileInodeBytes mode num (ucast (of_nat m :: u64)) fragIdx fragOffset (of_nat (length content)) szs)"
      "m \<le> length data" "set (extents_of m szs) \<subseteq> set E" and ok: "file_ok w data F content (of_nat m) fragIdx fragOffset szs"
    unfolding file_placed_def by blast
  have "file_ok w (data @ ext) F' content (of_nat m) fragIdx fragOffset szs"
    using ok assms(3) by (rule file_ok_mono)
  moreover have "m \<le> length (data @ ext)" using r(2) by simp
  ultimately show ?thesis
    using at_ref_prefix [OF r(1) assms(2)] subset_trans [OF r(3) assms(4)] unfolding file_placed_def by blast
qed

lemma placed_mono:
  assumes "placed w data F E li ld n" "prefix data data'" "prefix li li'" "prefix ld ld'"
    and "\<And>k X. F k = Some X \<Longrightarrow> \<exists>Y. F' k = Some (X @ Y)"
    and "set E \<subseteq> set E'"
  shows "placed w data' F' E' li' ld' n"
  using assms
proof (induction n)
  case (Node name mode uid gid target content cs ref num)
  show ?case
  proof (cases "mode AND 0xF000 = sIFDIR")
    case True
    then have "dir_placed w li ld mode cs ref num" "\<forall>c\<in>set cs. placed w data' F' E' li' ld' c"
      using Node.prems(1) Node.IH [OF _ _ Node.prems(2-6)] by auto
    then show ?thesis using True Node.prems(3,4) by (auto simp: dir_placed_def intro: at_ref_prefix)
  next
    case dir: False
    show ?thesis
    proof (cases "mode AND 0xF000 = sIFLNK")
      case True
      with dir Node.prems(1) at_ref_prefix [OF _ Node.prems(3)] show ?thesis by simp
    next
      case False
      obtain ext where ext: "data' = data @ ext" using Node.prems(2) by (auto simp: prefix_def)
      from dir False Node.prems(1) have "file_placed w data F E li mode content ref num" by simp
      then have "file_placed w data' F' E' li' mode content ref num"
        using Node.prems(3,5,6) unfolding ext by (rule file_placed_mono)
      with dir False show ?thesis by simp
    qed
  qed
qed

lemma placed_in_gext: "placed_in w iw G n \<Longrightarrow> gext iw G iw' G' \<Longrightarrow> placed_in w iw' G' n"
  unfolding placed_in_def gext_def by (elim conjE) (erule placed_mono; blast)

text \<open>What emission keeps of a node: all but the references, with the children sorted by name.\<close>

inductive emitted :: "node \<Rightarrow> node \<Rightarrow> bool" where
  dir: "\<lbrakk>mode AND 0xF000 = sIFDIR; list_all2 emitted cs cs'\<rbrakk>
    \<Longrightarrow> emitted (Node name mode uid gid target content cs ref num)
          (Node name mode uid gid target content (sort_key nd_name cs') ref' num')"
| leaf: "mode AND 0xF000 \<noteq> sIFDIR
    \<Longrightarrow> emitted (Node name mode uid gid target content cs ref num)
          (Node name mode uid gid target content cs ref' num')"


text \<open>One node, each kind.\<close>

text \<open>The blocks and the tail of a file, before its inode.\<close>

lemma fileData_ghost:
  assumes inv: "ginv w iw G" and codec: "codec_agrees w d"
    and fl_def: "fl = (if \<not> bo_NoFragments (iw_opts iw) then length x div defBS * defBS else length x)"
    and wb: "writeBlocks iw (take fl x) = (szs, iw1)"
    and fr: "(if \<not> bo_NoFragments (iw_opts iw) \<and> fl < length x then addToFragment iw1 (drop fl x)
       else (invalidFrag, 0, iw1)) = (fragIdx, fragOffset, iw2)"
  shows "\<exists>G2. ginv w iw2 G2 \<and> gext iw G iw2 G2 \<and> set (extents_of (length (iw_data iw)) szs) \<subseteq> set (g_ext G2) \<and>
    file_ok w (iw_data iw2) (fragAt iw2 G2) x (of_nat (length (iw_data iw))) fragIdx fragOffset szs"
proof -
  note D = ginvD [OF inv]
  define m where "m = length (iw_data iw)"
  obtain ext where iw1: "iw1 = iw\<lparr>iw_data := iw_data iw @ ext\<rparr>"
    and bl: "blocks_at w (iw_data iw1) (of_nat m) szs (take fl x)"
    using writeBlocks_spec [OF wb D(3,2)] same_codec_blocks [OF D(1)] by (auto simp: m_def)
  let ?G1 = "G\<lparr>g_ext := g_ext G @ extents_of m szs\<rparr>"
  have "codec_agrees iw d" by (rule codec_agrees_same [OF D(1) codec])
  from writeBlocks_grows [OF wb this D(2)] have "ext_ok (length (iw_data iw1)) (g_ext G @ extents_of m szs)"
    using inv ext_ok_extents [of m "g_ext G" szs] by (simp add: ginv_def m_def)
  then have g1: "ginv w iw1 ?G1" "gext iw G iw1 ?G1" using ginv_data [OF inv] unfolding iw1 by simp_all
  show ?thesis
  proof (cases "\<not> bo_NoFragments (iw_opts iw) \<and> fl < length x")
    case True
    let ?t = "drop fl x"
    have fl: "fl = length x div defBS * defBS" using True by (simp add: fl_def)
    have t: "?t \<noteq> []" "length ?t < defBS" using True fl by (simp_all add: minus_div_mult_eq_mod)
    from fr True have add: "addToFragment iw1 ?t = (fragIdx, fragOffset, iw2)" by simp
    from addToFragment_ghost [OF g1(1) codec t add] obtain G2 k X o_b where
      g2: "ginv w iw2 G2" "gext iw1 ?G1 iw2 G2"
      and k: "fragAt iw2 G2 k = Some X" "fragIdx = of_nat k" "fragOffset = of_nat o_b" "o_b < 2 ^ 32" "slice_of X o_b ?t"
      by blast
    obtain ext2 where ext2: "iw_data iw2 = iw_data iw1 @ ext2" using g2(2) by (auto simp: gext_def prefix_def)
    have dv: "defBS dvd length (take fl x)" using True fl by simp
    have "file_ok w (iw_data iw2) (fragAt iw2 G2) x (of_nat m) fragIdx fragOffset szs"
      unfolding ext2
      by (rule file_ok_tailI [where F = "fragAt iw2 G2", OF blocks_at_append [OF bl] t(1) dv t(2) k]) simp
    moreover have "set (extents_of m szs) \<subseteq> set (g_ext G2)" using g2(2) by (auto simp: gext_def)
    ultimately show ?thesis using g2(1) gext_trans [OF g1(2) g2(2)] unfolding m_def by blast
  next
    case False
    then have "take fl x = x"
      using div_times_less_eq_dividend [of "length x" defBS] by (auto simp: fl_def split: if_splits)
    then have "file_ok w (iw_data iw1) (fragAt iw1 ?G1) x (of_nat m) invalidFrag 0 szs"
      using bl by (simp add: file_ok_wholeI)
    moreover have "fragIdx = invalidFrag" "fragOffset = 0" "iw2 = iw1" using fr False by auto
    ultimately show ?thesis using g1 unfolding m_def by (intro exI [of _ "G\<lparr>g_ext := g_ext G @ extents_of (length (iw_data iw)) szs\<rparr>"]) simp
  qed
qed

lemma emitFileInode_ghost:
  assumes inv: "ginv w iw G" and codec: "codec_agrees w d" and em: "emitFileInode iw n = Inr (n', iw')"
    and kind: "nd_mode n AND 0xF000 \<noteq> sIFDIR" "nd_mode n AND 0xF000 \<noteq> sIFLNK"
  shows "\<exists>G'. ginv w iw' G' \<and> gext iw G iw' G' \<and> placed_in w iw' G' n' \<and> emitted n n'"
proof -
  have bs: "unat (iw_blockSize iw) = defBS" using ginvD(2) [OF inv] by (simp add: unat_defaultBlockSize)
  define fl where "fl = (if \<not> bo_NoFragments (iw_opts iw) then length (nd_data n) div defBS * defBS else length (nd_data n))"
  define m where "m = length (iw_data iw)"
  obtain szs iw1 where wb: "writeBlocks iw (take fl (nd_data n)) = (szs, iw1)" by fastforce
  obtain fragIdx fragOffset iw2 where
    fr: "(if \<not> bo_NoFragments (iw_opts iw) \<and> fl < length (nd_data n) then addToFragment iw1 (drop fl (nd_data n))
       else (invalidFrag, 0, iw1)) = (fragIdx, fragOffset, iw2)" by (metis prod_cases3)
  from fileData_ghost [OF inv codec fl_def wb fr] obtain G2 where
    g2: "ginv w iw2 G2" "gext iw G iw2 G2" and ex: "set (extents_of m szs) \<subseteq> set (g_ext G2)"
    and ok: "file_ok w (iw_data iw2) (fragAt iw2 G2) (nd_data n) (of_nat m) fragIdx fragOffset szs"
    unfolding m_def by blast
  let ?iw3 = "iw2\<lparr>iw_inodeNum := iw_inodeNum iw2 + 1\<rparr>"
  let ?b = "fileInodeBytes (nd_mode n) (iw_inodeNum iw2 + 1) (ucast (of_nat m :: u64)) fragIdx fragOffset (of_nat (length (nd_data n))) szs"
  let ?iw4 = "?iw3\<lparr>iw_inodes := mw_write ?iw3 (iw_inodes ?iw3) ?b\<rparr>"
  let ?G = "G2\<lparr>g_li := g_li G2 @ ?b\<rparr>"
  note em' = em [unfolded emitFileInode_def Let_def bs, folded fl_def m_def, unfolded wb prod.case fr nextInode_def]
  from em' have res: "iw' = ?iw4"
    "n' = Node (nd_name n) (nd_mode n) (nd_uid n) (nd_gid n) (nd_target n) (nd_data n) (nd_children n)
       (mw_ref (iw_inodes iw2)) (iw_inodeNum iw2 + 1)"
    by simp_all
  note g3 = ginv_inodeNum [OF g2(1), of "iw_inodeNum iw2 + 1"]
  note g4 = ginv_inodes [OF conjunct1 [OF g3], of ?b]
  have "gext iw G ?iw4 ?G" using g2(2) g3 g4 by (meson gext_trans)
  moreover have "file_placed w (iw_data ?iw4) (fragAt ?iw4 ?G) (g_ext ?G) (g_li ?G) (nd_mode n) (nd_data n) (mw_ref (iw_inodes iw2)) (iw_inodeNum iw2 + 1)"
  proof -
    have "m \<le> length (iw_data iw2)" using g2(2) by (auto simp: gext_def m_def prefix_def)
    moreover have "at_ref w (g_li ?G) (mw_ref (iw_inodes iw2)) ?b"
      using ginvD(4) [OF g2(1)] at_ref_end by simp
    moreover have "fragAt ?iw4 ?G = fragAt iw2 G2" by (simp add: fragAt_def fun_eq_iff)
    ultimately show ?thesis using ok ex unfolding file_placed_def by auto
  qed
  then have "placed_in w ?iw4 ?G n'" using kind by (simp add: placed_in_def res)
  moreover have "emitted n n'" using kind(1) unfolding res by (cases n) (auto intro: emitted.leaf)
  ultimately show ?thesis using g4 unfolding res(1) by blast
qed

lemma emitSymlinkInode_ghost:
  assumes inv: "ginv w iw G" and em: "emitSymlinkInode iw n = (n', iw')"
    and kind: "nd_mode n AND 0xF000 \<noteq> sIFDIR" "nd_mode n AND 0xF000 = sIFLNK"
  shows "\<exists>G'. ginv w iw' G' \<and> gext iw G iw' G' \<and> placed_in w iw' G' n' \<and> emitted n n'"
proof -
  let ?num = "iw_inodeNum iw + 1"
  let ?iw1 = "iw\<lparr>iw_inodeNum := ?num\<rparr>"
  let ?b = "symlinkInodeBytes (nd_mode n) ?num (nd_target n)"
  let ?iw2 = "?iw1\<lparr>iw_inodes := mw_write ?iw1 (iw_inodes ?iw1) ?b\<rparr>"
  let ?G = "G\<lparr>g_li := g_li G @ ?b\<rparr>"
  from em have res: "iw' = ?iw2"
    "n' = Node (nd_name n) (nd_mode n) (nd_uid n) (nd_gid n) (nd_target n) (nd_data n) (nd_children n)
       (mw_ref (iw_inodes iw)) ?num"
    by (simp_all add: emitSymlinkInode_def nextInode_def Let_def)
  note g1 = ginv_inodeNum [OF inv, of ?num]
  note g2 = ginv_inodes [OF conjunct1 [OF g1], of ?b]
  have "gext iw G ?iw2 ?G" using g1 g2 by (meson gext_trans)
  moreover have "at_ref w (g_li ?G) (mw_ref (iw_inodes iw)) ?b"
    using ginvD(4) [OF inv] at_ref_end by simp
  then have "placed_in w ?iw2 ?G n'" using kind by (simp add: placed_in_def res)
  moreover have "emitted n n'" using kind(1) unfolding res by (cases n) (auto intro: emitted.leaf)
  ultimately show ?thesis using g2 unfolding res(1) by blast
qed

lemma emitDirInode_ghost:
  assumes inv: "ginv w iw G" and em: "emitDirInode iw n = Inr (n', iw')"
    and kind: "nd_mode n AND 0xF000 = sIFDIR"
    and cs: "\<And>c. c \<in> set (nd_children n) \<Longrightarrow> placed_in w iw G c"
  shows "\<exists>G'. ginv w iw' G' \<and> gext iw G iw' G' \<and> placed_in w iw' G' n'"
proof -
  let ?cs = "sort_key nd_name (nd_children n)"
  let ?l = "buildDirListing ?cs" and ?num = "iw_inodeNum iw + 1"
  let ?dref = "mw_ref (iw_dirs iw)" and ?ref = "mw_ref (iw_inodes iw)"
  let ?iw1 = "iw\<lparr>iw_dirs := mw_write iw (iw_dirs iw) ?l\<rparr>"
  let ?iw2 = "?iw1\<lparr>iw_inodeNum := ?num\<rparr>"
  let ?b = "dirInodeBytes (nd_mode n) ?num (ucast (drop_bit 16 ?dref)) (length ?cs) (length ?l) (ucast (?dref AND 0xFFFF))"
  let ?iw3 = "?iw2\<lparr>iw_inodes := mw_write ?iw2 (iw_inodes ?iw2) ?b\<rparr>"
  let ?G1 = "G\<lparr>g_ld := g_ld G @ ?l\<rparr>"
  let ?G = "?G1\<lparr>g_li := g_li ?G1 @ ?b\<rparr>"
  from em have res: "iw' = ?iw3"
    "n' = Node (nd_name n) (nd_mode n) (nd_uid n) (nd_gid n) (nd_target n) (nd_data n) ?cs ?ref ?num"
    by (simp_all add: emitDirInode_def nextInode_def Let_def)
  note g1 = ginv_dirs [OF inv, of ?l]
  note g2 = ginv_inodeNum [OF conjunct1 [OF g1], of ?num]
  note g3 = ginv_inodes [OF conjunct1 [OF g2], of ?b]
  have ext: "gext iw G ?iw3 ?G" using g1 g2 g3 by (meson gext_trans)
  have "at_ref w (g_li ?G) ?ref ?b" "at_ref w (g_ld ?G) ?dref ?l"
    using ginvD(4,5) [OF inv] at_ref_end by simp_all
  then have "dir_placed w (g_li ?G) (g_ld ?G) (nd_mode n) ?cs ?ref ?num" unfolding dir_placed_def by blast
  moreover have "placed w (iw_data ?iw3) (fragAt ?iw3 ?G) (g_ext ?G) (g_li ?G) (g_ld ?G) c" if "c \<in> set ?cs" for c
    using placed_in_gext [OF cs ext] that unfolding placed_in_def set_sort by blast
  ultimately have "placed_in w ?iw3 ?G n'"
    unfolding placed_in_def res placed.simps if_P [OF kind] by blast
  with ext g3 show ?thesis unfolding res(1) by blast
qed

text \<open>The whole tree: children first, in their order, then the directory.\<close>

lemma emitNode_ghost:
  assumes codec: "codec_agrees w d"
  shows "\<lbrakk>ginv w iw G; emitNode iw n = Inr (n', iw')\<rbrakk>
      \<Longrightarrow> \<exists>G'. ginv w iw' G' \<and> gext iw G iw' G' \<and> placed_in w iw' G' n' \<and> emitted n n'"
    and "\<lbrakk>ginv w iw G; emitNodes iw cs = Inr (cs', iw')\<rbrakk>
      \<Longrightarrow> \<exists>G'. ginv w iw' G' \<and> gext iw G iw' G' \<and> (\<forall>c\<in>set cs'. placed_in w iw' G' c) \<and> list_all2 emitted cs cs'"
proof (induction iw n and iw cs arbitrary: G n' iw' and G cs' iw' rule: emitNode_emitNodes.induct)
  case (1 iw name mode uid gid target content children ref num)
  let ?n = "\<lambda>cs. Node name mode uid gid target content cs ref num"
  show ?case
  proof (cases "mode AND 0xF000 = sIFDIR")
    case True
    obtain cs iw1 where cs: "emitNodes iw children = Inr (cs, iw1)"
      and em: "emitDirInode iw1 (Node name mode uid gid target content cs ref num) = Inr (n', iw')"
      by (rule emitNode_dirE [OF "1.prems"(2) True])
    from "1.IH" [OF True "1.prems"(1) cs] obtain G1 where
      g1: "ginv w iw1 G1" "gext iw G iw1 G1" "\<forall>c\<in>set cs. placed_in w iw1 G1 c" "list_all2 emitted children cs" by blast
    from emitDirInode_ghost [OF g1(1) em] True g1(3) obtain G' where
      g2: "ginv w iw' G'" "gext iw1 G1 iw' G'" "placed_in w iw' G' n'" by auto
    have "emitted (?n children) n'"
      using em True g1(4) by (auto simp: emitDirInode_def nextInode_def Let_def intro: emitted.dir)
    with g2 gext_trans [OF g1(2) g2(2)] show ?thesis by blast
  next
    case dir: False
    show ?thesis
    proof (cases "mode AND 0xF000 = sIFLNK")
      case True
      with dir "1.prems"(2) have "emitSymlinkInode iw (?n children) = (n', iw')" by simp
      from emitSymlinkInode_ghost [OF "1.prems"(1) this] dir True show ?thesis by simp
    next
      case False
      with dir "1.prems"(2) have "emitFileInode iw (?n children) = Inr (n', iw')" by simp
      from emitFileInode_ghost [OF "1.prems"(1) codec this] dir False show ?thesis by simp
    qed
  qed
next
  case (2 iw)
  then show ?case by (auto intro!: exI [of _ G])
next
  case (3 iw c cs)
  obtain c1 iw1 cs1 where c1: "emitNode iw c = Inr (c1, iw1)" and cs1: "emitNodes iw1 cs = Inr (cs1, iw')" and res: "cs' = c1 # cs1"
    by (rule emitNodes_ConsE [OF "3.prems"(2)])
  from "3.IH"(1) [OF "3.prems"(1) c1] obtain G1 where
    g1: "ginv w iw1 G1" "gext iw G iw1 G1" "placed_in w iw1 G1 c1" "emitted c c1" by blast
  from "3.IH"(2) [OF c1 refl g1(1) cs1] obtain G2 where
    g2: "ginv w iw' G2" "gext iw1 G1 iw' G2" "\<forall>c\<in>set cs1. placed_in w iw' G2 c" "list_all2 emitted cs cs1" by blast
  have "placed_in w iw' G2 c1" by (rule placed_in_gext [OF g1(3) g2(2)])
  with g1(4) g2 gext_trans [OF g1(2) g2(2)] show ?case unfolding res by auto
qed

end
