(* ===== verification/ImageHeader.thy ===== *)
theory ImageHeader
  imports FileReadback "HOL-Library.Multiset"
begin

text \<open>
  The numbering of inodes, and what the superblock of a finished image says of
  the image it heads.
\<close>

section \<open>What emission does to the writer\<close>

text \<open>
  A relation between the writer before and after that the three inode emitters
  satisfy, and that is a preorder, holds across the emission of a tree.
\<close>

locale emission_contract =
  fixes R :: "imageWriter \<Rightarrow> imageWriter \<Rightarrow> bool"
  assumes step_refl: "R iw iw"
    and step_trans: "\<lbrakk>R a b; R b c\<rbrakk> \<Longrightarrow> R a c"
    and file_step: "emitFileInode iw n = Inr (n', iw') \<Longrightarrow> R iw iw'"
    and symlink_step: "emitSymlinkInode iw n = (n', iw') \<Longrightarrow> R iw iw'"
    and dir_step: "emitDirInode iw n = Inr (n', iw') \<Longrightarrow> R iw iw'"
begin

lemma emission:
  "emitNode iw n = Inr (n', iw') \<Longrightarrow> R iw iw'"
  "emitNodes iw ns = Inr (ns', iw') \<Longrightarrow> R iw iw'"
  by (induction iw n and iw ns arbitrary: n' iw' and ns' iw' rule: emitNode_emitNodes.induct)
    (auto split: prod.splits sum.splits if_splits intro: step_refl step_trans dest: file_step symlink_step dir_step)

end

text \<open>
  The fields each operation changes. Writing blocks of a file appends to the
  image; adding to a fragment may also close a fragment block; an inode gets the
  next number and the reference of the writer's position, and takes at least 24
  bytes of the inode table.
\<close>

lemma writeDataBlock_eq: "writeDataBlock iw b = (sz, iw') \<Longrightarrow> \<exists>ext. iw' = iw\<lparr>iw_data := iw_data iw @ ext\<rparr>"
  by (auto simp: writeDataBlock_def Let_def split: prod.splits)

lemma writeBlocks_eq: "writeBlocks iw d = (szs, iw') \<Longrightarrow> \<exists>ext. iw' = iw\<lparr>iw_data := iw_data iw @ ext\<rparr>"
proof (induction iw d arbitrary: szs iw' rule: writeBlocks.induct)
  case (1 iw d)
  show ?case
  proof (cases "d = [] \<or> iw_blockSize iw = 0")
    case True
    with "1.prems" show ?thesis by (intro exI [of _ "[]"]) (auto simp: writeBlocks.simps)
  next
    case False
    with "1.prems" obtain sz iw1 szs' where w:
      "writeDataBlock iw (take (unat (iw_blockSize iw)) d) = (sz, iw1)"
      "writeBlocks iw1 (drop (unat (iw_blockSize iw)) d) = (szs', iw')"
      by (auto simp: writeBlocks.simps [of iw d] split: prod.splits)
    from "1.IH" [OF False w(1) [symmetric] w(2)] writeDataBlock_eq [OF w(1)] show ?thesis by auto
  qed
qed

lemma flushFragment_eq:
  "\<exists>ext es. flushFragment iw = iw\<lparr>iw_data := iw_data iw @ ext, iw_fragEntries := es, iw_fragBuf := []\<rparr>"
proof (cases "iw_fragBuf iw = []")
  case True
  then show ?thesis by (intro exI [of _ "[]"] exI [of _ "iw_fragEntries iw"]) (simp add: flushFragment_def)
next
  case False
  obtain sz iw1 where w: "writeDataBlock iw (iw_fragBuf iw) = (sz, iw1)" by fastforce
  from writeDataBlock_eq [OF w] obtain ext where "iw1 = iw\<lparr>iw_data := iw_data iw @ ext\<rparr>" by blast
  with False w show ?thesis by (simp add: flushFragment_def Let_def) blast
qed

lemma addToFragment_eq:
  assumes "addToFragment iw t = (a, b, iw')"
  shows "\<exists>ext es fb. iw' = iw\<lparr>iw_data := iw_data iw @ ext, iw_fragEntries := es, iw_fragBuf := fb\<rparr> \<and>
    (length t \<le> unat (iw_blockSize iw) \<longrightarrow> length fb \<le> unat (iw_blockSize iw))"
proof (cases "length (iw_fragBuf iw) + length t > unat (iw_blockSize iw)")
  case True
  obtain ext es where f: "flushFragment iw = iw\<lparr>iw_data := iw_data iw @ ext, iw_fragEntries := es, iw_fragBuf := []\<rparr>"
    using flushFragment_eq by blast
  from assms True f have "iw' = iw\<lparr>iw_data := iw_data iw @ ext, iw_fragEntries := es, iw_fragBuf := t\<rparr>"
    by (simp add: addToFragment_def Let_def)
  then show ?thesis by blast
next
  case False
  with assms have "iw' = iw\<lparr>iw_data := iw_data iw @ [], iw_fragEntries := iw_fragEntries iw, iw_fragBuf := iw_fragBuf iw @ t\<rparr>"
    by (auto simp: addToFragment_def Let_def)
  with False show ?thesis by (intro exI conjI) (assumption, simp)
qed

lemma tail_length: "0 < bs \<Longrightarrow> length xs - length xs div bs * bs \<le> (bs :: nat)"
  by (simp add: minus_div_mult_eq_mod)

definition inode_emitted :: "imageWriter \<Rightarrow> node \<Rightarrow> node \<Rightarrow> imageWriter \<Rightarrow> bool" where
  "inode_emitted iw n n' iw' \<longleftrightarrow>
     nd_mode n' = nd_mode n \<and> nd_inodeNum n' = iw_inodeNum iw + 1 \<and> nd_inodeRef n' = mw_ref (iw_inodes iw) \<and>
     (\<exists>ext es fb ds iw2 p. iw' = iw\<lparr>iw_data := iw_data iw @ ext, iw_fragEntries := es, iw_fragBuf := fb,
          iw_dirs := ds, iw_inodeNum := iw_inodeNum iw + 1, iw_inodes := mw_write iw2 (iw_inodes iw) p\<rparr> \<and>
        same_codec iw2 iw \<and> 24 \<le> length p \<and>
        (length (iw_fragBuf iw) \<le> unat (iw_blockSize iw) \<and> iw_blockSize iw \<noteq> 0 \<longrightarrow> length fb \<le> unat (iw_blockSize iw)) \<and>
        (ds = iw_dirs iw \<or> (\<exists>q. ds = mw_write iw (iw_dirs iw) q)))"

lemma emitSymlinkInode_emits:
  assumes "emitSymlinkInode iw n = (n', iw')"
  shows "inode_emitted iw n n' iw'"
proof -
  let ?p = "symlinkInodeBytes (nd_mode n) (iw_inodeNum iw + 1) (nd_target n)"
  have "iw' = iw\<lparr>iw_data := iw_data iw @ [], iw_fragEntries := iw_fragEntries iw, iw_fragBuf := iw_fragBuf iw,
      iw_dirs := iw_dirs iw, iw_inodeNum := iw_inodeNum iw + 1,
      iw_inodes := mw_write (iw\<lparr>iw_inodeNum := iw_inodeNum iw + 1\<rparr>) (iw_inodes iw) ?p\<rparr>"
    using assms by (auto simp: emitSymlinkInode_def nextInode_def Let_def)
  moreover have "24 \<le> length ?p" by (simp add: symlinkInodeBytes_def)
  moreover have "same_codec (iw\<lparr>iw_inodeNum := iw_inodeNum iw + 1\<rparr>) iw" by (simp add: same_codec_def)
  moreover have "nd_mode n' = nd_mode n \<and> nd_inodeNum n' = iw_inodeNum iw + 1 \<and> nd_inodeRef n' = mw_ref (iw_inodes iw)"
    using assms by (auto simp: emitSymlinkInode_def nextInode_def Let_def)
  ultimately show ?thesis unfolding inode_emitted_def by blast
qed

lemma emitDirInode_emits:
  assumes "emitDirInode iw n = Inr (n', iw')"
  shows "inode_emitted iw n n' iw' \<and> nd_children n' = sort_key nd_name (nd_children n)"
proof -
  let ?l = "buildDirListing (sort_key nd_name (nd_children n))"
  let ?d = "mw_write iw (iw_dirs iw) ?l"
  let ?iw2 = "iw\<lparr>iw_dirs := ?d, iw_inodeNum := iw_inodeNum iw + 1\<rparr>"
  obtain p where p: "24 \<le> length p" "iw' = iw\<lparr>iw_data := iw_data iw @ [], iw_fragEntries := iw_fragEntries iw, iw_fragBuf := iw_fragBuf iw,
      iw_dirs := ?d, iw_inodeNum := iw_inodeNum iw + 1, iw_inodes := mw_write ?iw2 (iw_inodes iw) p\<rparr>"
  proof
    let ?r = "mw_ref (iw_dirs iw)"
    let ?p = "dirInodeBytes (nd_mode n) (iw_inodeNum iw + 1) (ucast (drop_bit 16 ?r)) (length (sort_key nd_name (nd_children n)))
      (length ?l) (ucast (?r AND 0xFFFF))"
    show "24 \<le> length ?p" by (simp add: dirInodeBytes_def)
    show "iw' = iw\<lparr>iw_data := iw_data iw @ [], iw_fragEntries := iw_fragEntries iw, iw_fragBuf := iw_fragBuf iw,
      iw_dirs := ?d, iw_inodeNum := iw_inodeNum iw + 1, iw_inodes := mw_write ?iw2 (iw_inodes iw) ?p\<rparr>"
      using assms by (auto simp: emitDirInode_def nextInode_def Let_def)
  qed
  moreover have "same_codec ?iw2 iw" by (simp add: same_codec_def)
  moreover have "nd_mode n' = nd_mode n \<and> nd_inodeNum n' = iw_inodeNum iw + 1 \<and> nd_inodeRef n' = mw_ref (iw_inodes iw) \<and>
      nd_children n' = sort_key nd_name (nd_children n)"
    using assms by (auto simp: emitDirInode_def nextInode_def Let_def)
  ultimately show ?thesis unfolding inode_emitted_def by blast
qed

lemma emitFileInode_emits:
  assumes e: "emitFileInode iw n = Inr (n', iw')"
  shows "inode_emitted iw n n' iw'"
proof -
  let ?bs = "unat (iw_blockSize iw)"
  let ?fl = "if \<not> bo_NoFragments (iw_opts iw) then length (nd_data n) div ?bs * ?bs else length (nd_data n)"
  obtain szs iw1 where w: "writeBlocks iw (take ?fl (nd_data n)) = (szs, iw1)" by fastforce
  obtain fi fo iw2 where f: "(if \<not> bo_NoFragments (iw_opts iw) \<and> ?fl < length (nd_data n)
      then addToFragment iw1 (drop ?fl (nd_data n)) else (invalidFrag, 0, iw1)) = (fi, fo, iw2)" by (metis prod_cases3)
  from writeBlocks_eq [OF w] obtain ext where iw1: "iw1 = iw\<lparr>iw_data := iw_data iw @ ext\<rparr>" by blast
  obtain ext2 es fb where iw2: "iw2 = iw\<lparr>iw_data := iw_data iw @ ext2, iw_fragEntries := es, iw_fragBuf := fb\<rparr>"
    and fb: "length (iw_fragBuf iw) \<le> ?bs \<and> iw_blockSize iw \<noteq> 0 \<longrightarrow> length fb \<le> ?bs"
  proof (cases "\<not> bo_NoFragments (iw_opts iw) \<and> ?fl < length (nd_data n)")
    case True
    with f addToFragment_eq [of iw1 "drop ?fl (nd_data n)" fi fo iw2] obtain x es fb where
      "iw2 = iw\<lparr>iw_data := iw_data iw @ (ext @ x), iw_fragEntries := es, iw_fragBuf := fb\<rparr>"
      "length (drop ?fl (nd_data n)) \<le> ?bs \<longrightarrow> length fb \<le> ?bs" by (auto simp: iw1)
    with that True tail_length [of ?bs "nd_data n"] show thesis by (auto simp: unat_gt_0)
  next
    case False
    with f have "iw2 = iw\<lparr>iw_data := iw_data iw @ ext, iw_fragEntries := iw_fragEntries iw, iw_fragBuf := iw_fragBuf iw\<rparr>"
      by (auto simp: iw1)
    with that show thesis by blast
  qed
  let ?p = "fileInodeBytes (nd_mode n) (iw_inodeNum iw2 + 1) (ucast (of_nat (length (iw_data iw)) :: u64)) fi fo (of_nat (length (nd_data n))) szs"
  have r: "n' = Node (nd_name n) (nd_mode n) (nd_uid n) (nd_gid n) (nd_target n) (nd_data n) (nd_children n) (mw_ref (iw_inodes iw2)) (iw_inodeNum iw2 + 1)"
    "iw' = iw2\<lparr>iw_inodeNum := iw_inodeNum iw2 + 1, iw_inodes := mw_write (iw2\<lparr>iw_inodeNum := iw_inodeNum iw2 + 1\<rparr>) (iw_inodes iw2) ?p\<rparr>"
    using e unfolding emitFileInode_def Let_def w prod.case f nextInode_def by simp_all
  have "24 \<le> length ?p" by (simp add: fileInodeBytes_def)
  moreover have "iw' = iw\<lparr>iw_data := iw_data iw @ ext2, iw_fragEntries := es, iw_fragBuf := fb,
      iw_dirs := iw_dirs iw, iw_inodeNum := iw_inodeNum iw + 1,
      iw_inodes := mw_write (iw2\<lparr>iw_inodeNum := iw_inodeNum iw2 + 1\<rparr>) (iw_inodes iw) ?p\<rparr>"
    using r(2) by (simp add: iw2)
  moreover have "same_codec (iw2\<lparr>iw_inodeNum := iw_inodeNum iw2 + 1\<rparr>) iw" by (simp add: iw2 same_codec_def)
  moreover have "nd_mode n' = nd_mode n \<and> nd_inodeNum n' = iw_inodeNum iw + 1 \<and> nd_inodeRef n' = mw_ref (iw_inodes iw)"
    using r(1) by (simp add: iw2)
  ultimately show ?thesis using fb unfolding inode_emitted_def by blast
qed

text \<open>Emission appends to the image and keeps the block size.\<close>

definition grows :: "imageWriter \<Rightarrow> imageWriter \<Rightarrow> bool" where
  "grows iw iw' \<longleftrightarrow> length (iw_data iw) \<le> length (iw_data iw') \<and> iw_blockSize iw' = iw_blockSize iw"

lemma grows_refl [simp]: "grows iw iw"
  by (simp add: grows_def)

lemma grows_trans: "grows a b \<Longrightarrow> grows b c \<Longrightarrow> grows a c"
  by (simp add: grows_def)

lemma emitted_grows: "inode_emitted iw n n' iw' \<Longrightarrow> grows iw iw'"
  by (auto simp: inode_emitted_def grows_def)

interpretation growing: emission_contract grows
  using grows_trans emitted_grows [OF emitFileInode_emits] emitted_grows [OF emitSymlinkInode_emits]
    emitted_grows [OF conjunct1 [OF emitDirInode_emits]]
  by unfold_locales (simp, blast+)

text \<open>
  The invariant of the writer's buffers: a metadata buffer never holds a whole
  block, the pending fragment block never exceeds the block size.
\<close>

definition buffers_ok :: "imageWriter \<Rightarrow> bool" where
  "buffers_ok iw \<longleftrightarrow> length (mw_buf (iw_inodes iw)) < metaBlockMax \<and> length (mw_buf (iw_dirs iw)) < metaBlockMax \<and>
     iw_blockSize iw \<noteq> 0 \<and> length (iw_fragBuf iw) \<le> unat (iw_blockSize iw)"

definition buffers_kept :: "imageWriter \<Rightarrow> imageWriter \<Rightarrow> bool" where
  "buffers_kept iw iw' \<longleftrightarrow> (buffers_ok iw \<longrightarrow> buffers_ok iw')"

lemma mw_drain_buf: "length (mw_buf (mw_drain iw m)) < metaBlockMax"
  by (induction iw m rule: mw_drain.induct) (simp add: mw_drain.simps)

lemma mw_write_buf: "length (mw_buf (mw_write iw m p)) < metaBlockMax"
  by (simp add: mw_write_def mw_drain_buf)

lemma emitted_buffers: "inode_emitted iw n n' iw' \<Longrightarrow> buffers_kept iw iw'"
  by (auto simp: inode_emitted_def buffers_kept_def buffers_ok_def mw_write_buf)

interpretation buffering: emission_contract buffers_kept
  using emitted_buffers [OF emitFileInode_emits] emitted_buffers [OF emitSymlinkInode_emits]
    emitted_buffers [OF conjunct1 [OF emitDirInode_emits]]
  by unfold_locales (auto simp: buffers_kept_def)

definition startWriter :: "BuildOptions \<Rightarrow> compressor option \<Rightarrow> imageWriter" where
  "startWriter opts cmp = writeCompressorOptions ((newImageWriter opts cmp)\<lparr>iw_data := replicate superblockSize 0\<rparr>)"

text \<open>
  C35: The writer's buffers are bounded. After any tree has been emitted neither
  metadata buffer holds a whole block of 8192 bytes and the pending fragment block
  is no larger than a data block, so every block the writer cuts is one the reader
  accepts; the final flush leaves no fragment behind.
\<close>

theorem writer_buffers_bounded:
  "\<exists>root' iw. emitNode (startWriter opts cmp) root = Inr (root', iw) \<and>
     length (mw_buf (iw_inodes iw)) < metaBlockMax \<and> length (mw_buf (iw_dirs iw)) < metaBlockMax \<and>
     length (iw_fragBuf iw) \<le> unat defaultBlockSize \<and> iw_fragBuf (flushFragment iw) = []"
proof -
  obtain root' iw where em: "emitNode (startWriter opts cmp) root = Inr (root', iw)" using emit_total(1) by blast
  have "buffers_ok (startWriter opts cmp)" "iw_blockSize (startWriter opts cmp) = defaultBlockSize"
    by (simp_all add: startWriter_def buffers_ok_def writeCompressorOptions_def newImageWriter_def Let_def
        metaBlockMax_def defaultBlockSize_def)
  with buffering.emission(1) [OF em] growing.emission(1) [OF em] em flushFragment_eq [of iw]
  show ?thesis by (auto simp: buffers_kept_def buffers_ok_def grows_def)
qed

section \<open>Inode numbers\<close>

text \<open>The nodes that get an inode: children of a directory count, no others do.\<close>

fun node_count :: "node \<Rightarrow> nat" where
  "node_count (Node name mode uid gid target content cs ref num) =
     Suc (if mode AND 0xF000 = sIFDIR then (\<Sum>c\<leftarrow>cs. node_count c) else 0)"

fun inode_numbers :: "node \<Rightarrow> u32 list" where
  "inode_numbers (Node name mode uid gid target content cs ref num) =
     num # (if mode AND 0xF000 = sIFDIR then concat (map inode_numbers cs) else [])"

definition numbers_from :: "u32 \<Rightarrow> nat \<Rightarrow> u32 multiset" where
  "numbers_from k n = mset (map (\<lambda>i. k + of_nat (Suc i)) [0..<n])"

lemma numbers_from_add: "numbers_from k (m + n) = numbers_from k m + numbers_from (k + of_nat m) n"
proof -
  have "[0..<m + n] = [0..<m] @ map (\<lambda>i. i + m) [0..<n]"
    by (metis add.commute add_0 map_add_upt upt_add_eq_append zero_le)
  then show ?thesis by (simp add: numbers_from_def comp_def algebra_simps)
qed

lemma numbers_from_Suc: "numbers_from k (Suc n) = add_mset (k + of_nat n + 1) (numbers_from k n)"
  by (simp add: numbers_from_def)

lemma inode_numbers_plain: "nd_mode n AND 0xF000 \<noteq> sIFDIR \<Longrightarrow> inode_numbers n = [nd_inodeNum n]"
  by (cases n) simp

lemma inode_numbers_dir:
  "nd_mode n AND 0xF000 = sIFDIR \<Longrightarrow> inode_numbers n = nd_inodeNum n # concat (map inode_numbers (nd_children n))"
  by (cases n) simp

lemma mset_concat_sort: "mset (concat (map f (sort_key g xs))) = mset (concat (map f xs))"
  by (simp add: mset_concat flip: sum_mset_sum_list)

lemma emit_numbers:
  "emitNode iw n = Inr (n', iw') \<Longrightarrow>
     iw_inodeNum iw' = iw_inodeNum iw + of_nat (node_count n) \<and>
     mset (inode_numbers n') = numbers_from (iw_inodeNum iw) (node_count n)"
  "emitNodes iw ns = Inr (ns', iw') \<Longrightarrow>
     iw_inodeNum iw' = iw_inodeNum iw + of_nat (\<Sum>n\<leftarrow>ns. node_count n) \<and>
     mset (concat (map inode_numbers ns')) = numbers_from (iw_inodeNum iw) (\<Sum>n\<leftarrow>ns. node_count n)"
proof (induction iw n and iw ns arbitrary: n' iw' and ns' iw' rule: emitNode_emitNodes.induct)
  case (1 iw name mode uid gid target content children ref num)
  show ?case
  proof (cases "mode AND 0xF000 = sIFDIR")
    case True
    obtain cs iw1 where cs: "emitNodes iw children = Inr (cs, iw1)"
      and em: "emitDirInode iw1 (Node name mode uid gid target content cs ref num) = Inr (n', iw')"
      by (rule emitNode_dirE [OF "1.prems" True])
    note ih = "1.IH" [OF True cs]
    show ?thesis
      using ih emitDirInode_emits [OF em] True
      by (auto simp: inode_emitted_def inode_numbers_dir mset_concat_sort numbers_from_Suc algebra_simps)
  next
    case False
    have "nd_inodeNum n' = iw_inodeNum iw + 1 \<and> iw_inodeNum iw' = iw_inodeNum iw + 1 \<and> nd_mode n' = mode"
      using "1.prems" False
      by (auto simp: inode_emitted_def split: if_splits dest!: emitFileInode_emits emitSymlinkInode_emits)
    with False show ?thesis by (simp add: inode_numbers_plain numbers_from_def)
  qed
next
  case (3 iw c cs)
  obtain c' iw1 cs' where c: "emitNode iw c = Inr (c', iw1)" and cs: "emitNodes iw1 cs = Inr (cs', iw')" and "ns' = c' # cs'"
    by (rule emitNodes_ConsE [OF "3.prems"])
  with "3.IH"(1) [OF c] "3.IH"(2) [OF c refl cs] show ?case
    by (auto simp: numbers_from_add add.assoc)
qed (simp add: numbers_from_def)

text \<open>
  C34: Every inode has its own number. Emitting a tree hands out consecutive
  numbers, one to each directory, link and file: the numbers in the emitted tree,
  in whatever order its directories are sorted, are the next ones of the counter.
\<close>

theorem emitNode_numbers:
  "\<exists>root' iw'. emitNode iw root = Inr (root', iw') \<and>
     iw_inodeNum iw' = iw_inodeNum iw + of_nat (node_count root) \<and>
     mset (inode_numbers root') = mset (map (\<lambda>i. iw_inodeNum iw + of_nat (Suc i)) [0..<node_count root])"
  using emit_numbers(1) [of iw root] emit_total(1) [of iw root] by (auto simp: numbers_from_def)



section \<open>The header of an image\<close>

lemma writeMetaBlock_header: "grows iw (writeMetaBlock iw p)"
  by (simp add: writeMetaBlock_def grows_def)

lemma writeFragBlocks_header: "writeFragBlocks iw fes = (offs, iw') \<Longrightarrow> grows iw iw'"
proof (induction iw fes arbitrary: offs iw' rule: writeFragBlocks.induct)
  case (1 iw fes)
  show ?case
  proof (cases "fes = []")
    case True
    with "1.prems" show ?thesis by (simp add: writeFragBlocks.simps)
  next
    case False
    let ?iw1 = "writeMetaBlock iw (concat (map encodeFragEntry (take fragPerMetaBlock fes)))"
    from False "1.prems" obtain offs' where "writeFragBlocks ?iw1 (drop fragPerMetaBlock fes) = (offs', iw')"
      by (auto simp: writeFragBlocks.simps [of iw fes] Let_def split: prod.splits)
    from "1.IH" [OF False refl refl this] writeMetaBlock_header show ?thesis by (rule grows_trans [rotated])
  qed
qed

lemma writeFragmentTable_header: "writeFragmentTable iw = (off, iw') \<Longrightarrow> grows iw iw'"
  by (auto simp: writeFragmentTable_def dest!: writeFragBlocks_header split: prod.splits)
    (simp add: grows_def)

lemma finishImage_header:
  assumes "superblockSize \<le> length (iw_data iw)" "img = finishImage iw ref"
  shows "\<exists>w a b c d e. iw_blockSize w = iw_blockSize iw \<and>
     take 96 img = superblock w ref (iw_inodeNum iw) a b c d e (of_nat (length img))"
proof -
  define iw1 where "iw1 = flushFragment iw"
  define iw3 where "iw3 = iw1\<lparr>iw_data := (iw_data iw1 @ mw_out (mw_finish iw1 (iw_inodes iw1))) @ mw_out (mw_finish iw1 (iw_dirs iw1))\<rparr>"
  obtain fstart iw4 where w4: "(if length (iw_fragEntries iw3) > 0 then writeFragmentTable iw3 else (bytesUsedNoTable, iw3)) = (fstart, iw4)"
    by fastforce
  define iw5 where "iw5 = writeMetaBlock iw4 (replicate 4 0)"
  define iw6 where "iw6 = iw5\<lparr>iw_data := iw_data iw5 @ PutUint64 (of_nat (length (iw_data iw4)))\<rparr>"
  have n: "iw_inodeNum iw1 = iw_inodeNum iw" "grows iw iw1"
    using flushFragment_eq [of iw] by (auto simp: iw1_def grows_def)
  have "grows iw1 iw3" by (simp add: iw3_def grows_def)
  moreover have "grows iw3 iw4" using w4 by (auto split: if_splits dest: writeFragmentTable_header)
  moreover have "grows iw4 iw5" "grows iw5 iw6"
    by (simp_all add: iw5_def iw6_def writeMetaBlock_header) (simp add: grows_def)
  ultimately have g: "grows iw iw6" using n(2) by (blast intro: grows_trans)
  have st: "iw1\<lparr>iw_data := iw_data iw1 @ x\<rparr>\<lparr>iw_data := iw_data (iw1\<lparr>iw_data := iw_data iw1 @ x\<rparr>) @ y\<rparr> =
      iw1\<lparr>iw_data := (iw_data iw1 @ x) @ y\<rparr>" for x y by simp
  obtain a b c d e where img: "img = superblock iw6 ref (iw_inodeNum iw1) a b c d e (of_nat (length (iw_data iw6))) @
      drop superblockSize (iw_data iw6)"
    unfolding assms(2) finishImage_def Let_def iw1_def [symmetric] st iw3_def [symmetric] w4 prod.case
      iw5_def [symmetric] iw6_def [symmetric] by blast
  then have "length img = length (iw_data iw6)"
    using g assms(1) by (simp add: grows_def superblockSize_def)
  moreover have "take 96 img = superblock iw6 ref (iw_inodeNum iw1) a b c d e (of_nat (length (iw_data iw6)))"
    by (simp add: img)
  ultimately show ?thesis using g n(1) by (metis grows_def)
qed

text \<open>
  C33: The superblock of a finished image is accepted by the reader's checks and
  states the number of inodes of the tree and the length of the image.
\<close>

theorem image_header:
  "case buildImage libs root opts of
     Inl e \<Rightarrow> True
   | Inr img \<Rightarrow> (let sb = decodeSuperblock (take 96 img) in
       sb_ok sb \<and> sb_InodeCount sb = of_nat (node_count root) \<and> sb_BytesUsed sb = of_nat (length img))"
proof (cases "buildImage libs root opts")
  case (Inr img)
  obtain cmp root' iw2 where
    em: "emitNode (writeCompressorOptions ((newImageWriter opts cmp)\<lparr>iw_data := replicate superblockSize 0\<rparr>)) root = Inr (root', iw2)"
    and img: "img = finishImage iw2 (nd_inodeRef root')"
    by (rule buildImageE [OF Inr])
  let ?iw = "writeCompressorOptions ((newImageWriter opts cmp)\<lparr>iw_data := replicate superblockSize 0\<rparr>)"
  have "iw_inodeNum ?iw = 0" "superblockSize \<le> length (iw_data ?iw)" "iw_blockSize ?iw = defaultBlockSize"
    by (simp_all add: writeCompressorOptions_def newImageWriter_def Let_def)
  with emit_numbers(1) [OF em] growing.emission(1) [OF em] have i2: "iw_inodeNum iw2 = of_nat (node_count root)" "superblockSize \<le> length (iw_data iw2)"
    "iw_blockSize iw2 = defaultBlockSize" by (auto simp: grows_def)
  from finishImage_header [OF i2(2) img] obtain w a b c d e where
    "iw_blockSize w = defaultBlockSize" "take 96 img = superblock w (nd_inodeRef root') (of_nat (node_count root)) a b c d e (of_nat (length img))"
    unfolding i2 by blast
  with Inr show ?thesis
    by (simp add: Let_def decode_superblock blockLog_default)
      (simp add: sb_ok_def defaultBlockSize_def maxBlockLog_def maxBlockSize_def)
qed simp

end
