(* ===== verification/InodeSpacing.thy ===== *)
theory InodeSpacing
  imports ImageHeader "HOL-Library.Sublist"
begin

text \<open>
  The listing of a directory stores inode numbers as 16-bit differences to the
  first entry of their header. The entries of one header have their inodes in one
  metadata block, an inode takes at least 24 bytes and numbers are handed out in
  the order of writing, so the differences always fit.
\<close>

section \<open>Positions of inodes in the table\<close>

text \<open>\<open>S\<close> lists where each inode starts, in the order of their numbers.\<close>

definition spaced :: "nat list \<Rightarrow> nat \<Rightarrow> bool" where
  "spaced S n \<longleftrightarrow> (\<forall>i j. i < j \<longrightarrow> j < length S \<longrightarrow> S ! i + 24 * (j - i) \<le> S ! j) \<and>
     (\<forall>i < length S. S ! i + 24 * (length S - i) \<le> n)"

lemma spaced_nil: "spaced [] n"
  by (simp add: spaced_def)

lemma spaced_snoc: "\<lbrakk>spaced S n; 24 \<le> k\<rbrakk> \<Longrightarrow> spaced (S @ [n]) (n + k)"
proof -
  assume s: "spaced S n" and k: "24 \<le> k"
  have e: "S ! i + 24 * (length S - i) \<le> n" if "i < length S" for i using s that by (simp add: spaced_def)
  have "(S @ [n]) ! i + 24 * (j - i) \<le> (S @ [n]) ! j" if "i < j" "j < length (S @ [n])" for i j
  proof (cases "j < length S")
    case True
    with s that show ?thesis by (simp add: spaced_def nth_append)
  next
    case False
    then have "j = length S" using that by simp
    with that e [of i] show ?thesis by (simp add: nth_append)
  qed
  moreover have "(S @ [n]) ! i + 24 * (length (S @ [n]) - i) \<le> n + k" if "i < length (S @ [n])" for i
  proof (cases "i < length S")
    case True
    with e [of i] k show ?thesis by (simp add: nth_append Suc_diff_le)
  next
    case False
    then have "i = length S" using that by simp
    with k show ?thesis by simp
  qed
  ultimately show ?thesis by (simp add: spaced_def)
qed

definition at_pos :: "imageWriter \<Rightarrow> bytes \<Rightarrow> nat list \<Rightarrow> node \<Rightarrow> bool" where
  "at_pos w log S x \<longleftrightarrow> (\<exists>k < length S. nd_inodeNum x = of_nat (Suc k) \<and>
     nd_inodeRef x = mw_ref (mw_of w (take (S ! k) log)))"

fun tree_at :: "imageWriter \<Rightarrow> bytes \<Rightarrow> nat list \<Rightarrow> node \<Rightarrow> bool" where
  "tree_at w log S (Node name mode uid gid target content cs ref num) =
     (at_pos w log S (Node name mode uid gid target content cs ref num) \<and>
      (mode AND 0xF000 = sIFDIR \<longrightarrow> (\<forall>c\<in>set cs. tree_at w log S c)))"

definition sinv :: "imageWriter \<Rightarrow> imageWriter \<Rightarrow> bytes \<Rightarrow> nat list \<Rightarrow> bool" where
  "sinv w iw log S \<longleftrightarrow> same_codec iw w \<and> iw_inodes iw = mw_of w log \<and> iw_inodeNum iw = of_nat (length S) \<and>
     spaced S (length log)"

lemma at_pos_mono:
  assumes "at_pos w log S x" "spaced S (length log)" "prefix log log'" "prefix S S'"
  shows "at_pos w log' S' x"
proof -
  from assms(1) obtain k where k: "k < length S" "nd_inodeNum x = of_nat (Suc k)" "nd_inodeRef x = mw_ref (mw_of w (take (S ! k) log))"
    by (auto simp: at_pos_def)
  have "S ! k \<le> length log" using assms(2) k(1) by (fastforce simp: spaced_def)
  with k assms(3,4) have "k < length S' \<and> nd_inodeNum x = of_nat (Suc k) \<and> nd_inodeRef x = mw_ref (mw_of w (take (S' ! k) log'))"
    by (auto simp: prefix_def nth_append)
  then show ?thesis unfolding at_pos_def by blast
qed

lemma tree_at_mono: "\<lbrakk>tree_at w log S n; spaced S (length log); prefix log log'; prefix S S'\<rbrakk> \<Longrightarrow> tree_at w log' S' n"
  by (induction n) (auto intro: at_pos_mono)

text \<open>Writing one inode.\<close>

lemma emitted_sinv:
  assumes e: "inode_emitted iw n n' iw'" and inv: "sinv w iw log S"
  shows "\<exists>log'. prefix log log' \<and> sinv w iw' log' (S @ [length log]) \<and> at_pos w log' (S @ [length log]) n'"
proof -
  from inv have s: "same_codec iw w" "iw_inodes iw = mw_of w log" "iw_inodeNum iw = of_nat (length S)" "spaced S (length log)"
    by (simp_all add: sinv_def)
  from e obtain ext es fb ds iw2 p where iw': "iw' = iw\<lparr>iw_data := iw_data iw @ ext, iw_fragEntries := es, iw_fragBuf := fb,
      iw_dirs := ds, iw_inodeNum := iw_inodeNum iw + 1, iw_inodes := mw_write iw2 (iw_inodes iw) p\<rparr>"
    and p: "same_codec iw2 iw" "24 \<le> length p"
    and f: "nd_inodeNum n' = iw_inodeNum iw + 1" "nd_inodeRef n' = mw_ref (iw_inodes iw)"
    unfolding inode_emitted_def by blast
  have sc: "same_codec iw2 w" "same_codec iw' w" using p(1) s(1) by (simp_all add: iw' same_codec_def)
  have "iw_inodes iw' = mw_of w (log @ p)" using s(2) same_codec_mw_write [OF sc(1)] by (simp add: iw' mw_write_of)
  then have "sinv w iw' (log @ p) (S @ [length log])"
    using sc(2) s(3) spaced_snoc [OF s(4) p(2)] by (simp add: sinv_def) (simp add: iw')
  moreover have "at_pos w (log @ p) (S @ [length log]) n'"
    unfolding at_pos_def using f s(2,3) by (intro exI [of _ "length S"]) simp
  ultimately show ?thesis by (intro exI [of _ "log @ p"]) simp
qed

lemma tree_at_plain: "nd_mode n AND 0xF000 \<noteq> sIFDIR \<Longrightarrow> tree_at w log S n = at_pos w log S n"
  by (cases n) simp

lemma tree_at_dir:
  "nd_mode n AND 0xF000 = sIFDIR \<Longrightarrow> tree_at w log S n \<longleftrightarrow> at_pos w log S n \<and> (\<forall>c\<in>set (nd_children n). tree_at w log S c)"
  by (cases n) simp

lemma emission_spaced:
  "\<lbrakk>emitNode iw n = Inr (n', iw'); sinv w iw log S\<rbrakk>
    \<Longrightarrow> \<exists>log' S'. prefix log log' \<and> prefix S S' \<and> sinv w iw' log' S' \<and> tree_at w log' S' n'"
  "\<lbrakk>emitNodes iw ns = Inr (ns', iw'); sinv w iw log S\<rbrakk>
    \<Longrightarrow> \<exists>log' S'. prefix log log' \<and> prefix S S' \<and> sinv w iw' log' S' \<and> (\<forall>n\<in>set ns'. tree_at w log' S' n)"
proof (induction iw n and iw ns arbitrary: n' iw' log S and ns' iw' log S rule: emitNode_emitNodes.induct)
  case (1 iw name mode uid gid target content children ref num)
  show ?case
  proof (cases "mode AND 0xF000 = sIFDIR")
    case True
    obtain cs iw1 where cs: "emitNodes iw children = Inr (cs, iw1)"
      and em: "emitDirInode iw1 (Node name mode uid gid target content cs ref num) = Inr (n', iw')"
      by (rule emitNode_dirE [OF "1.prems"(1) True])
    from "1.IH" [OF True cs "1.prems"(2)] obtain log1 S1 where
      1: "prefix log log1" "prefix S S1" "sinv w iw1 log1 S1" "\<forall>n\<in>set cs. tree_at w log1 S1 n" by blast
    note em = emitDirInode_emits [OF em]
    from emitted_sinv [OF conjunct1 [OF em] 1(3)] obtain log2 where
      2: "prefix log1 log2" "sinv w iw' log2 (S1 @ [length log1])" "at_pos w log2 (S1 @ [length log1]) n'" by blast
    have "\<forall>n\<in>set cs. tree_at w log2 (S1 @ [length log1]) n"
      using 1(3,4) 2(1) by (auto simp: sinv_def intro: tree_at_mono)
    moreover have "nd_mode n' = mode" "nd_children n' = sort_key nd_name cs" using em by (auto simp: inode_emitted_def)
    ultimately have "tree_at w log2 (S1 @ [length log1]) n'" using True 2(3) by (simp add: tree_at_dir)
    with 1(1,2) 2(1,2) show ?thesis by (meson prefix_order.trans prefixI)
  next
    case False
    have em: "inode_emitted iw (Node name mode uid gid target content children ref num) n' iw'"
      using "1.prems"(1) False by (auto split: if_splits intro: emitFileInode_emits emitSymlinkInode_emits)
    then have k: "nd_mode n' = mode" by (simp add: inode_emitted_def)
    from emitted_sinv [OF em "1.prems"(2)] obtain log' where
      "prefix log log'" "sinv w iw' log' (S @ [length log])" "at_pos w log' (S @ [length log]) n'" by blast
    with False k show ?thesis
      by (intro exI [of _ log'] exI [of _ "S @ [length log]"]) (simp add: tree_at_plain)
  qed
next
  case (2 iw)
  then show ?case by auto
next
  case (3 iw c cs)
  obtain c' iw1 cs' where c: "emitNode iw c = Inr (c', iw1)" and cs: "emitNodes iw1 cs = Inr (cs', iw')" and r: "ns' = c' # cs'"
    by (rule emitNodes_ConsE [OF "3.prems"(1)])
  from "3.IH"(1) [OF c "3.prems"(2)] obtain log1 S1 where
    1: "prefix log log1" "prefix S S1" "sinv w iw1 log1 S1" "tree_at w log1 S1 c'" by blast
  from "3.IH"(2) [OF c refl cs 1(3)] obtain log2 S2 where
    2: "prefix log1 log2" "prefix S1 S2" "sinv w iw' log2 S2" "\<forall>n\<in>set cs'. tree_at w log2 S2 n" by blast
  have "tree_at w log2 S2 c'" using 1(3,4) 2(1,2) by (auto simp: sinv_def intro: tree_at_mono)
  with 1(1,2) 2 r show ?case by (auto intro: prefix_order.trans)
qed



section \<open>Inodes of one block have close numbers\<close>

lemma metaBlockBytes_ne: "2 \<le> length (metaBlockBytes w p)"
  by (simp add: metaBlockBytes_def Let_def split: prod.split)

lemma same_out:
  assumes "length (mw_out (mw_of w (a @ b))) = length (mw_out (mw_of w a))"
  shows "length b < metaBlockMax"
proof (rule ccontr)
  assume "\<not> ?thesis"
  then have "fullBlocks (lastPart a @ b) = take metaBlockMax (lastPart a @ b) # fullBlocks (drop metaBlockMax (lastPart a @ b))"
    by (simp add: fullBlocks.simps [of "lastPart a @ b"])
  then have "length (mw_out (mw_of w a)) + length (metaBlockBytes w (take metaBlockMax (lastPart a @ b))) \<le> length (mw_out (mw_of w (a @ b)))"
    by (simp add: mw_of_def blocks_append(1) [of a b] del: take_append)
  with assms metaBlockBytes_ne [of w "take metaBlockMax (lastPart a @ b)"] show False by simp
qed

lemma out_mono: "length (mw_out (mw_of w (take p log))) \<le> length (mw_out (mw_of w log))"
proof -
  have "mw_out (mw_of w log) = mw_out (mw_of w (take p log)) @ concat (map (metaBlockBytes w) (fullBlocks (lastPart (take p log) @ drop p log)))"
    using blocks_append(1) [of "take p log" "drop p log"] by (simp add: mw_of_def)
  then show ?thesis by simp
qed

text \<open>Two numbers whose difference fits 16 bits.\<close>

definition near :: "u32 \<Rightarrow> u32 \<Rightarrow> bool" where
  "near a b \<longleftrightarrow> (\<exists>d. - (2 ^ 15) \<le> d \<and> d < 2 ^ 15 \<and> b = a + word_of_int d)"

lemma nodeBlock_at:
  assumes "nd_inodeRef x = mw_ref (mw_of w l)" "length (mw_out (mw_of w l)) < 2 ^ 32"
  shows "nodeBlock x = of_nat (length (mw_out (mw_of w l)))"
proof -
  have b: "length (mw_buf (mw_of w l)) < 2 ^ 16" using length_lastPart [of l] by (simp add: mw_of_def metaBlockMax_def)
  have o48: "length (mw_out (mw_of w l)) < 2 ^ 48" using assms(2) by simp
  have "drop_bit 16 (nd_inodeRef x) = of_nat (length (mw_out (mw_of w l)))"
    using inodeRef_mw_ref [OF o48 b] assms(1) by (simp add: inodeRef_def)
  then show ?thesis
    by (intro unsigned_word_eqI [where ?'a = nat]) (simp add: nodeBlock_def unsigned_ucast_eq unsigned_of_nat take_bit_take_bit)
qed

lemma same_block_near:
  assumes S: "spaced S (length log)" and x: "at_pos w log S x" and y: "at_pos w log S y"
    and small: "length (mw_out (mw_of w log)) < 2 ^ 32" and nb: "nodeBlock x = nodeBlock y"
  shows "near (nd_inodeNum x) (nd_inodeNum y)"
proof -
  have gen: "j - i < 2 ^ 15" if ij: "i \<le> j" "j < length S"
    and eq: "length (mw_out (mw_of w (take (S ! i) log))) = length (mw_out (mw_of w (take (S ! j) log)))" for i j
  proof (cases "i = j")
    case False
    with ij S have sp: "S ! i + 24 * (j - i) \<le> S ! j" by (simp add: spaced_def)
    have le: "S ! j \<le> length log" using S ij(2) by (fastforce simp: spaced_def)
    have "take (S ! j) log = take (S ! i) log @ take (S ! j - S ! i) (drop (S ! i) log)"
      using sp by (metis add_leD1 le_add_diff_inverse take_add)
    with same_out [of w "take (S ! i) log" "take (S ! j - S ! i) (drop (S ! i) log)"] eq
    have "length (take (S ! j - S ! i) (drop (S ! i) log)) < metaBlockMax" by simp
    then have "S ! j - S ! i < 8192" using le by (simp add: metaBlockMax_def)
    with sp show ?thesis by simp
  qed simp
  from x obtain i where i: "i < length S" "nd_inodeNum x = of_nat (Suc i)" "nd_inodeRef x = mw_ref (mw_of w (take (S ! i) log))"
    by (auto simp: at_pos_def)
  from y obtain j where j: "j < length S" "nd_inodeNum y = of_nat (Suc j)" "nd_inodeRef y = mw_ref (mw_of w (take (S ! j) log))"
    by (auto simp: at_pos_def)
  have sm: "length (mw_out (mw_of w (take p log))) < 2 ^ 32" for p using out_mono [of w p log] small by simp
  have "unat (nodeBlock x) = unat (nodeBlock y)" using nb by simp
  then have eq: "length (mw_out (mw_of w (take (S ! i) log))) = length (mw_out (mw_of w (take (S ! j) log)))"
    unfolding nodeBlock_at [OF i(3) sm] nodeBlock_at [OF j(3) sm]
    using sm [of "S ! i"] sm [of "S ! j"] by (simp add: unsigned_of_nat take_bit_nat_eq_self)
  have lt: "j - i < 32768" "i - j < 32768"
  proof -
    show "j - i < 32768" using gen [OF _ j(1) eq] by (cases "i \<le> j") simp_all
    show "i - j < 32768" using gen [OF _ i(1) eq [symmetric]] by (cases "j \<le> i") simp_all
  qed
  then have "- (2 ^ 15) \<le> int j - int i" "int j - int i < 2 ^ 15" by simp_all
  moreover have "nd_inodeNum y = nd_inodeNum x + word_of_int (int j - int i)" using i(2) j(2) by simp
  ultimately show ?thesis unfolding near_def by blast
qed

text \<open>In an emitted tree the children of a directory that share a block have close numbers.\<close>

fun numbers_close :: "node \<Rightarrow> bool" where
  "numbers_close (Node name mode uid gid target content cs ref num) =
     (mode AND 0xF000 = sIFDIR \<longrightarrow>
        (\<forall>x\<in>set cs. \<forall>y\<in>set cs. nodeBlock x = nodeBlock y \<longrightarrow> near (nd_inodeNum x) (nd_inodeNum y)) \<and>
        (\<forall>c\<in>set cs. numbers_close c))"

lemma tree_at_pos: "tree_at w log S n \<Longrightarrow> at_pos w log S n"
  by (cases n) simp

lemma tree_at_close:
  assumes "spaced S (length log)" "length (mw_out (mw_of w log)) < 2 ^ 32"
  shows "tree_at w log S n \<Longrightarrow> numbers_close n"
  by (induction n) (auto intro: same_block_near [OF assms(1) _ _ assms(2)] tree_at_pos)

lemma emission_close:
  assumes "emitNode iw n = Inr (n', iw')" "iw_inodes iw = mw_of w []" "iw_inodeNum iw = 0" "same_codec iw w"
    and "length (mw_out (iw_inodes iw')) < 2 ^ 32"
  shows "numbers_close n'"
proof -
  have "sinv w iw [] []" using assms by (simp add: sinv_def spaced_nil)
  from emission_spaced(1) [OF assms(1) this] obtain log S where "sinv w iw' log S" "tree_at w log S n'" by blast
  with tree_at_close [of S log w n'] assms(5) show ?thesis by (simp add: sinv_def)
qed



section \<open>The numbers of a decoded listing\<close>

lemma entryOf_number:
  assumes "near base (nd_inodeNum c)"
  shows "de_Number (entryOf base c) = nd_inodeNum c"
proof -
  from assms obtain d where d: "- (2 ^ 15) \<le> d" "d < 2 ^ 15" "nd_inodeNum c = base + word_of_int d" by (auto simp: near_def)
  have "(word_of_int (uint (nd_inodeNum c) - uint base) :: u16) = word_of_int d"
  proof -
    have m: "(uint base + d) mod 2 ^ 32 mod 2 ^ 16 = (uint base + d) mod 2 ^ 16" by (rule mod_mod_cancel) simp
    have "uint (nd_inodeNum c) = (uint base + d) mod 2 ^ 32"
      unfolding d(3) by (simp add: uint_word_ariths uint_word_of_int mod_simps)
    then have "(uint (nd_inodeNum c) - uint base) mod 2 ^ 16 = ((uint base + d) mod 2 ^ 16 - uint base) mod 2 ^ 16"
      using m by (metis mod_diff_left_eq)
    also have "\<dots> = d mod 2 ^ 16" by (simp add: mod_diff_left_eq)
    finally have "take_bit LENGTH(16) (uint (nd_inodeNum c) - uint base) = take_bit LENGTH(16) d"
      by (simp add: take_bit_eq_mod)
    then show ?thesis by (simp only: word_of_int_eq_iff)
  qed
  moreover have "sint (word_of_int d :: u16) = d"
    using d(1,2) by (simp add: signed_of_int signed_take_bit_int_eq_self)
  ultimately have "de_Number (entryOf base c) = word_of_int (sint base + d)" by (simp add: entryOf_def)
  also have "\<dots> = nd_inodeNum c" unfolding d(3) by simp
  finally show ?thesis .
qed

lemma listingEntries_numbers:
  assumes "\<forall>x\<in>set cs. \<forall>y\<in>set cs. nodeBlock x = nodeBlock y \<longrightarrow> near (nd_inodeNum x) (nd_inodeNum y)"
  shows "map de_Number (listingEntries cs) = map nd_inodeNum cs"
  using assms
proof (induction cs rule: listingEntries.induct)
  case (1 cs)
  show ?case
  proof (cases "cs = []")
    case True
    then show ?thesis by (simp add: listingEntries.simps)
  next
    case False
    note facts = dirGroup_facts [OF False]
    have "map de_Number (listingEntries (drop (length (dirGroup cs)) cs)) = map nd_inodeNum (drop (length (dirGroup cs)) cs)"
      by (rule "1.IH" [OF False]) (use "1.prems" in_set_dropD in fast)
    moreover have "map de_Number (map (entryOf (nd_inodeNum (hd cs))) (dirGroup cs)) = map nd_inodeNum (dirGroup cs)"
      using "1.prems" facts(4) False by (auto intro!: entryOf_number)
    ultimately have "map de_Number (listingEntries cs) = map nd_inodeNum (dirGroup cs @ drop (length (dirGroup cs)) cs)"
      using False by (simp add: listingEntries.simps [of cs])
    then show ?thesis by (simp only: facts(5))
  qed
qed

end
