(* ===== verification/ImageRoundTrip.thy ===== *)
theory ImageRoundTrip
  imports TreeView TreeEmission InodeSpacing
begin

text \<open>
  The image \<^verbatim>\<open>buildImage\<close> returns, opened by the reader: where its tables are,
  that the references of the emitted nodes lead to their inodes, and that the
  opened file system shows the tree.
\<close>

section \<open>The finished image\<close>

lemma same_codec_superblock: "same_codec a b \<Longrightarrow> superblock a = superblock b"
  by (simp add: fun_eq_iff superblock_def superblockFlags_def hasCompressorOptions_def same_codec_def)

lemma same_codec_frag_table: "same_codec a b \<Longrightarrow> frag_table a = frag_table b"
  by (simp add: fun_eq_iff frag_table_def meta_has_def same_codec_meta)

lemma same_codec_data_update [simp]: "same_codec (a\<lparr>iw_data := x\<rparr>) b = same_codec a b"
  by (simp add: same_codec_def)

lemma same_codec_sym: "same_codec a b \<Longrightarrow> same_codec b a"
  by (simp add: same_codec_def)

definition table_bytes :: "imageWriter \<Rightarrow> bytes \<Rightarrow> bytes" where
  "table_bytes w log = mw_out (mw_finish w (mw_of w log))"

lemma fragmentTable_phase:
  assumes "(if length (iw_fragEntries iw) > 0 then writeFragmentTable iw else (bytesUsedNoTable, iw)) = (fstart, iw')"
    and "superblockSize \<le> length (iw_data iw)" "same_codec iw w"
  obtains e where "iw' = iw\<lparr>iw_data := iw_data iw @ e\<rparr>"
    "iw_fragEntries iw \<noteq> [] \<Longrightarrow> frag_table w (iw_data iw') fstart (iw_fragEntries iw)"
proof (cases "length (iw_fragEntries iw) > 0")
  case True
  with assms(1) have "writeFragmentTable iw = (fstart, iw')" by simp
  from writeFragmentTable_has [OF this assms(2)] that show thesis
    by (auto simp: same_codec_frag_table [OF assms(3)])
next
  case False
  with assms(1) that [of "[]"] show thesis by simp
qed

lemma finishImage_layout:
  assumes inv: "ginv w iw G" and codec: "codec_agrees w d"
  obtains iw1 G1 ext fstart idStart used cnt where
    "ginv w iw1 G1" "gext iw G iw1 G1" "iw_fragBuf iw1 = []"
    "finishImage iw ref =
       superblock w ref cnt (of_nat (length (iw_data iw1)))
         (of_nat (length (iw_data iw1 @ table_bytes w (g_li G1)))) idStart fstart
         (of_nat (length (g_frags G1))) used @
       drop superblockSize (iw_data iw1 @ table_bytes w (g_li G1) @ table_bytes w (g_ld G1) @ ext)"
    "g_frags G1 \<noteq> [] \<longrightarrow>
       frag_table w (iw_data iw1 @ table_bytes w (g_li G1) @ table_bytes w (g_ld G1) @ ext) fstart (iw_fragEntries iw1)"
proof -
  from flushFragment_ghost [OF inv codec] obtain G1 where
    g: "ginv w (flushFragment iw) G1" "gext iw G (flushFragment iw) G1" "iw_fragBuf (flushFragment iw) = []" by blast
  define iw1 where "iw1 = flushFragment iw"
  note D = ginvD [OF g(1), folded iw1_def]
  let ?it = "table_bytes w (g_li G1)" and ?dt = "table_bytes w (g_ld G1)"
  have fin: "mw_out (mw_finish iw1 (iw_inodes iw1)) = ?it" "mw_out (mw_finish iw1 (iw_dirs iw1)) = ?dt"
    using D(4,5) same_codec_mw_finish [OF D(1)] by (simp_all add: table_bytes_def)
  define iw3 where "iw3 = iw1\<lparr>iw_data := iw_data iw1 @ ?it @ ?dt\<rparr>"
  have sc3: "same_codec iw3 w" using D(1) by (simp add: iw3_def)
  obtain fstart iw4 where w4: "(if length (iw_fragEntries iw3) > 0 then writeFragmentTable iw3 else (bytesUsedNoTable, iw3)) = (fstart, iw4)"
    by fastforce
  have sb3: "superblockSize \<le> length (iw_data iw3)" using D(3) by (simp add: iw3_def)
  obtain e1 where e1: "iw4 = iw3\<lparr>iw_data := iw_data iw3 @ e1\<rparr>"
    and ft: "iw_fragEntries iw3 \<noteq> [] \<Longrightarrow> frag_table w (iw_data iw4) fstart (iw_fragEntries iw3)"
    by (rule fragmentTable_phase [OF w4 sb3 sc3]) blast
  let ?e2 = "metaBlockBytes iw4 (replicate 4 0)"
  let ?e3 = "PutUint64 (of_nat (length (iw_data iw4)))"
  define ext where "ext = e1 @ ?e2 @ ?e3"
  let ?data = "iw_data iw1 @ ?it @ ?dt @ ext"
  let ?iw6 = "iw4\<lparr>iw_data := ?data\<rparr>"
  have sc6: "same_codec ?iw6 w" using sc3 by (simp add: e1)
  have d4: "iw_data iw4 = iw_data iw1 @ ?it @ ?dt @ e1" by (simp add: e1 iw3_def)
  have fe: "iw_fragEntries iw4 = iw_fragEntries iw1" by (simp add: e1 iw3_def)
  have iw5: "writeMetaBlock iw4 (replicate 4 0) = iw4\<lparr>iw_data := iw_data iw4 @ ?e2\<rparr>" by (simp add: writeMetaBlock_def)
  have st: "iw1\<lparr>iw_data := iw_data iw1 @ ?it\<rparr>\<lparr>iw_data := iw_data (iw1\<lparr>iw_data := iw_data iw1 @ ?it\<rparr>) @ ?dt\<rparr> = iw3"
    by (simp add: iw3_def)
  have st6: "iw4\<lparr>iw_data := iw_data iw4 @ ?e2\<rparr>\<lparr>iw_data := iw_data (iw4\<lparr>iw_data := iw_data iw4 @ ?e2\<rparr>) @ ?e3\<rparr> = ?iw6"
    by (simp add: d4 ext_def)
  have img: "finishImage iw ref =
      superblock w ref (iw_inodeNum iw1) (of_nat (length (iw_data iw1))) (of_nat (length (iw_data iw1 @ ?it)))
        (of_nat (length (iw_data iw4 @ ?e2))) fstart (of_nat (length (g_frags G1))) (of_nat (length ?data)) @
      drop superblockSize ?data"
    unfolding finishImage_def Let_def iw1_def [symmetric] fin st w4 prod.case iw5 st6 same_codec_superblock [OF sc6]
    by (simp add: fe D(7) del: drop_append)
  have "frag_table w ?data fstart (iw_fragEntries iw1)" if "g_frags G1 \<noteq> []"
  proof -
    have "iw_fragEntries iw3 \<noteq> []" using that D(7) by (auto simp: iw3_def)
    from frag_table_append [OF ft [OF this], of "?e2 @ ?e3"] show ?thesis by (simp add: d4 ext_def) (simp add: iw3_def)
  qed
  with that g img show thesis unfolding iw1_def by blast
qed


section \<open>References lead to what was written\<close>

lemma table_out: "length (mw_out (mw_of w a)) \<le> length (table_bytes w (a @ b))"
  unfolding table_bytes_def mw_finish_of logBlocks_append [of a b] by (simp add: mw_of_def)

lemma table_cursor:
  assumes fs: "fs_rs fs = bytesReader img" "codec_agrees w (fs_d fs)" "length img < 2 ^ 32"
    and img: "img = pre @ table_bytes w log @ post" and ref: "at_ref w log ref bs" "bs \<noteq> []"
  obtains c rest where
    "newMetaCursor fs (of_nat (length pre) + drop_bit 16 ref) (unat (ref AND 0xFFFF)) None = (Inr c, None)"
    "avail fs c (bs @ rest)" "unat ref < 2 ^ 48"
proof -
  from ref(1) obtain a b where ab: "log = a @ bs @ b" "ref = mw_ref (mw_of w a)" by (auto simp: at_ref_def)
  have img48: "length img < 2 ^ 48" using fs(3) by simp
  have ne: "bs @ b \<noteq> []" using ref(2) by simp
  obtain c where c: "newMetaCursor fs (of_nat (length pre) + drop_bit 16 ref) (unat (ref AND 0xFFFF)) None = (Inr c, None)"
    "avail fs c (bs @ b)"
    using cursor_at_ref [OF fs(1,2) img48 img [unfolded table_bytes_def ab(1)] ne]
    unfolding ab(2) [symmetric] inodeRef_def by (metis prod.inject)
  have out: "length (mw_out (mw_of w a)) < 2 ^ 32"
  proof -
    have "length (mw_out (mw_of w a)) \<le> length (table_bytes w log)" unfolding ab(1) by (rule table_out)
    also have "\<dots> \<le> length img" by (simp add: img)
    finally show ?thesis using fs(3) by simp
  qed
  have "length (mw_buf (mw_of w a)) < 2 ^ 16" using length_lastPart [of a] by (simp add: mw_of_def metaBlockMax_def)
  from inodeRef_mw_ref [OF _ this] out have "drop_bit 16 ref = of_nat (length (mw_out (mw_of w a)))"
    by (simp add: ab(2) inodeRef_def)
  then have "unat (drop_bit 16 ref) < 2 ^ 32" using out by (simp add: unat_of_nat63)
  then have "unat ref div 2 ^ 16 < 2 ^ 32" by (simp add: drop_bit_eq_div unat_div)
  then have "unat ref < 2 ^ 48" by (simp add: div_less_iff_less_mult)
  with that c show thesis by blast
qed

text \<open>All the reader needs to know of an image to read back placed nodes.\<close>

definition frags_sized :: "FS \<Rightarrow> (nat \<times> nat) list \<Rightarrow> bool" where
  "frags_sized fs E \<longleftrightarrow>
     (\<forall>k. case fst (readFragmentEntry fs k None) of
        Inl e \<Rightarrow> True
      | Inr fe \<Rightarrow> \<exists>m. fe_start fe = of_nat m \<and> (m, stored_len (fe_sizeWord fe)) \<in> set E)"

definition image_view ::
  "FS \<Rightarrow> imageWriter \<Rightarrow> bytes \<Rightarrow> (nat \<Rightarrow> bytes option) \<Rightarrow> (nat \<times> nat) list \<Rightarrow> bytes \<Rightarrow> bytes \<Rightarrow> bool" where
  "image_view fs w img F E li ld \<longleftrightarrow>
     reads_image fs w img \<and> frags_read fs F \<and> frag_small F \<and>
     ext_ok (length img) E \<and> frags_sized fs E \<and>
     (\<exists>pre post. img = pre @ table_bytes w li @ post \<and> sb_InodeTableStart (fs_sb fs) = of_nat (length pre)) \<and>
     (\<exists>pre post. img = pre @ table_bytes w ld @ post \<and> sb_DirTableStart (fs_sb fs) = of_nat (length pre))"

lemma image_view_inode:
  assumes "image_view fs w img F E li ld" "at_ref w li ref bs" "bs \<noteq> []"
  shows "\<exists>rest. inode_cursor fs ref (bs @ rest)" "unat ref < 2 ^ 48"
proof -
  from assms(1) obtain pre post where i: "fs_rs fs = bytesReader img" "codec_agrees w (fs_d fs)" "length img < 2 ^ 32"
    "img = pre @ table_bytes w li @ post" "sb_InodeTableStart (fs_sb fs) = of_nat (length pre)"
    unfolding image_view_def reads_image_def by (elim conjE exE) blast
  obtain c rest where "newMetaCursor fs (of_nat (length pre) + drop_bit 16 ref) (unat (ref AND 0xFFFF)) None = (Inr c, None)"
    "avail fs c (bs @ rest)" "unat ref < 2 ^ 48"
    by (rule table_cursor [OF i(1-4) assms(2,3)])
  then show "\<exists>rest. inode_cursor fs ref (bs @ rest)" "unat ref < 2 ^ 48"
    by (auto simp: inode_cursor_def inodeRef_def i(5))
qed

lemma image_view_dir:
  assumes "image_view fs w img F E li ld" "at_ref w ld ref bs" "bs \<noteq> []"
  shows "\<exists>rest. dir_cursor fs (ucast (drop_bit 16 ref)) (ucast (ref AND 0xFFFF)) (bs @ rest)"
proof -
  from assms(1) obtain pre post where i: "fs_rs fs = bytesReader img" "codec_agrees w (fs_d fs)" "length img < 2 ^ 32"
    "img = pre @ table_bytes w ld @ post" "sb_DirTableStart (fs_sb fs) = of_nat (length pre)"
    unfolding image_view_def reads_image_def by (elim conjE exE) blast
  obtain c rest where c: "newMetaCursor fs (of_nat (length pre) + drop_bit 16 ref) (unat (ref AND 0xFFFF)) None = (Inr c, None)"
    "avail fs c (bs @ rest)" "unat ref < 2 ^ 48"
    by (rule table_cursor [OF i(1-4) assms(2,3)])
  have "unat (take_bit 48 ref) = unat ref" using c(3) by (simp only: unsigned_take_bit_eq take_bit_nat_eq_self)
  then have "take_bit 48 ref = ref" by (rule unsigned_word_eqI)
  then have b: "bit ref k \<Longrightarrow> k < 48" for k by (metis bit_take_bit_iff)
  have m: "ref AND 0xFFFF = take_bit 16 ref" by (simp add: take_bit_eq_mask mask_numeral)
  have "ucast (ucast (drop_bit 16 ref) :: u32) = drop_bit 16 ref"
    by (rule bit_word_eqI) (auto simp: bit_simps dest: b)
  moreover have "unat (ucast (ref AND 0xFFFF) :: u16) = unat (ref AND 0xFFFF)"
    unfolding m by (simp add: unsigned_ucast_eq unsigned_take_bit_eq)
  ultimately show ?thesis using c by (auto simp: dir_cursor_def i(5))
qed


section \<open>Placed nodes are shown\<close>

lemma list_all2_sort_key:
  assumes "list_all2 R xs ys" "\<And>x y. R x y \<Longrightarrow> f x = g y"
  shows "list_all2 R (sort_key f xs) (sort_key g ys)"
proof -
  have ins: "list_all2 R (insort_key f x as) (insort_key g y bs)" if "R x y" "list_all2 R as bs" for x y as bs
    using that(2) by (induction rule: list_all2_induct) (auto simp: that(1) assms(2) [OF that(1)] dest: assms(2))
  from assms(1) show ?thesis by (induction rule: list_all2_induct) (auto intro: ins)
qed

lemma emitted_fields:
  assumes "emitted n n'"
  shows "nd_name n' = nd_name n" "nd_mode n' = nd_mode n" "nd_target n' = nd_target n" "nd_data n' = nd_data n"
  using assms by (cases; simp)+

text \<open>What a tree must satisfy for the fields of the format to hold it.\<close>

fun tree_ok :: "node \<Rightarrow> bool" where
  "tree_ok (Node name mode uid gid target content cs ref num) =
     (if mode AND 0xF000 = sIFDIR then
        distinct (map nd_name cs) \<and> (\<Sum>c\<leftarrow>cs. 20 + length (nd_name c)) + 3 < 2 ^ 16 \<and>
        (\<forall>c\<in>set cs. name_ok (nd_name c) \<and> tree_ok c)
      else if mode AND 0xF000 = sIFLNK then length target \<le> metaBlockMax
      else mode AND 0xF000 = sIFREG \<and> length content < 2 ^ 32)"

lemma mode_recompose: "(mode AND 0xFFF) OR (mode AND 0xF000) = (mode :: u16)"
proof -
  have m: "(0xFFF :: u16) = mask 12" "(0xF000 :: u16) = NOT (mask 12)" by (simp_all add: mask_eq_exp_minus_1)
  show ?thesis unfolding m by (rule bit_word_eqI) (auto simp: bit_simps)
qed

lemma PutUint16_ne [simp]: "PutUint16 x \<noteq> []"
  using length_Put(1) [of x] by (metis list.size(3) zero_neq_numeral)

lemma symlinkInodeBytes_ne [simp]: "symlinkInodeBytes mode num t \<noteq> []"
  and fileInodeBytes_ne [simp]: "fileInodeBytes mode num a b c d e \<noteq> []"
  and dirInodeBytes_ne [simp]: "dirInodeBytes mode num x y z u \<noteq> []"
  by (simp_all add: symlinkInodeBytes_def fileInodeBytes_def dirInodeBytes_def)

lemma placed_ref:
  assumes "image_view fs w img F E li ld" "placed w data F' E li ld n"
  shows "unat (nd_inodeRef n) < 2 ^ 48"
proof (cases n)
  case (Node name mode uid gid target content cs ref num)
  with assms(2) have "\<exists>bs. at_ref w li ref bs \<and> bs \<noteq> []"
    by (auto simp: file_placed_def dir_placed_def split: if_splits)
  with image_view_inode(2) [OF assms(1)] Node show ?thesis by auto
qed

lemma ucast_of_nat32: "m < 2 ^ 32 \<Longrightarrow> ucast (ucast (of_nat m :: u64) :: u32) = (of_nat m :: u64)"
proof -
  assume m: "m < 2 ^ 32"
  have "unat (ucast (of_nat m :: u64) :: u32) = m" using m by (simp add: unsigned_ucast_eq unsigned_of_nat take_bit_nat_eq_self)
  then have "unat (ucast (ucast (of_nat m :: u64) :: u32) :: u64) = unat (of_nat m :: u64)"
    using m by (simp add: unat_of_nat63 unsigned_of_nat take_bit_nat_eq_self)
  then show ?thesis by (rule unsigned_word_eqI)
qed

text \<open>The stored length of the block at an offset, from the extents.\<close>

definition stored_at :: "(nat \<times> nat) list \<Rightarrow> int64 \<Rightarrow> int64" where
  "stored_at E off = (case map_of E (unat off) of None \<Rightarrow> 0 | Some l \<Rightarrow> of_nat l)"

lemma sized_extent:
  assumes "ext_ok n E" "n < 2 ^ 32" "(m, stored_len sz) \<in> set E"
  shows "sized (stored_at E) (of_nat m) sz"
proof -
  have "m < 2 ^ 63" using assms by (auto simp: ext_ok_def)
  moreover have "map_of E m = Some (stored_len sz)" using assms(1,3) by (simp add: ext_ok_def)
  ultimately have "stored_at E (of_nat m) = blockOnDiskBytes sz"
    by (simp add: stored_at_def unat_of_nat63 stored_len_def)
  then show ?thesis by (simp add: sized_def blockOnDiskSize_def)
qed

lemma blocks_sized_extents:
  assumes "ext_ok n E" "n < 2 ^ 32" "set (extents_of m szs) \<subseteq> set E"
  shows "blocks_sized (stored_at E) (of_nat m) szs"
  using assms(3)
proof (induction szs arbitrary: m)
  case (Cons sz szs)
  have "of_nat m + blockOnDiskBytes sz = of_nat (m + stored_len sz)" by (simp add: stored_len_def)
  moreover have "blocks_sized (stored_at E) (of_nat (m + stored_len sz)) szs"
    by (rule Cons.IH) (use Cons.prems in simp)
  ultimately show ?case using Cons.prems sized_extent [OF assms(1,2)] by (simp del: of_nat_add)
qed simp

text \<open>The extents of a placed file and of the fragments give one stored length per offset.\<close>

lemma file_placed_sized:
  assumes view: "image_view fs w img F E li ld" and es: "set (extents_of m szs) \<subseteq> set E" and m: "m < 2 ^ 32"
    and i: "in_blocksStart i = ucast (ucast (of_nat m :: u64) :: u32)" "in_blockSizes i = szs"
  shows "file_sized (stored_at E) fs i"
proof -
  have E: "ext_ok (length img) E" "frags_sized fs E" and l32: "length img < 2 ^ 32"
    using view by (simp_all add: image_view_def reads_image_def)
  have "fragment_sized (stored_at E) fs (in_fragIdx i)"
    using E(2) sized_extent [OF E(1) l32] unfolding fragment_sized_def frags_sized_def
    by (auto split: sum.splits) (metis sum.simps(6))
  with blocks_sized_extents [OF E(1) l32 es] show ?thesis
    by (simp add: file_sized_def i ucast_of_nat32 [OF m])
qed

lemma file_shown:
  assumes view: "image_view fs w img F E li ld" and mk: "makeBytes_ok mk"
    and pl: "file_placed w img F E li mode content ref num" and k: "mode AND 0xF000 = sIFREG" and len: "length content < 2 ^ 32"
    and n: "nd_mode n = mode" "nd_data n = content" "nb \<Longrightarrow> nd_inodeNum n = num"
  shows "\<exists>i. readInode fs ref None = (Inr i, None) \<and> in_Number i = num \<and> shown nb mk (stored_at E) fs n i"
proof -
  from view have fs: "reads_image fs w img" "frags_read fs F" "frag_small F" by (simp_all add: image_view_def)
  then have bs: "sb_BlockSize (fs_sb fs) = defaultBlockSize" and l32: "length img < 2 ^ 32" by (simp_all add: reads_image_def)
  from pl obtain m fragIdx fragOffset szs where
    at: "at_ref w li ref (fileInodeBytes mode num (ucast (of_nat m :: u64)) fragIdx fragOffset (of_nat (length content)) szs)"
    and m: "m \<le> length img" and ok: "file_ok w img F content (of_nat m) fragIdx fragOffset szs"
    and es: "set (extents_of m szs) \<subseteq> set E"
    unfolding file_placed_def by blast
  let ?b = "ucast (of_nat m :: u64) :: u32"
  let ?i = "fileInode mode num ?b fragIdx fragOffset (of_nat (length content)) szs"
  have m32: "m < 2 ^ 32" using m l32 by simp
  have ok': "file_ok w img F content (ucast ?b) fragIdx fragOffset szs" using ok by (simp only: ucast_of_nat32 [OF m32])
  note cnt = file_ok_count [OF ok' len fs(3)]
  obtain rest where "inode_cursor fs ref (fileInodeBytes mode num ?b fragIdx fragOffset (of_nat (length content)) szs @ rest)"
    using image_view_inode(1) [OF view at] by auto
  then have rd: "readInode fs ref None = (Inr ?i, None)"
    by (rule readInode_file) (use cnt(1,2) in \<open>simp_all add: bs\<close>)
  have us: "(ucast (of_nat (length content) :: u32) :: u64) = of_nat (length content)"
    using len by (simp add: unsigned_of_nat take_bit_nat_eq_self)
  have size: "in_Size ?i = of_nat (length content)" by (simp add: fileInode_def us)
  have "readFileLimit mk fs ?i maxLen None =
      (if 0 \<le>s maxLen \<and> maxLen < of_nat (length content) then Inl (Wrapped ErrTooLarge) else Inr content, None)" for maxLen
  proof (cases "0 \<le>s maxLen \<and> maxLen < of_nat (length content)")
    case True
    have "in_Size ?i \<le> maxFileBytes fs ?i"
      by (rule maxFileBytes_ok(1) [OF _ _ size len bs]) (use cnt in \<open>simp_all add: fileInode_def\<close>)
    with True show ?thesis by (simp add: readFileLimit_def size not_less)
  next
    case False
    then have "0 \<le>s maxLen \<Longrightarrow> of_nat (length content) \<le> maxLen" by (auto simp: not_less)
    from readFileLimit_file_ok [OF fs(1) ok' fs(2,3) mk len this] False show ?thesis by simp
  qed
  moreover have "in_Mode ?i = mode" using mode_recompose [of mode] k by (simp add: fileInode_def)
  moreover have "file_sized (stored_at E) fs ?i"
    by (rule file_placed_sized [OF view es m32]) (simp_all add: fileInode_def)
  ultimately have "shown nb mk (stored_at E) fs n ?i"
    using k size n by (intro shown.regular) (simp_all add: fileInode_def isRegular_def)
  with rd show ?thesis by (intro exI [of _ ?i]) (simp add: fileInode_def)
qed

lemma link_shown:
  assumes view: "image_view fs w img F E li ld" and at: "at_ref w li ref (symlinkInodeBytes mode num target)"
    and k: "mode AND 0xF000 = sIFLNK" "length target \<le> metaBlockMax" and n: "nd_mode n = mode" "nd_target n = target"
      "nb \<Longrightarrow> nd_inodeNum n = num"
  shows "\<exists>i. readInode fs ref None = (Inr i, None) \<and> in_Number i = num \<and> shown nb mk (stored_at E) fs n i"
proof -
  obtain rest where "inode_cursor fs ref (symlinkInodeBytes mode num target @ rest)"
    using image_view_inode(1) [OF view at] by auto
  then have "readInode fs ref None = (Inr (symlinkInode mode num target), None)" using k(2) by (rule readInode_symlink)
  moreover have "shown nb mk (stored_at E) fs n (symlinkInode mode num target)"
    using k n mode_recompose [of mode] by (intro shown.link) (simp_all add: symlinkInode_def isSymlink_def)
  moreover have "in_Number (symlinkInode mode num target) = num" by (simp add: symlinkInode_def)
  ultimately show ?thesis by blast
qed

lemma listingEntries_rel:
  assumes "\<And>x. x \<in> set cs \<Longrightarrow> unat (nd_inodeRef x) < 2 ^ 48"
  shows "list_all2 (\<lambda>e c. de_Name e = nd_name c \<and> de_Type e = dirEntryType (nd_mode c) \<and> de_InodeRef e = nd_inodeRef c)
    (listingEntries cs) cs"
  using listingEntries_facts(1,2) [of cs] listingEntries_facts(3) [OF assms]
  by (auto simp: list_all2_conv_all_nth length_listingEntries list_eq_iff_nth_eq)

lemma listingEntries_rel_numbers:
  assumes "\<And>x. x \<in> set cs \<Longrightarrow> unat (nd_inodeRef x) < 2 ^ 48"
    and "\<forall>x\<in>set cs. \<forall>y\<in>set cs. nodeBlock x = nodeBlock y \<longrightarrow> near (nd_inodeNum x) (nd_inodeNum y)"
  shows "list_all2 (\<lambda>e c. de_Name e = nd_name c \<and> de_Type e = dirEntryType (nd_mode c) \<and> de_InodeRef e = nd_inodeRef c \<and>
      de_Number e = nd_inodeNum c) (listingEntries cs) cs"
  using listingEntries_rel [OF assms(1)] listingEntries_numbers [OF assms(2)]
  by (auto simp: list_all2_conv_all_nth list_eq_iff_nth_eq)

lemma dir_shown:
  assumes view: "image_view fs w img F E li ld" and pl: "dir_placed w li ld mode cs ref num"
    and refs: "\<And>c. c \<in> set cs \<Longrightarrow> unat (nd_inodeRef c) < 2 ^ 48" and names: "\<And>c. c \<in> set cs \<Longrightarrow> name_ok (nd_name c)"
    and len: "(\<Sum>c\<leftarrow>cs. 20 + length (nd_name c)) + 3 < 2 ^ 16"
    and nums: "\<forall>x\<in>set cs. \<forall>y\<in>set cs. nodeBlock x = nodeBlock y \<longrightarrow> near (nd_inodeNum x) (nd_inodeNum y)"
    and n: "nd_mode n = mode" "mode AND 0xF000 = sIFDIR" "distinct (map nd_name (nd_children n))" "nb \<Longrightarrow> nd_inodeNum n = num"
    and ch: "list_all2 (\<lambda>c c'. nd_name c' = nd_name c \<and> nd_mode c' = nd_mode c \<and>
        (\<exists>j. readInode fs (nd_inodeRef c') None = (Inr j, None) \<and> in_Number j = nd_inodeNum c' \<and> shown nb mk (stored_at E) fs c j)) (sort_key nd_name (nd_children n)) cs"
  shows "\<exists>i. readInode fs ref None = (Inr i, None) \<and> in_Number i = num \<and> shown nb mk (stored_at E) fs n i"
proof -
  from pl obtain dref where d: "at_ref w ld dref (buildDirListing cs)"
    "at_ref w li ref (dirInodeBytes mode num (ucast (drop_bit 16 dref)) (length cs) (length (buildDirListing cs)) (ucast (dref AND 0xFFFF)))"
    unfolding dir_placed_def by blast
  let ?i = "dirInode mode num (ucast (drop_bit 16 dref)) (length (buildDirListing cs)) (ucast (dref AND 0xFFFF))"
  have l16: "length (buildDirListing cs) + 3 < 2 ^ 16" using length_buildDirListing(2) [of cs] len by simp
  obtain rest where "inode_cursor fs ref (dirInodeBytes mode num (ucast (drop_bit 16 dref)) (length cs)
      (length (buildDirListing cs)) (ucast (dref AND 0xFFFF)) @ rest)"
    using image_view_inode(1) [OF view d(2)] by auto
  then have rd: "readInode fs ref None = (Inr ?i, None)" using l16 by (rule readInode_dir)
  obtain rest2 where cur: "cs \<noteq> [] \<Longrightarrow> dir_cursor fs (ucast (drop_bit 16 dref)) (ucast (dref AND 0xFFFF)) (buildDirListing cs @ rest2)"
  proof (cases "cs = []")
    case False
    then have "buildDirListing cs \<noteq> []" using length_buildDirListing(1) [of cs] by auto
    with image_view_dir [OF view d(1)] that show thesis by blast
  qed (use that in simp)
  have dr: "readDir fs ?i None = (Inr (listingEntries cs), None)"
    by (rule readDir_listing [OF cur names l16])
  have "list_all2 (\<lambda>e c. de_Name e = nd_name c \<and> de_Type e = dirEntryType (nd_mode c) \<and>
      (\<exists>j. readInode fs (de_InodeRef e) None = (Inr j, None) \<and> de_Number e = in_Number j \<and> shown nb mk (stored_at E) fs c j))
      (listingEntries cs) (sort_key nd_name (nd_children n))"
  proof (rule list_all2_trans [OF _ listingEntries_rel_numbers [OF refs nums]])
    show "list_all2 (\<lambda>c' c. nd_name c' = nd_name c \<and> nd_mode c' = nd_mode c \<and>
        (\<exists>j. readInode fs (nd_inodeRef c') None = (Inr j, None) \<and> in_Number j = nd_inodeNum c' \<and> shown nb mk (stored_at E) fs c j)) cs (sort_key nd_name (nd_children n))"
      using ch by (auto simp: list_all2_conv_all_nth)
  qed auto
  with dr n mode_recompose [of mode] have "shown nb mk (stored_at E) fs n ?i"
    by (intro shown.directory) (simp_all add: dirInode_def isDir_def)
  with rd show ?thesis by (intro exI [of _ ?i]) (simp add: dirInode_def)
qed

text \<open>Emission keeps the names of the children, so the checks on them carry over.\<close>

lemma children_names:
  assumes nm: "map nd_name cs' = map nd_name cs"
  shows "(\<Sum>c\<leftarrow>sort_key nd_name cs'. 20 + length (nd_name c)) = (\<Sum>c\<leftarrow>cs. 20 + length (nd_name c))"
    and "nd_name ` set cs' = nd_name ` set cs"
proof -
  have "(\<Sum>c\<leftarrow>sort_key nd_name cs'. 20 + length (nd_name c)) = (\<Sum>c\<leftarrow>cs'. 20 + length (nd_name c))"
    by (rule sum_list_sort_key)
  also have "\<dots> = sum_list (map (\<lambda>s. 20 + length s) (map nd_name cs'))" by (simp add: comp_def)
  finally show "(\<Sum>c\<leftarrow>sort_key nd_name cs'. 20 + length (nd_name c)) = (\<Sum>c\<leftarrow>cs. 20 + length (nd_name c))"
    unfolding nm by (simp add: comp_def)
  show "nd_name ` set cs' = nd_name ` set cs" using nm by (metis list.set_map)
qed

text \<open>
  A placed inode shows the node that was emitted, and, with its number, the node the
  emission returned.
\<close>

definition both_shown :: "makeBytesFn \<Rightarrow> (int64 \<Rightarrow> int64) \<Rightarrow> FS \<Rightarrow> node \<Rightarrow> node \<Rightarrow> bool" where
  "both_shown mk W fs n n' \<longleftrightarrow>
     (\<exists>i. readInode fs (nd_inodeRef n') None = (Inr i, None) \<and> in_Number i = nd_inodeNum n' \<and>
       shown False mk W fs n i \<and> shown True mk W fs n' i)"

lemma both_shownI:
  assumes "\<exists>i. readInode fs (nd_inodeRef n') None = (Inr i, None) \<and> in_Number i = nd_inodeNum n' \<and> shown False mk W fs n i"
    and "\<exists>i. readInode fs (nd_inodeRef n') None = (Inr i, None) \<and> in_Number i = nd_inodeNum n' \<and> shown True mk W fs n' i"
  shows "both_shown mk W fs n n'"
  using assms by (auto simp: both_shown_def)

lemma both_dir_shown:
  assumes view: "image_view fs w img F E li ld" and pl: "dir_placed w li ld mode (sort_key nd_name cs') ref' num'"
    and k: "mode AND 0xF000 = sIFDIR" and refs: "\<And>c. c \<in> set cs' \<Longrightarrow> unat (nd_inodeRef c) < 2 ^ 48"
    and ok: "distinct (map nd_name cs)" "(\<Sum>c\<leftarrow>cs. 20 + length (nd_name c)) + 3 < 2 ^ 16" "\<And>c. c \<in> set cs \<Longrightarrow> name_ok (nd_name c)"
    and close: "\<forall>x\<in>set cs'. \<forall>y\<in>set cs'. nodeBlock x = nodeBlock y \<longrightarrow> near (nd_inodeNum x) (nd_inodeNum y)"
    and rel: "list_all2 (\<lambda>c c'. nd_name c' = nd_name c \<and> nd_mode c' = nd_mode c \<and> both_shown mk (stored_at E) fs c c') cs cs'"
  shows "both_shown mk (stored_at E) fs (Node name mode uid gid target content cs ref num)
    (Node name mode uid gid target content (sort_key nd_name cs') ref' num')"
proof (rule both_shownI)
  let ?cs = "sort_key nd_name cs'"
  have nm: "map nd_name cs' = map nd_name cs" using rel by (induction rule: list_all2_induct) simp_all
  note len = children_names(1) [OF nm] and nset = children_names(2) [OF nm]
  have srt: "list_all2 (\<lambda>c c'. nd_name c' = nd_name c \<and> nd_mode c' = nd_mode c \<and> both_shown mk (stored_at E) fs c c') (sort_key nd_name cs) ?cs"
    by (rule list_all2_sort_key [OF rel]) simp
  have common: "unat (nd_inodeRef c) < 2 ^ 48" "name_ok (nd_name c)" if "c \<in> set ?cs" for c
    using that refs nset ok(3) by (auto, metis image_iff)
  have l: "(\<Sum>c\<leftarrow>?cs. 20 + length (nd_name c)) + 3 < 2 ^ 16" using ok(2) len by simp
  have cl: "\<forall>x\<in>set ?cs. \<forall>y\<in>set ?cs. nodeBlock x = nodeBlock y \<longrightarrow> near (nd_inodeNum x) (nd_inodeNum y)" using close by simp
  note dir = dir_shown [OF view pl common l cl]
  have "\<exists>i. readInode fs ref' None = (Inr i, None) \<and> in_Number i = num' \<and>
      shown False mk (stored_at E) fs (Node name mode uid gid target content cs ref num) i"
    using k ok(1) srt by (intro dir) (auto simp: both_shown_def elim!: list_all2_mono)
  then show "\<exists>i. readInode fs (nd_inodeRef (Node name mode uid gid target content ?cs ref' num')) None = (Inr i, None) \<and>
      in_Number i = nd_inodeNum (Node name mode uid gid target content ?cs ref' num') \<and>
      shown False mk (stored_at E) fs (Node name mode uid gid target content cs ref num) i" by simp
  have "list_all2 (\<lambda>c c'. nd_name c' = nd_name c \<and> nd_mode c' = nd_mode c \<and>
      (\<exists>j. readInode fs (nd_inodeRef c') None = (Inr j, None) \<and> in_Number j = nd_inodeNum c' \<and> shown True mk (stored_at E) fs c j)) ?cs ?cs"
    using srt by (auto simp: list_all2_conv_all_nth both_shown_def)
  moreover have "distinct (map nd_name ?cs)" using ok(1) unfolding nm [symmetric] by (simp add: distinct_map)
  ultimately have "\<exists>i. readInode fs ref' None = (Inr i, None) \<and> in_Number i = num' \<and>
      shown True mk (stored_at E) fs (Node name mode uid gid target content ?cs ref' num') i"
    using k by (intro dir) (simp_all add: sort_key_id_if_sorted)
  then show "\<exists>i. readInode fs (nd_inodeRef (Node name mode uid gid target content ?cs ref' num')) None = (Inr i, None) \<and>
      in_Number i = nd_inodeNum (Node name mode uid gid target content ?cs ref' num') \<and>
      shown True mk (stored_at E) fs (Node name mode uid gid target content ?cs ref' num') i" by simp
qed

lemma placed_shown:
  assumes view: "image_view fs w img F E li ld" and mk: "makeBytes_ok mk"
  shows "\<lbrakk>emitted n n'; placed w img F E li ld n'; tree_ok n; numbers_close n'\<rbrakk> \<Longrightarrow> both_shown mk (stored_at E) fs n n'"
proof (induction n n' rule: emitted.induct)
  case (dir mode cs cs' name uid gid target content ref num ref' num')
  from dir.prems(1) dir.hyps(1) have pl: "dir_placed w li ld mode (sort_key nd_name cs') ref' num'"
    and pc: "\<And>c. c \<in> set cs' \<Longrightarrow> placed w img F E li ld c" by simp_all
  from dir.prems(2) dir.hyps(1) have ok: "distinct (map nd_name cs)" "(\<Sum>c\<leftarrow>cs. 20 + length (nd_name c)) + 3 < 2 ^ 16"
    "\<And>c. c \<in> set cs \<Longrightarrow> name_ok (nd_name c) \<and> tree_ok c" by simp_all
  from dir.prems(3) dir.hyps(1) have close: "\<And>c. c \<in> set cs' \<Longrightarrow> numbers_close c"
    "\<forall>x\<in>set cs'. \<forall>y\<in>set cs'. nodeBlock x = nodeBlock y \<longrightarrow> near (nd_inodeNum x) (nd_inodeNum y)" by simp_all
  have rel: "list_all2 (\<lambda>c c'. nd_name c' = nd_name c \<and> nd_mode c' = nd_mode c \<and> both_shown mk (stored_at E) fs c c') cs cs'"
    using dir.IH
  proof (rule list.rel_mono_strong)
    fix c c' assume c: "c \<in> set cs" "c' \<in> set cs'"
      and r: "emitted c c' \<and> (placed w img F E li ld c' \<longrightarrow> tree_ok c \<longrightarrow> numbers_close c' \<longrightarrow> both_shown mk (stored_at E) fs c c')"
    with ok(3) [OF c(1)] pc [OF c(2)] close(1) [OF c(2)] emitted_fields
    show "nd_name c' = nd_name c \<and> nd_mode c' = nd_mode c \<and> both_shown mk (stored_at E) fs c c'" by blast
  qed
  show ?case
    by (rule both_dir_shown [OF view pl dir.hyps(1) _ ok(1,2) _ close(2) rel]) (use placed_ref [OF view pc] ok(3) in auto)
next
  case (leaf mode name uid gid target content cs ref num ref' num')
  show ?case
  proof (cases "mode AND 0xF000 = sIFLNK")
    case True
    with leaf link_shown [OF view, of ref' mode num' target] show ?thesis by (intro both_shownI) simp_all
  next
    case False
    with leaf file_shown [OF view mk, of mode content ref' num'] show ?thesis by (intro both_shownI) simp_all
  qed
qed


section \<open>Inode numbers do not depend on the encoding\<close>

text \<open>
  The tree with the inode numbers its emission gives out after \<open>k\<close> others: children
  before their directory, in the order of the listing. They depend neither on the
  encoder nor on the options.
\<close>

fun numbered :: "u32 \<Rightarrow> node \<Rightarrow> node \<times> u32"
  and numberedAll :: "u32 \<Rightarrow> node list \<Rightarrow> node list \<times> u32" where
  "numbered k (Node name mode uid gid target content cs ref num) =
     (if mode AND 0xF000 = sIFDIR then
        (case numberedAll k cs of (cs', k') \<Rightarrow>
           (Node name mode uid gid target content (sort_key nd_name cs') 0 (k' + 1), k' + 1))
      else (Node name mode uid gid target content (map unref cs) 0 (k + 1), k + 1))"
| "numberedAll k [] = ([], k)"
| "numberedAll k (c # cs) =
     (case numbered k c of (c', k1) \<Rightarrow> case numberedAll k1 cs of (cs', k2) \<Rightarrow> (c' # cs', k2))"

text \<open>What an emitter returns has the fields of the node it was given.\<close>

lemma emitter_fields:
  "emitFileInode iw n = Inr (n', iw') \<Longrightarrow>
    n' = Node (nd_name n) (nd_mode n) (nd_uid n) (nd_gid n) (nd_target n) (nd_data n) (nd_children n) (nd_inodeRef n') (nd_inodeNum n')"
  "emitSymlinkInode iw n = (n', iw') \<Longrightarrow>
    n' = Node (nd_name n) (nd_mode n) (nd_uid n) (nd_gid n) (nd_target n) (nd_data n) (nd_children n) (nd_inodeRef n') (nd_inodeNum n')"
  "emitDirInode iw n = Inr (n', iw') \<Longrightarrow>
    n' = Node (nd_name n) (nd_mode n) (nd_uid n) (nd_gid n) (nd_target n) (nd_data n) (sort_key nd_name (nd_children n))
      (nd_inodeRef n') (nd_inodeNum n')"
  by (auto simp: emitFileInode_def emitSymlinkInode_def emitDirInode_def Let_def split: prod.splits)

lemma unref_eq:
  "n' = Node name mode uid gid target content cs (nd_inodeRef n') (nd_inodeNum n') \<Longrightarrow>
    unref n' = Node name mode uid gid target content (map unref cs) 0 (nd_inodeNum n')"
  by (cases n') simp

lemma inode_emitted_number:
  "inode_emitted iw n n' iw' \<Longrightarrow> nd_inodeNum n' = iw_inodeNum iw + 1 \<and> iw_inodeNum iw' = iw_inodeNum iw + 1"
  by (auto simp: inode_emitted_def)

lemma emission_numbered:
  "emitNode iw n = Inr (n', iw') \<Longrightarrow> numbered (iw_inodeNum iw) n = (unref n', iw_inodeNum iw')"
  "emitNodes iw ns = Inr (ns', iw') \<Longrightarrow> numberedAll (iw_inodeNum iw) ns = (map unref ns', iw_inodeNum iw')"
proof (induction iw n and iw ns arbitrary: n' iw' and ns' iw' rule: emitNode_emitNodes.induct)
  case (1 iw name mode uid gid target content children ref num)
  show ?case
  proof (cases "mode AND 0xF000 = sIFDIR")
    case True
    obtain cs iw1 where cs: "emitNodes iw children = Inr (cs, iw1)"
      and em: "emitDirInode iw1 (Node name mode uid gid target content cs ref num) = Inr (n', iw')"
      by (rule emitNode_dirE [OF "1.prems" True])
    from "1.IH" [OF True cs] True unref_eq [OF emitter_fields(3) [OF em, simplified]]
      inode_emitted_number [OF conjunct1 [OF emitDirInode_emits [OF em]]] show ?thesis
      by (simp add: sort_key_unref)
  next
    case False
    let ?n = "Node name mode uid gid target content children ref num"
    from "1.prems" False have "emitSymlinkInode iw ?n = (n', iw') \<or> emitFileInode iw ?n = Inr (n', iw')" by (auto split: if_splits)
    then have "inode_emitted iw ?n n' iw' \<and> n' = Node name mode uid gid target content children (nd_inodeRef n') (nd_inodeNum n')"
    proof
      assume e: "emitSymlinkInode iw ?n = (n', iw')"
      from emitSymlinkInode_emits [OF e] emitter_fields(2) [OF e] show ?thesis unfolding node.sel by (rule conjI)
    next
      assume e: "emitFileInode iw ?n = Inr (n', iw')"
      from emitFileInode_emits [OF e] emitter_fields(1) [OF e] show ?thesis unfolding node.sel by (rule conjI)
    qed
    from inode_emitted_number [OF conjunct1 [OF this]] unref_eq [OF conjunct2 [OF this]] False show ?thesis by simp
  qed
next
  case (3 iw c cs)
  obtain c' iw1 cs' where c: "emitNode iw c = Inr (c', iw1)" and cs: "emitNodes iw1 cs = Inr (cs', iw')" and "ns' = c' # cs'"
    by (rule emitNodes_ConsE [OF "3.prems"])
  with "3.IH"(1) [OF c] "3.IH"(2) [OF c refl cs] show ?case by simp
qed simp


section \<open>Opening the image\<close>

lemma ginv_start:
  assumes "newImageWriter opts cmp = w"
  defines "iw1 \<equiv> writeCompressorOptions (w\<lparr>iw_data := replicate superblockSize 0\<rparr>)"
  shows "ginv w iw1 \<lparr>g_li = [], g_ld = [], g_frags = [], g_ext = []\<rparr>"
  using assms(1)
  by (auto simp: iw1_def ginv_def writeCompressorOptions_def newImageWriter_def same_codec_def mw_of_nil Let_def)

definition optionsBlock :: bytes where
  "optionsBlock = PutUint16 (8 OR metaHeaderCompressedBit) @ PutUint32 lz4OptionsVersion @ PutUint32 lz4OptionsFlagHC"

lemma start_data:
  assumes "newImageWriter opts cmp = w"
  shows "iw_data (writeCompressorOptions (w\<lparr>iw_data := replicate superblockSize 0\<rparr>)) =
     replicate superblockSize 0 @ (if hasCompressorOptions w then optionsBlock else [])"
  by (simp add: writeCompressorOptions_def hasCompressorOptions_def optionsBlock_def Let_def)

lemma flags_options: "superblockFlags w cnt AND sbFlagCompressorOptions = 0 \<longleftrightarrow> \<not> hasCompressorOptions w"
  by (simp add: superblockFlags_def sbFlagCompressorOptions_def flagNoXattrs_def flagNoFragments_def
      flagUncompressedInodes_def flagUncompressedData_def flagCompressorOptions_def)

lemma readCompressorOptions_written:
  assumes img: "img = sbb @ optionsBlock @ post" "length sbb = superblockSize" "length img < 2 ^ 32"
  shows "readCompressorOptions (bytesReader img) sb = Inr ()"
proof -
  let ?h = "PutUint16 (8 OR metaHeaderCompressedBit)" and ?p = "PutUint32 lz4OptionsVersion @ PutUint32 lz4OptionsFlagHC"
  have i1: "img = sbb @ ?h @ (?p @ post)" and i2: "img = (sbb @ ?h) @ ?p @ post"
    using img(1) by (simp_all add: optionsBlock_def)
  have small: "length img < 2 ^ 63" using img(3) by simp
  have pne: "?p \<noteq> []" using length_Put(2) [of lz4OptionsVersion] by (metis append_is_Nil_conv list.size(3) zero_neq_numeral)
  have r1: "ReadAt (bytesReader img) (of_nat superblockSize) 2 = Inr ?h"
    using ReadAt_piece [OF i1 small] img(2) by simp
  have r2: "ReadAt (bytesReader img) (of_nat (superblockSize + 2)) 8 = Inr ?p"
    using ReadAt_piece [OF i2 small pne] img(2) by (simp del: of_nat_add)
  have h: "unat ((8 OR metaHeaderCompressedBit) AND NOT 0x8000) = 8" by (simp add: metaHeaderCompressedBit_def)
  have u: "Uint16 ?h = 8 OR metaHeaderCompressedBit" by simp
  show ?thesis
    unfolding readCompressorOptions_def r1 sum.case Let_def u h r2 by (simp add: metaBlockMax_def)
qed

text \<open>The configuration \<^verbatim>\<open>buildImage\<close> sets up, and the decoder the reader picks for it.\<close>

lemma buildImage_setup:
  assumes "buildImage libs root opts = Inr img" "codec_libs_ok libs"
  obtains cmp w iw1 root' iw2 d where
    "newImageWriter opts cmp = w" "iw1 = writeCompressorOptions (w\<lparr>iw_data := replicate superblockSize 0\<rparr>)"
    "emitNode iw1 root = Inr (root', iw2)" "img = finishImage iw2 (nd_inodeRef root')"
    "newDecompressor libs (case iw_comp w of None \<Rightarrow> compGZIP | Some k \<Rightarrow> comp_id k) = Inr d" "codec_agrees w d"
proof -
  obtain cmp root' iw2 where cmp: "(if bo_Uncompressed opts then Inr None
      else bindE (newCompressor libs (bo_Compressor opts)) (\<lambda>c. Inr (Some c))) = Inr cmp"
    and em: "emitNode (writeCompressorOptions ((newImageWriter opts cmp)\<lparr>iw_data := replicate superblockSize 0\<rparr>)) root = Inr (root', iw2)"
    and img: "img = finishImage iw2 (nd_inodeRef root')"
    by (rule buildImageE [OF assms(1)])
  define w where "w = newImageWriter opts cmp"
  define iw1 where "iw1 = writeCompressorOptions (w\<lparr>iw_data := replicate superblockSize 0\<rparr>)"
  note em = em [folded w_def, folded iw1_def]
  have f: "iw_comp w = cmp" "iw_opts w = opts" by (simp_all add: w_def newImageWriter_def)
  obtain d where "newDecompressor libs (case iw_comp w of None \<Rightarrow> compGZIP | Some k \<Rightarrow> comp_id k) = Inr d" "codec_agrees w d"
  proof (cases "bo_Uncompressed opts")
    case True
    then have "iw_comp w = None" using cmp f by simp
    then show thesis using that [of "gzipDecompress libs"]
      by (simp add: newDecompressor_def codec_agrees_def)
  next
    case False
    then obtain k where k: "newCompressor libs (bo_Compressor opts) = Inr k" "cmp = Some k"
      using cmp by (auto simp: bindE_eq_Inr)
    from newCompressor_pair [OF assms(2) k(1)] newCompressor_nonempty [OF assms(2) k(1)] that f(1) k(2) show thesis
      by (auto simp: codec_agrees_def)
  qed
  with that [OF w_def [symmetric] iw1_def em img] show thesis by blast
qed

text \<open>The view of the image, from the layout.\<close>

text \<open>The fragments of a finished image: the reader finds each entry, its block and its extent.\<close>

lemma frags_of_layout:
  assumes inv: "ginv w iw G" "iw_fragBuf iw = []" and ri: "reads_image fs w img"
    and n32: "length (g_frags G) < 2 ^ 32" and cnt: "sb_FragCount (fs_sb fs) = of_nat (length (g_frags G))"
    and tab: "g_frags G \<noteq> [] \<Longrightarrow> frag_table w img (sb_FragTableStart (fs_sb fs)) (iw_fragEntries iw)"
    and has: "\<And>off sz X. data_has w (iw_data iw) off sz X \<Longrightarrow> data_has w img off sz X"
  shows "frags_sized fs (g_ext G)" "frags_read fs (fragAt iw G)" "frag_small (fragAt iw G)"
proof -
  note D = ginvD [OF inv(1)]
  have at: "fragAt iw G k = (if k < length (g_frags G) then Some (g_frags G ! k) else None)" for k
    using inv(2) by (simp add: fragAt_def)
  then show "frag_small (fragAt iw G)" using n32 by (auto simp: frag_small_def split: if_splits)
  have entry: "readFragmentEntry fs (of_nat k) None = (Inr (iw_fragEntries iw ! k), None)" if "k < length (g_frags G)" for k
    by (rule readFragmentEntry_table [OF ri tab]) (use cnt D(7) n32 that in auto)
  show "frags_sized fs (g_ext G)"
    unfolding frags_sized_def
  proof
    fix k :: u32
    show "case fst (readFragmentEntry fs k None) of Inl e \<Rightarrow> True
      | Inr fe \<Rightarrow> \<exists>m. fe_start fe = of_nat m \<and> (m, stored_len (fe_sizeWord fe)) \<in> set (g_ext G)"
    proof (cases "unat k < length (g_frags G)")
      case True
      with entry [OF True] inv(1) show ?thesis by (simp add: ginv_def of_nat_unat)
    next
      case False
      then have "sb_FragCount (fs_sb fs) \<le> k" using n32 by (simp add: cnt word_le_nat_alt unat_of_nat)
      then show ?thesis by (simp add: readFragmentEntry_def)
    qed
  qed
  show "frags_read fs (fragAt iw G)"
    unfolding frags_read_def
  proof (intro allI impI)
    fix k X assume "fragAt iw G k = Some X"
    then have k: "k < length (g_frags G)" "X = g_frags G ! k" by (simp_all add: at split: if_splits)
    let ?e = "iw_fragEntries iw ! k"
    have X: "X \<noteq> []" "length X \<le> unat defaultBlockSize" "data_has w (iw_data iw) (fe_start ?e) (fe_sizeWord ?e) X"
      using inv(1) k by (auto simp: ginv_def unat_defaultBlockSize)
    from readBlock_data_has(1) [OF ri has [OF X(3)] X(1,2)] entry [OF k(1)] show "readFragment fs (of_nat k) None = (Inr X, None)"
      by (simp add: readFragment_def)
  qed
qed

lemma view_of_layout:
  assumes inv: "ginv w iw G" "iw_fragBuf iw = []"
    and img: "img = sbb @ drop superblockSize (iw_data iw @ table_bytes w (g_li G) @ table_bytes w (g_ld G) @ ext)"
      "length sbb = superblockSize" "length img < 2 ^ 32"
    and fs: "fs_rs fs = bytesReader img" "codec_agrees w (fs_d fs)" "fs_size fs = of_nat (length img)"
    and sb: "sb_BlockSize (fs_sb fs) = defaultBlockSize" "sb_FragCount (fs_sb fs) = of_nat (length (g_frags G))"
      "sb_InodeTableStart (fs_sb fs) = of_nat (length (iw_data iw))"
      "sb_DirTableStart (fs_sb fs) = of_nat (length (iw_data iw @ table_bytes w (g_li G)))"
    and ft: "g_frags G \<noteq> [] \<Longrightarrow> frag_table w (iw_data iw @ table_bytes w (g_li G) @ table_bytes w (g_ld G) @ ext)
      (sb_FragTableStart (fs_sb fs)) (iw_fragEntries iw)"
  shows "image_view fs w img (fragAt iw G) (g_ext G) (g_li G) (g_ld G)"
proof -
  note D = ginvD [OF inv(1)]
  let ?it = "table_bytes w (g_li G)" and ?dt = "table_bytes w (g_ld G)"
  let ?d0 = "sbb @ drop superblockSize (iw_data iw)"
  have l0: "length ?d0 = length (iw_data iw)" using img(2) D(3) by simp
  have i1: "img = ?d0 @ ?it @ (?dt @ ext)" and i2: "img = (?d0 @ ?it) @ ?dt @ ext"
    using img(1) D(3) by simp_all
  have ri: "reads_image fs w img" using fs sb(1) img(3) D(8) by (simp add: reads_image_def)
  have nf: "length (g_frags G) \<le> length (iw_data iw)" using inv(1) by (simp add: ginv_def)
  have li: "length (iw_data iw) \<le> length img" using l0 i1 by (metis le_add1 length_append)
  then have n32: "length (g_frags G) < 2 ^ 32" using nf img(3) by linarith
  have tab: "g_frags G \<noteq> [] \<Longrightarrow> frag_table w img (sb_FragTableStart (fs_sb fs)) (iw_fragEntries iw)"
    unfolding img(1) by (rule frag_table_patch [OF ft img(2)])
  have has: "data_has w (iw_data iw) off sz X \<Longrightarrow> data_has w img off sz X" for off sz X
    unfolding img(1) by (rule data_has_patch [OF data_has_append img(2)])
  note fr = frags_of_layout [OF inv ri n32 sb(2) tab has]
  have "ext_ok (length img) (g_ext G)" using inv(1) li by (auto simp: ginv_def intro: ext_ok_mono)
  moreover have "sb_InodeTableStart (fs_sb fs) = of_nat (length ?d0)" using sb(3) l0 by simp
  moreover have "sb_DirTableStart (fs_sb fs) = of_nat (length (?d0 @ ?it))"
    unfolding sb(4) length_append [of "iw_data iw"] length_append [of ?d0] l0 ..
  ultimately show ?thesis unfolding image_view_def using ri i1 i2 fr by blast
qed

lemma placed_patch:
  assumes "placed w data F E li ld n" "length sbb = superblockSize" "superblockSize \<le> length data"
  shows "placed w (sbb @ drop superblockSize data) F E li ld n"
  using assms(1)
proof (induction n)
  case (Node name mode uid gid target content cs ref num)
  have "length data \<le> length (sbb @ drop superblockSize data)" using assms(2,3) by simp
  then have f: "file_placed w (sbb @ drop superblockSize data) F E li mode content ref num"
    if "file_placed w data F E li mode content ref num"
    using that file_ok_patch [OF _ assms(2)] unfolding file_placed_def by (meson le_trans)
  show ?case
    using Node f by auto
qed

text \<open>A built image opens, and what is opened shows the tree.\<close>

text \<open>The options block behind the superblock, if the encoder has one, is where the reader looks.\<close>

lemma options_of_layout:
  assumes w: "newImageWriter opts cmp = w"
    and pre: "prefix (iw_data (writeCompressorOptions (w\<lparr>iw_data := replicate superblockSize 0\<rparr>))) data"
    and img: "img = sbb @ drop superblockSize (data @ post)" "length sbb = superblockSize" "length img < 2 ^ 32"
    and sb: "sb_Flags sb = superblockFlags w cnt"
  shows "readCompressorOptions (bytesReader img) sb = Inr ()"
proof (cases "hasCompressorOptions w")
  case True
  then obtain r where "data = replicate superblockSize 0 @ optionsBlock @ r"
    using start_data [OF w] pre by (auto simp: prefix_def)
  then have "img = sbb @ optionsBlock @ (r @ post)" using img(1) by simp
  then show ?thesis by (rule readCompressorOptions_written [OF _ img(2,3)])
next
  case False
  then show ?thesis by (simp add: readCompressorOptions_def sb flags_options)
qed

lemma start_number: "newImageWriter opts cmp = w \<Longrightarrow> iw_inodeNum (writeCompressorOptions (w\<lparr>iw_data := d\<rparr>)) = 0"
  by (auto simp: writeCompressorOptions_def newImageWriter_def Let_def)

lemma close_of_layout:
  assumes w: "newImageWriter opts cmp = w"
    and iw1: "iw1 = writeCompressorOptions (w\<lparr>iw_data := replicate superblockSize 0\<rparr>)"
    and em: "emitNode iw1 root = Inr (root', iw2)" and g2: "ginv w iw2 G2" "prefix (g_li G2) li"
    and len: "length (table_bytes w li) < 2 ^ 32"
  shows "numbers_close root'"
proof (rule emission_close [OF em, of w])
  show "iw_inodes iw1 = mw_of w []" "same_codec iw1 w" using ginvD(1,4) [OF ginv_start [OF w, folded iw1]] by simp_all
  show "iw_inodeNum iw1 = 0" unfolding iw1 by (rule start_number [OF w])
  from g2(2) obtain r where "li = g_li G2 @ r" by (auto simp: prefix_def)
  with table_out [of w "g_li G2" r] len ginvD(4) [OF g2(1)] show "length (mw_out (iw_inodes iw2)) < 2 ^ 32" by simp
qed

text \<open>A built image: the emitted tree is placed in it, and its parts follow each other.\<close>

lemma buildImage_layout:
  assumes build: "buildImage libs root opts = Inr img" and libs: "codec_libs_ok libs" and len: "length img < 2 ^ 32"
  obtains cmp w d root' iw G ext fstart idStart used cnt where
    "newImageWriter opts cmp = w"
    "newDecompressor libs (case iw_comp w of None \<Rightarrow> compGZIP | Some k \<Rightarrow> comp_id k) = Inr d" "codec_agrees w d"
    "ginv w iw G" "iw_fragBuf iw = []"
    "prefix (iw_data (writeCompressorOptions (w\<lparr>iw_data := replicate superblockSize 0\<rparr>))) (iw_data iw)"
    "img = superblock w (nd_inodeRef root') cnt (of_nat (length (iw_data iw)))
         (of_nat (length (iw_data iw @ table_bytes w (g_li G)))) idStart fstart (of_nat (length (g_frags G))) used @
       drop superblockSize (iw_data iw @ table_bytes w (g_li G) @ table_bytes w (g_ld G) @ ext)"
    "g_frags G \<noteq> [] \<longrightarrow>
       frag_table w (iw_data iw @ table_bytes w (g_li G) @ table_bytes w (g_ld G) @ ext) fstart (iw_fragEntries iw)"
    "emitted root root'" "numbers_close root'" "placed w img (fragAt iw G) (g_ext G) (g_li G) (g_ld G) root'"
    "unref root' = fst (numbered 0 root)"
proof -
  from buildImage_setup [OF build libs] obtain cmp w iw1 root' iw2 d where
    w: "newImageWriter opts cmp = w" and iw1: "iw1 = writeCompressorOptions (w\<lparr>iw_data := replicate superblockSize 0\<rparr>)"
    and em: "emitNode iw1 root = Inr (root', iw2)" and img: "img = finishImage iw2 (nd_inodeRef root')"
    and d: "newDecompressor libs (case iw_comp w of None \<Rightarrow> compGZIP | Some k \<Rightarrow> comp_id k) = Inr d" "codec_agrees w d"
    by blast
  from emitNode_ghost(1) [OF d(2) ginv_start [OF w, folded iw1] em] obtain G2 where
    g2: "ginv w iw2 G2" "gext iw1 \<lparr>g_li = [], g_ld = [], g_frags = [], g_ext = []\<rparr> iw2 G2" "placed_in w iw2 G2 root'" "emitted root root'"
    by blast
  obtain iw G ext fstart idStart used cnt where
    g: "ginv w iw G" "gext iw2 G2 iw G" "iw_fragBuf iw = []" and fin: "img =
       superblock w (nd_inodeRef root') cnt (of_nat (length (iw_data iw)))
         (of_nat (length (iw_data iw @ table_bytes w (g_li G)))) idStart fstart (of_nat (length (g_frags G))) used @
       drop superblockSize (iw_data iw @ table_bytes w (g_li G) @ table_bytes w (g_ld G) @ ext)"
    and ft: "g_frags G \<noteq> [] \<longrightarrow>
       frag_table w (iw_data iw @ table_bytes w (g_li G) @ table_bytes w (g_ld G) @ ext) fstart (iw_fragEntries iw)"
    unfolding img by (rule finishImage_layout [OF g2(1) d(2), where ref = "nd_inodeRef root'"]) blast
  have pre: "prefix (iw_data (writeCompressorOptions (w\<lparr>iw_data := replicate superblockSize 0\<rparr>))) (iw_data iw)"
    using g2(2) g(2) unfolding iw1 by (auto simp: gext_def intro: prefix_order.trans)
  have "prefix (g_li G2) (g_li G)" using g(2) by (simp add: gext_def)
  moreover have "length (table_bytes w (g_li G)) \<le> length img" unfolding fin using ginvD(3) [OF g(1)] by (simp add: superblockSize_def)
  ultimately have close: "numbers_close root'" using len by (intro close_of_layout [OF w iw1 em g2(1)]) (assumption, linarith)
  have "placed w (iw_data iw @ table_bytes w (g_li G) @ table_bytes w (g_ld G) @ ext) (fragAt iw G) (g_ext G) (g_li G) (g_ld G) root'"
    using placed_in_gext [OF g2(3) g(2)] unfolding placed_in_def by (rule placed_mono) (auto intro: exI [of _ "[]"])
  from placed_patch [OF this, of "superblock w (nd_inodeRef root') cnt (of_nat (length (iw_data iw)))
      (of_nat (length (iw_data iw @ table_bytes w (g_li G)))) idStart fstart (of_nat (length (g_frags G))) used"] ginvD(3) [OF g(1)]
  have "placed w img (fragAt iw G) (g_ext G) (g_li G) (g_ld G) root'" by (simp add: superblockSize_def fin)
  moreover have "unref root' = fst (numbered 0 root)"
    using emission_numbered(1) [OF em] start_number [OF w] by (simp add: iw1)
  ultimately show thesis by (rule that [OF w d g(1,3) pre fin ft g2(4) close])
qed

lemma buildImage_shows:
  assumes build: "buildImage libs root opts = Inr img" and libs: "codec_libs_ok libs" and mk: "makeBytes_ok mk"
    and ok: "tree_ok root" and len: "length img < 2 ^ 32"
  shows "\<exists>fs W. Open libs (bytesReader img) closer (of_nat (length img)) = Inr (fs, Some newBlockCache) \<and> fs_shows mk W fs root \<and>
    (\<exists>root'. tree_shown True mk W fs root' \<and> unref root' = fst (numbered 0 root))"
proof -
  obtain cmp w d root' iw G ext fstart idStart used cnt where
    w: "newImageWriter opts cmp = w"
    and d: "newDecompressor libs (case iw_comp w of None \<Rightarrow> compGZIP | Some k \<Rightarrow> comp_id k) = Inr d" "codec_agrees w d"
    and g: "ginv w iw G" "iw_fragBuf iw = []"
    and pre: "prefix (iw_data (writeCompressorOptions (w\<lparr>iw_data := replicate superblockSize 0\<rparr>))) (iw_data iw)"
    and fin: "img = superblock w (nd_inodeRef root') cnt (of_nat (length (iw_data iw)))
         (of_nat (length (iw_data iw @ table_bytes w (g_li G)))) idStart fstart (of_nat (length (g_frags G))) used @
       drop superblockSize (iw_data iw @ table_bytes w (g_li G) @ table_bytes w (g_ld G) @ ext)"
    and ft: "g_frags G \<noteq> [] \<longrightarrow>
       frag_table w (iw_data iw @ table_bytes w (g_li G) @ table_bytes w (g_ld G) @ ext) fstart (iw_fragEntries iw)"
    and root': "emitted root root'" "numbers_close root'" "placed w img (fragAt iw G) (g_ext G) (g_li G) (g_ld G) root'"
    and num: "unref root' = fst (numbered 0 root)"
    by (rule buildImage_layout [OF build libs len])
  define sbb where "sbb = superblock w (nd_inodeRef root') cnt (of_nat (length (iw_data iw)))
         (of_nat (length (iw_data iw @ table_bytes w (g_li G)))) idStart fstart (of_nat (length (g_frags G))) used"
  note fin' = fin [folded sbb_def]
  let ?fs = "\<lparr>fs_rs = bytesReader img, fs_size = of_nat (length img), fs_sb = decodeSuperblock sbb, fs_d = d, fs_closer = closer\<rparr>"
  have ls: "length sbb = superblockSize" by (simp add: sbb_def superblockSize_def)
  have bs: "iw_blockSize w = defaultBlockSize" by (rule ginvD(8) [OF g(1)])
  have l63: "length img < 2 ^ 63" using len by simp
  have rs: "readSuperblock (bytesReader img) = Inr (decodeSuperblock sbb)"
    unfolding sbb_def by (rule readSuperblock_superblock [OF fin bs l63])
  have "readCompressorOptions (bytesReader img) (decodeSuperblock sbb) = Inr ()"
    by (rule options_of_layout [OF w pre fin' ls len]) (simp add: sbb_def decode_superblock)
  with rs d(1) have open1: "Open libs (bytesReader img) closer (of_nat (length img)) = Inr (?fs, Some newBlockCache)"
    by (simp add: Open_Inr sbb_def decode_superblock)
  have view: "image_view ?fs w img (fragAt iw G) (g_ext G) (g_li G) (g_ld G)"
    by (rule view_of_layout [OF g fin' ls len]) (use d(2) ft bs in \<open>simp_all add: sbb_def decode_superblock\<close>)
  from placed_shown [OF view mk root'(1,3) ok root'(2)]
  have "fs_shows mk (stored_at (g_ext G)) ?fs root" "tree_shown True mk (stored_at (g_ext G)) ?fs root'"
    by (auto simp: both_shown_def tree_shown_def sbb_def decode_superblock hasXattrTable_def)
  with open1 num show ?thesis by blast
qed

end
