(* ===== verification/ImageSize.thy ===== *)
theory ImageSize
  imports ImageRoundTrip
begin

text \<open>
  How large an image gets. The writer never stores a block larger than its
  content; metadata costs two bytes per 8 KiB block; everything else is a fixed
  amount per node. The bound is what makes the 32-bit offsets of the format
  enough for a tree known in advance.
\<close>

section \<open>The metadata writer\<close>

lemma length_metaBlockBytes: "length (metaBlockBytes iw p) \<le> length p + 2"
proof -
  obtain stored compressed where c: "iw_compress iw p (bo_Uncompressed (iw_opts iw)) = (stored, compressed)" by fastforce
  with iw_compress_le [OF c] show ?thesis by (simp add: metaBlockBytes_def Let_def)
qed

text \<open>A potential for the writer: one block of 8192 bytes becomes at most 8194.\<close>

definition mw_potential :: "metaWriter \<Rightarrow> nat" where
  "mw_potential m = 4096 * length (mw_out m) + 4097 * length (mw_buf m)"

lemma mw_drain_potential: "mw_potential (mw_drain iw m) \<le> mw_potential m"
proof (induction iw m rule: mw_drain.induct)
  case (1 iw m)
  let ?p = "take metaBlockMax (mw_buf m)"
  let ?m = "(mw_emit iw m ?p)\<lparr>mw_buf := drop metaBlockMax (mw_buf m)\<rparr>"
  show ?case
  proof (cases "length (mw_buf m) \<ge> metaBlockMax")
    case True
    have "mw_potential ?m \<le> mw_potential m"
      using True length_metaBlockBytes [of iw ?p] by (simp add: mw_potential_def mw_emit_def metaBlockMax_def)
    with "1.IH" [OF True] True show ?thesis by (simp add: mw_drain.simps [of iw m])
  qed (simp add: mw_drain.simps [of iw m])
qed

lemma mw_write_potential: "mw_potential (mw_write iw m x) \<le> mw_potential m + 4097 * length x"
  using mw_drain_potential [of iw "m\<lparr>mw_buf := mw_buf m @ x\<rparr>"] by (simp add: mw_write_def mw_potential_def)

lemma mw_finish_size: "4096 * length (mw_out (mw_finish iw m)) \<le> mw_potential m + 8192"
  using length_metaBlockBytes [of iw "mw_buf m"] by (simp add: mw_finish_def mw_emit_def mw_potential_def)


section \<open>Data blocks and fragments\<close>

lemma writeDataBlock_size:
  assumes "writeDataBlock iw b = (sz, iw')"
  shows "iw' = iw\<lparr>iw_data := iw_data iw'\<rparr>" "length (iw_data iw') \<le> length (iw_data iw) + length b"
proof -
  obtain stored compressed where c: "iw_compress iw b (bo_Uncompressed (iw_opts iw)) = (stored, compressed)" by fastforce
  with assms iw_compress_le [OF c] show "iw' = iw\<lparr>iw_data := iw_data iw'\<rparr>" "length (iw_data iw') \<le> length (iw_data iw) + length b"
    by (auto simp: writeDataBlock_def Let_def)
qed

lemma writeBlocks_size:
  assumes "writeBlocks iw d_b = (szs, iw')" "iw_blockSize iw = defaultBlockSize"
  shows "iw' = iw\<lparr>iw_data := iw_data iw'\<rparr> \<and> length (iw_data iw') \<le> length (iw_data iw) + length d_b \<and>
    length szs \<le> length d_b div defBS + 1"
  using assms
proof (induction iw d_b arbitrary: szs iw' rule: writeBlocks.induct)
  case (1 iw d_b)
  have bs: "unat (iw_blockSize iw) = defBS" and nz: "iw_blockSize iw \<noteq> 0"
    using 1(3) by (simp_all add: unat_defaultBlockSize) (simp add: defaultBlockSize_def)
  show ?case
  proof (cases "d_b = []")
    case True
    with 1(2) show ?thesis by (auto simp: writeBlocks.simps [of iw "[]"])
  next
    case False
    obtain sz iw1 where w: "writeDataBlock iw (take defBS d_b) = (sz, iw1)" by fastforce
    obtain szs2 iw2 where r: "writeBlocks iw1 (drop defBS d_b) = (szs2, iw2)" by fastforce
    from 1(2) w r False nz have res: "szs = sz # szs2" "iw' = iw2"
      by (auto simp: writeBlocks.simps [of iw d_b] bs)
    note s1 = writeDataBlock_size [OF w]
    have "iw_blockSize iw1 = defaultBlockSize" using s1(1) 1(3) by (metis imageWriter.select_convs(7) imageWriter.surjective imageWriter.update_convs(3))
    then have IH: "iw2 = iw1\<lparr>iw_data := iw_data iw2\<rparr> \<and> length (iw_data iw2) \<le> length (iw_data iw1) + length (drop defBS d_b) \<and>
      length szs2 \<le> length (drop defBS d_b) div defBS + 1"
      using 1(1) [of sz iw1 szs2 iw2] False nz w r bs by simp
    have st: "iw2 = iw\<lparr>iw_data := iw_data iw2\<rparr>" using IH s1(1) by (metis imageWriter.update_convs(3) imageWriter.surjective)
    have "length szs \<le> length d_b div defBS + 1"
    proof (cases "defBS \<le> length d_b")
      case True
      then have "length d_b div defBS = length (drop defBS d_b) div defBS + 1" by (simp add: le_div_geq)
      with IH show ?thesis by (simp add: res)
    next
      case F: False
      then have "drop defBS d_b = []" by simp
      with r have "szs2 = []" by (simp add: writeBlocks.simps)
      then show ?thesis by (simp add: res)
    qed
    moreover have "length (iw_data iw2) \<le> length (iw_data iw) + length d_b"
      using IH s1(2) by (simp add: min_def split: if_splits)
    ultimately show ?thesis using st unfolding res by simp
  qed
qed

text \<open>The fragment blocks written, and the one being filled.\<close>

definition frag_count :: "imageWriter \<Rightarrow> nat" where
  "frag_count iw = length (iw_fragEntries iw) + (if iw_fragBuf iw = [] then 0 else 1)"

definition iw_potential :: "imageWriter \<Rightarrow> nat" where
  "iw_potential iw =
     4097 * (length (iw_data iw) + length (iw_fragBuf iw) + 26 * frag_count iw) +
     mw_potential (iw_inodes iw) + mw_potential (iw_dirs iw)"

lemma flushFragment_size:
  "iw_potential (flushFragment iw) \<le> iw_potential iw" "iw_blockSize (flushFragment iw) = iw_blockSize iw"
  "frag_count (flushFragment iw) = frag_count iw" "iw_fragBuf (flushFragment iw) = []"
  "iw_inodes (flushFragment iw) = iw_inodes iw" "iw_dirs (flushFragment iw) = iw_dirs iw" "iw_opts (flushFragment iw) = iw_opts iw"
  "length (iw_data (flushFragment iw)) \<le> length (iw_data iw) + length (iw_fragBuf iw)"
proof -
  obtain sz iw1 where w: "writeDataBlock iw (iw_fragBuf iw) = (sz, iw1)" by fastforce
  obtain x where iw1: "iw1 = iw\<lparr>iw_data := x\<rparr>" using writeDataBlock_size(1) [OF w] by blast
  have "length x \<le> length (iw_data iw) + length (iw_fragBuf iw)" using writeDataBlock_size(2) [OF w] by (simp add: iw1)
  then show "iw_potential (flushFragment iw) \<le> iw_potential iw" "iw_blockSize (flushFragment iw) = iw_blockSize iw"
    "frag_count (flushFragment iw) = frag_count iw" "iw_fragBuf (flushFragment iw) = []"
    "iw_inodes (flushFragment iw) = iw_inodes iw" "iw_dirs (flushFragment iw) = iw_dirs iw" "iw_opts (flushFragment iw) = iw_opts iw"
    "length (iw_data (flushFragment iw)) \<le> length (iw_data iw) + length (iw_fragBuf iw)"
    by (auto simp: flushFragment_def w iw1 iw_potential_def frag_count_def)
qed

lemma addToFragment_size:
  assumes "addToFragment iw t = (idx, off, iw')"
  shows "iw_potential iw' \<le> iw_potential iw + 4097 * (length t + 26)" "iw_blockSize iw' = iw_blockSize iw"
proof -
  define iw1 where "iw1 = (if length (iw_fragBuf iw) + length t > unat (iw_blockSize iw) then flushFragment iw else iw)"
  have p: "iw_potential iw1 \<le> iw_potential iw" "iw_blockSize iw1 = iw_blockSize iw"
    using flushFragment_size(1,2) [of iw] by (simp_all add: iw1_def)
  have iw': "iw' = iw1\<lparr>iw_fragBuf := iw_fragBuf iw1 @ t\<rparr>"
    using assms by (auto simp: addToFragment_def iw1_def Let_def)
  then have "frag_count iw' \<le> frag_count iw1 + 1" by (simp add: frag_count_def)
  then have "iw_potential iw' \<le> iw_potential iw1 + 4097 * (length t + 26)" by (simp add: iw_potential_def iw')
  with p iw' show "iw_potential iw' \<le> iw_potential iw + 4097 * (length t + 26)" "iw_blockSize iw' = iw_blockSize iw" by simp_all
qed


section \<open>Trees\<close>

text \<open>What a tree costs: its contents, and for each node its inode, entry and share of the fragment table.\<close>

fun tree_bytes :: "node \<Rightarrow> nat" where
  "tree_bytes (Node name mode uid gid target content cs ref num) =
     length content + 4 * (length content div defBS) + length target + 62 +
     (\<Sum>c\<leftarrow>cs. 20 + length (nd_name c) + tree_bytes c)"

lemma write_inodes_size:
  "iw_potential (iw\<lparr>iw_inodeNum := k, iw_inodes := mw_write iw' (iw_inodes iw) x\<rparr>) \<le> iw_potential iw + 4097 * length x"
  using mw_write_potential [of iw' "iw_inodes iw" x] by (simp add: iw_potential_def frag_count_def)

lemma emitFileInode_size:
  assumes em: "emitFileInode iw n = Inr (n', iw')" and bs: "iw_blockSize iw = defaultBlockSize"
  shows "iw_potential iw' \<le> iw_potential iw + 4097 * (length (nd_data n) + 4 * (length (nd_data n) div defBS) + 62)"
    "iw_blockSize iw' = defaultBlockSize"
proof -
  have ubs: "unat (iw_blockSize iw) = defBS" using bs by (simp add: unat_defaultBlockSize)
  define fl where "fl = (if \<not> bo_NoFragments (iw_opts iw) then length (nd_data n) div defBS * defBS else length (nd_data n))"
  define m where "m = length (iw_data iw)"
  have fl_le: "fl \<le> length (nd_data n)" by (simp add: fl_def)
  obtain szs iw1 where wb: "writeBlocks iw (take fl (nd_data n)) = (szs, iw1)" by fastforce
  note w = writeBlocks_size [OF wb bs]
  obtain fragIdx fragOffset iw2 where
    fr: "(if \<not> bo_NoFragments (iw_opts iw) \<and> fl < length (nd_data n) then addToFragment iw1 (drop fl (nd_data n))
       else (invalidFrag, 0, iw1)) = (fragIdx, fragOffset, iw2)"
    by (metis prod_cases3)
  note em' = em [unfolded emitFileInode_def Let_def ubs, folded fl_def m_def, unfolded wb prod.case fr nextInode_def]
  obtain x where iw1: "iw1 = iw\<lparr>iw_data := x\<rparr>" "length x \<le> length (iw_data iw) + fl"
    using w fl_le by (metis length_take min.absorb2)
  then have p1: "iw_potential iw1 \<le> iw_potential iw + 4097 * fl" by (simp add: iw_potential_def frag_count_def)
  have p2: "iw_potential iw2 \<le> iw_potential iw1 + 4097 * (length (nd_data n) - fl + 26)" "iw_blockSize iw2 = defaultBlockSize"
    using fr addToFragment_size [of iw1 "drop fl (nd_data n)" fragIdx fragOffset iw2] iw1(1) bs by (auto split: if_splits)
  let ?b = "fileInodeBytes (nd_mode n) (iw_inodeNum iw2 + 1) (ucast (of_nat m :: u64)) fragIdx fragOffset (of_nat (length (nd_data n))) szs"
  have iw': "iw' = iw2\<lparr>iw_inodeNum := iw_inodeNum iw2 + 1, iw_inodes := mw_write (iw2\<lparr>iw_inodeNum := iw_inodeNum iw2 + 1\<rparr>) (iw_inodes iw2) ?b\<rparr>"
    using em' by simp
  have "fl div defBS \<le> length (nd_data n) div defBS" using fl_le by (rule div_le_mono)
  then have "length szs \<le> length (nd_data n) div defBS + 1" using w fl_le by (simp add: min.absorb2)
  then have "length ?b \<le> 36 + 4 * (length (nd_data n) div defBS)" by (simp add: fileInodeBytes_def w32.length_array)
  then have "4097 * length ?b \<le> 4097 * (36 + 4 * (length (nd_data n) div defBS))" by (rule mult_le_mono2)
  then have "iw_potential iw' \<le> iw_potential iw2 + 4097 * (36 + 4 * (length (nd_data n) div defBS))"
    unfolding iw' by (rule order_trans [OF write_inodes_size add_left_mono])
  then show "iw_potential iw' \<le> iw_potential iw + 4097 * (length (nd_data n) + 4 * (length (nd_data n) div defBS) + 62)"
    using p1 p2(1) fl_le by simp
  show "iw_blockSize iw' = defaultBlockSize" using iw' p2(2) by simp
qed

lemma emitSymlinkInode_size:
  assumes "emitSymlinkInode iw n = (n', iw')"
  shows "iw_potential iw' \<le> iw_potential iw + 4097 * (length (nd_target n) + 62)" "iw_blockSize iw' = iw_blockSize iw"
proof -
  let ?b = "symlinkInodeBytes (nd_mode n) (iw_inodeNum iw + 1) (nd_target n)"
  have iw': "iw' = iw\<lparr>iw_inodeNum := iw_inodeNum iw + 1, iw_inodes := mw_write (iw\<lparr>iw_inodeNum := iw_inodeNum iw + 1\<rparr>) (iw_inodes iw) ?b\<rparr>"
    using assms by (simp add: emitSymlinkInode_def nextInode_def Let_def)
  have "4097 * length ?b \<le> 4097 * (length (nd_target n) + 62)" by (simp add: symlinkInodeBytes_def)
  then show "iw_potential iw' \<le> iw_potential iw + 4097 * (length (nd_target n) + 62)"
    unfolding iw' by (rule order_trans [OF write_inodes_size add_left_mono])
  show "iw_blockSize iw' = iw_blockSize iw" by (simp add: iw')
qed

lemma emitDirInode_size:
  assumes "emitDirInode iw n = Inr (n', iw')"
  shows "iw_potential iw' \<le> iw_potential iw + 4097 * (62 + (\<Sum>c\<leftarrow>nd_children n. 20 + length (nd_name c)))"
    "iw_blockSize iw' = iw_blockSize iw"
proof -
  let ?cs = "sort_key nd_name (nd_children n)"
  let ?l = "buildDirListing ?cs"
  let ?dref = "mw_ref (iw_dirs iw)"
  let ?iw1 = "iw\<lparr>iw_dirs := mw_write iw (iw_dirs iw) ?l\<rparr>"
  let ?b = "dirInodeBytes (nd_mode n) (iw_inodeNum iw + 1) (ucast (drop_bit 16 ?dref)) (length ?cs) (length ?l) (ucast (?dref AND 0xFFFF))"
  have iw': "iw' = ?iw1\<lparr>iw_inodeNum := iw_inodeNum iw + 1, iw_inodes := mw_write (?iw1\<lparr>iw_inodeNum := iw_inodeNum iw + 1\<rparr>) (iw_inodes ?iw1) ?b\<rparr>"
    using assms by (simp add: emitDirInode_def nextInode_def Let_def)
  have "length ?l \<le> (\<Sum>c\<leftarrow>nd_children n. 20 + length (nd_name c))"
    using length_buildDirListing(2) [of ?cs] by (simp only: sum_list_sort_key)
  then have "4097 * length ?l \<le> 4097 * (\<Sum>c\<leftarrow>nd_children n. 20 + length (nd_name c))" by (rule mult_le_mono2)
  moreover have "iw_potential ?iw1 \<le> iw_potential iw + 4097 * length ?l"
    using mw_write_potential [of iw "iw_dirs iw" ?l] by (simp add: iw_potential_def frag_count_def)
  moreover have "iw_potential iw' \<le> iw_potential ?iw1 + 4097 * length ?b"
    unfolding iw' by (rule write_inodes_size)
  moreover have "length ?b = 32" by (simp add: dirInodeBytes_def)
  ultimately show "iw_potential iw' \<le> iw_potential iw + 4097 * (62 + (\<Sum>c\<leftarrow>nd_children n. 20 + length (nd_name c)))" by simp
  show "iw_blockSize iw' = iw_blockSize iw" by (simp add: iw')
qed

lemma emitNode_name: "emitNode iw n = Inr (n', iw') \<Longrightarrow> nd_name n' = nd_name n"
  by (cases n) (auto simp: emitFileInode_def emitSymlinkInode_def emitDirInode_def nextInode_def Let_def
      split: if_splits prod.splits sum.splits)

lemma emitNode_size:
  shows "\<lbrakk>emitNode iw n = Inr (n', iw'); iw_blockSize iw = defaultBlockSize\<rbrakk>
      \<Longrightarrow> iw_potential iw' \<le> iw_potential iw + 4097 * tree_bytes n \<and> iw_blockSize iw' = defaultBlockSize"
    and "\<lbrakk>emitNodes iw cs = Inr (cs', iw'); iw_blockSize iw = defaultBlockSize\<rbrakk>
      \<Longrightarrow> iw_potential iw' \<le> iw_potential iw + 4097 * (\<Sum>c\<leftarrow>cs. tree_bytes c) \<and>
        iw_blockSize iw' = defaultBlockSize \<and> map nd_name cs' = map nd_name cs"
proof (induction iw n and iw cs arbitrary: n' iw' and cs' iw' rule: emitNode_emitNodes.induct)
  case (1 iw name mode uid gid target content children ref num)
  let ?n = "\<lambda>cs. Node name mode uid gid target content cs ref num"
  show ?case
  proof (cases "mode AND 0xF000 = sIFDIR")
    case True
    obtain cs iw1 where cs: "emitNodes iw children = Inr (cs, iw1)"
      and em: "emitDirInode iw1 (Node name mode uid gid target content cs ref num) = Inr (n', iw')"
      by (rule emitNode_dirE [OF "1.prems"(1) True])
    note IH = "1.IH" [OF True cs "1.prems"(2)]
    have "(\<Sum>c\<leftarrow>cs. 20 + length (nd_name c)) = (\<Sum>c\<leftarrow>children. 20 + length (nd_name c))"
      using arg_cong [OF conjunct2 [OF conjunct2 [OF IH]], of "\<lambda>ns. sum_list (map (\<lambda>s. 20 + length s) ns)"]
      by (simp add: comp_def)
    moreover have "(\<Sum>c\<leftarrow>children. 20 + length (nd_name c) + tree_bytes c) =
        (\<Sum>c\<leftarrow>children. 20 + length (nd_name c)) + (\<Sum>c\<leftarrow>children. tree_bytes c)"
      by (rule sum_list_addf)
    ultimately show ?thesis using IH emitDirInode_size [OF em] by simp
  next
    case dir: False
    show ?thesis
    proof (cases "mode AND 0xF000 = sIFLNK")
      case True
      with dir "1.prems"(1) have "emitSymlinkInode iw (?n children) = (n', iw')" by simp
      from emitSymlinkInode_size [OF this] "1.prems"(2) show ?thesis by simp
    next
      case False
      with dir "1.prems"(1) have "emitFileInode iw (?n children) = Inr (n', iw')" by simp
      from emitFileInode_size [OF this "1.prems"(2)] show ?thesis by simp
    qed
  qed
next
  case (2 iw)
  then show ?case by simp
next
  case (3 iw c cs)
  obtain c1 iw1 cs1 where c1: "emitNode iw c = Inr (c1, iw1)" and cs1: "emitNodes iw1 cs = Inr (cs1, iw')" and res: "cs' = c1 # cs1"
    by (rule emitNodes_ConsE [OF "3.prems"(1)])
  note IH1 = "3.IH"(1) [OF c1 "3.prems"(2)]
  note IH2 = "3.IH"(2) [OF c1 refl cs1 conjunct2 [OF IH1]]
  show ?case unfolding res using IH1 IH2 emitNode_name [OF c1] by simp
qed


section \<open>Images\<close>

lemma writeFragBlocks_size:
  assumes "writeFragBlocks iw fes = (offs, iw')"
  shows "length (iw_data iw') \<le> length (iw_data iw) + 18 * length fes \<and> length offs \<le> length fes"
  using assms
proof (induction iw fes arbitrary: offs iw' rule: writeFragBlocks.induct)
  case (1 iw fes)
  show ?case
  proof (cases "fes = []")
    case True
    with 1(2) show ?thesis by (auto simp: writeFragBlocks.simps)
  next
    case False
    let ?p = "concat (map encodeFragEntry (take fragPerMetaBlock fes))"
    let ?iw1 = "writeMetaBlock iw ?p"
    obtain offs2 iw2 where rec: "writeFragBlocks ?iw1 (drop fragPerMetaBlock fes) = (offs2, iw2)" by fastforce
    with 1(2) False have offs: "offs = of_nat (length (iw_data iw)) # offs2" "iw' = iw2"
      by (auto simp: writeFragBlocks.simps [of iw fes] Let_def)
    note IH = 1(1) [OF False refl refl rec]
    have F: "fragPerMetaBlock = 512" by (simp add: fragPerMetaBlock_def metaBlockMax_def fragEntrySize_def)
    have "length ?p = 16 * min (length fes) 512"
      by (simp add: fragEntries.length_array fragEntrySize_def F)
    then have s1: "length (iw_data ?iw1) \<le> length (iw_data iw) + 16 * min (length fes) 512 + 2"
      using length_metaBlockBytes [of iw ?p] by (simp add: writeMetaBlock_def)
    have k: "1 \<le> min (length fes) 512" using False by (cases fes) simp_all
    have r: "length (drop fragPerMetaBlock fes) + min (length fes) 512 = length fes" by (simp add: F)
    have "length (iw_data iw2) \<le> length (iw_data iw) + 18 * length fes" using s1 k r conjunct1 [OF IH] by linarith
    moreover have "length offs2 + 1 \<le> length fes" using k r conjunct2 [OF IH] by linarith
    ultimately show ?thesis unfolding offs by simp
  qed
qed

lemma writeFragmentTable_size:
  assumes "writeFragmentTable iw = (start, iw')"
  shows "length (iw_data iw') \<le> length (iw_data iw) + 26 * length (iw_fragEntries iw)"
proof -
  obtain offs iw1 where w: "writeFragBlocks iw (iw_fragEntries iw) = (offs, iw1)" by fastforce
  with assms have "iw' = iw1\<lparr>iw_data := iw_data iw1 @ concat (map PutUint64 offs)\<rparr>" by (auto simp: writeFragmentTable_def)
  with writeFragBlocks_size [OF w] show ?thesis by (simp add: w64.length_array)
qed

lemma finishImage_size: "4096 * length (finishImage iw ref) \<le> iw_potential iw + 4096 * 114"
proof -
  define iw1 where "iw1 = flushFragment iw"
  let ?it = "mw_out (mw_finish iw1 (iw_inodes iw1))" and ?dt = "mw_out (mw_finish iw1 (iw_dirs iw1))"
  define iw3 where "iw3 = iw1\<lparr>iw_data := iw_data iw1 @ ?it @ ?dt\<rparr>"
  obtain fstart iw4 where w4: "(if length (iw_fragEntries iw3) > 0 then writeFragmentTable iw3 else (bytesUsedNoTable, iw3)) = (fstart, iw4)"
    by fastforce
  have s4: "length (iw_data iw4) \<le> length (iw_data iw3) + 26 * length (iw_fragEntries iw1)"
    using w4 writeFragmentTable_size [of iw3 fstart iw4] by (auto simp: iw3_def split: if_splits)
  have st: "iw1\<lparr>iw_data := iw_data iw1 @ ?it\<rparr>\<lparr>iw_data := iw_data (iw1\<lparr>iw_data := iw_data iw1 @ ?it\<rparr>) @ ?dt\<rparr> = iw3"
    by (simp add: iw3_def)
  have "length (finishImage iw ref) \<le> 96 + length (iw_data iw4) + length (metaBlockBytes iw4 (replicate 4 0)) + 8"
    unfolding finishImage_def Let_def iw1_def [symmetric] st w4 prod.case by (simp add: writeMetaBlock_def)
  then have "length (finishImage iw ref) \<le> 110 + length (iw_data iw1) + length ?it + length ?dt + 26 * length (iw_fragEntries iw1)"
    using s4 length_metaBlockBytes [of iw4 "replicate 4 0"] by (simp add: iw3_def)
  moreover have "frag_count iw1 = length (iw_fragEntries iw1)"
    using flushFragment_size(4) [of iw] by (simp add: frag_count_def iw1_def)
  moreover have "4096 * length ?it \<le> mw_potential (iw_inodes iw1) + 8192" "4096 * length ?dt \<le> mw_potential (iw_dirs iw1) + 8192"
    by (rule mw_finish_size)+
  moreover have "iw_potential iw1 \<le> iw_potential iw" using flushFragment_size(1) by (simp add: iw1_def)
  ultimately show ?thesis by (simp add: iw_potential_def)
qed

lemma buildImage_size:
  assumes "buildImage libs root opts = Inr img"
  shows "4096 * length img \<le> 4097 * tree_bytes root + 4096 * 230"
proof -
  obtain cmp root' iw2 where
    em: "emitNode (writeCompressorOptions ((newImageWriter opts cmp)\<lparr>iw_data := replicate superblockSize 0\<rparr>)) root = Inr (root', iw2)"
    and img: "img = finishImage iw2 (nd_inodeRef root')"
    by (rule buildImageE [OF assms])
  define iw1 where "iw1 = writeCompressorOptions ((newImageWriter opts cmp)\<lparr>iw_data := replicate superblockSize 0\<rparr>)"
  note em = em [folded iw1_def]
  have bs: "iw_blockSize iw1 = defaultBlockSize"
    by (simp add: iw1_def writeCompressorOptions_def newImageWriter_def Let_def)
  have "iw_potential iw1 \<le> 4097 * 106"
    by (simp add: iw1_def iw_potential_def frag_count_def mw_potential_def writeCompressorOptions_def newImageWriter_def
        Let_def superblockSize_def)
  with emitNode_size(1) [OF em bs] finishImage_size [of iw2 "nd_inodeRef root'"] show ?thesis unfolding img by simp
qed

text \<open>A tree of less than 4 GiB minus 2 MiB therefore keeps all offsets in 32 bits.\<close>

lemma buildImage_small:
  assumes "buildImage libs root opts = Inr img" "tree_bytes root \<le> 2 ^ 32 - 2 ^ 21"
  shows "length img < 2 ^ 32"
  using buildImage_size [OF assms(1)] assms(2) by simp

end
