(* ===== verification/DemoCodec.thy ===== *)
theory DemoCodec
  imports Codec
begin

text \<open>
  A concrete instance of the compression libraries: blocks of zeros are replaced
  by their length, everything else is stored behind a tag byte. It meets the
  documented behaviour of the real libraries and is what closed examples are
  evaluated with.
\<close>

definition demoEncode :: "bytes \<Rightarrow> bytes" where
  "demoEncode src =
     (if list_all (\<lambda>b. b = 0) src \<and> length src < 2 ^ 32 then 1 # PutUint32 (of_nat (length src))
      else 0 # src)"

definition demoDecode :: "bytes \<Rightarrow> bytes" where
  "demoDecode b =
     (case b of [] \<Rightarrow> [] | t # r \<Rightarrow> if t = 1 then replicate (unat (Uint32 r)) 0 else r)"

lemma demoEncode_nonempty [simp]: "demoEncode src \<noteq> []"
  by (simp add: demoEncode_def)

lemma demo_roundtrip [simp]: "demoDecode (demoEncode src) = src"
proof (cases "list_all (\<lambda>b. b = 0) src \<and> length src < 2 ^ 32")
  case True
  then have "unat (of_nat (length src) :: u32) = length src" by (simp add: unat_of_nat)
  moreover from True have "src = replicate (length src) 0"
    by (metis (full_types) list_all_iff replicate_length_same)
  ultimately show ?thesis using True by (simp add: demoEncode_def demoDecode_def)
qed (auto simp: demoEncode_def demoDecode_def)

text \<open>The end of an xz stream: an index with one record, its checksum, the footer.\<close>

definition demoXzTail :: bytes where
  "demoXzTail = replicate 12 0 @ [0, 1, 0, 0] @ replicate 10 0 @ gostring ''YZ''"

definition fitInto :: "bytes \<Rightarrow> nat \<Rightarrow> bytes \<times> (error + int)" where
  "fitInto out n = (if length out \<le> n then (out, Inr (int (length out))) else ([], Inl (External 1)))"

definition demoLibs :: codecLibs where
  "demoLibs =
     \<lparr> zlibNewReader = (\<lambda>b. if b = [] then Inl EOF else Inr (demoDecode b, None)),
       xzNewReader = (\<lambda>dict b. Inr (demoDecode (take (length b - length demoXzTail) b), None)),
       lzmaNewReader = (\<lambda>dict b. Inl (External 0)),
       lzmaMinDictCap = 4096,
       lzoDecompressTo = (\<lambda>b n. fitInto (demoDecode b) n),
       lz4UncompressBlock = (\<lambda>b n. fitInto (demoDecode b) n),
       zstdDecodeAll = (\<lambda>b. Inr (demoDecode b)),
       zlibWriter = (\<lambda>src. (None, None, demoEncode src)),
       xzWriter = (\<lambda>src. (None, None, None, demoEncode src @ demoXzTail)),
       zstdEncodeAll = demoEncode,
       lz4CompressBlock = (\<lambda>src. Inr (demoEncode src)) \<rparr>"

lemma demo_stream: "xz_stream (b @ demoXzTail)"
proof -
  have z: "replicate 10 0 @ gostring ''YZ'' = replicate 4 0 @ PutUint32 0 @ replicate 2 0 @ gostring ''YZ''" by code_simp
  have "b @ demoXzTail = take 12 (b @ replicate 12 0) @ drop 12 (b @ replicate 12 0) @ (0 # 1 # [0, 0]) @ replicate 4 0 @
      PutUint32 0 @ replicate 2 0 @ gostring ''YZ''"
    unfolding demoXzTail_def z append_assoc [symmetric] append_take_drop_id by simp
  then show ?thesis unfolding xz_stream_def
    by (intro exI conjI) (assumption, simp_all)
qed

lemma demoLibs_ok: "codec_libs_ok demoLibs"
  by (simp add: codec_libs_ok_def demoLibs_def demo_stream fitInto_def)

end
