(* ===== verification/ReaderProperties.thy ===== *)
theory ReaderProperties
  imports FsApi DemoCodec
begin

text \<open>
  What the reader guarantees on every image, well-formed or not: which images
  it accepts, the limits its results respect, and how its operations compose.
\<close>

section \<open>Opening\<close>

lemma sb_okI:
  assumes "sb_Magic sb = Magic" "sb_VersionMajor sb = 4" "sb_VersionMinor sb = 0"
    "unat (sb_BlockLog sb) \<le> 20" "unat (sb_BlockSize sb) = 2 ^ unat (sb_BlockLog sb)"
  shows "sb_ok sb"
proof -
  let ?l = "unat (sb_BlockLog sb)"
  have p: "(2::nat) ^ ?l \<le> 2 ^ 20" using assms(4) by (intro power_increasing) simp_all
  then have "unat ((2::u32) ^ ?l) = 2 ^ ?l"
    using unat_of_nat [where 'a = 32, of "2 ^ ?l"] by simp
  then have bs: "sb_BlockSize sb = 2 ^ ?l" using assms(5) by (metis unsigned_word_eqI)
  have "sb_BlockSize sb \<noteq> 0" using assms(5) by (metis power_not_zero unat_0 zero_neq_numeral)
  moreover have "sb_BlockSize sb \<le> maxBlockSize" "sb_BlockLog sb \<le> maxBlockLog"
    using p assms(4,5) by (simp_all add: maxBlockSize_def maxBlockLog_def word_le_nat_alt)
  ultimately show ?thesis using assms(1-3) bs by (simp add: sb_ok_def)
qed

text \<open>
  C25: A superblock is accepted exactly when 96 bytes can be read whose magic and
  version are those of SquashFS 4.0 and whose block size is the power of two its
  logarithm says, at most 1 MiB; the accepted value is the decoded one.
\<close>

theorem readSuperblock_accepts:
  "readSuperblock rs = Inr sb \<longleftrightarrow>
     (\<exists>buf. ReadAt rs 0 superblockSize = Inr buf \<and> sb = decodeSuperblock buf) \<and>
     sb_Magic sb = Magic \<and> sb_VersionMajor sb = 4 \<and> sb_VersionMinor sb = 0 \<and>
     unat (sb_BlockLog sb) \<le> 20 \<and> unat (sb_BlockSize sb) = 2 ^ unat (sb_BlockLog sb)"
proof
  assume "readSuperblock rs = Inr sb"
  then obtain buf where b: "ReadAt rs 0 superblockSize = Inr buf" "sb = decodeSuperblock buf" "sb_ok sb"
    by (auto simp: readSuperblock_iff)
  with sb_ok_blockSize [OF b(3)] show
    "(\<exists>buf. ReadAt rs 0 superblockSize = Inr buf \<and> sb = decodeSuperblock buf) \<and>
     sb_Magic sb = Magic \<and> sb_VersionMajor sb = 4 \<and> sb_VersionMinor sb = 0 \<and>
     unat (sb_BlockLog sb) \<le> 20 \<and> unat (sb_BlockSize sb) = 2 ^ unat (sb_BlockLog sb)"
    unfolding sb_ok_def by blast
qed (auto simp: readSuperblock_iff intro: sb_okI)

text \<open>
  C30: \<^verbatim>\<open>OpenFile\<close> never leaks the host file: a handle that was opened is closed
  exactly when opening fails, and a file system that is returned owns it, so that
  its \<^verbatim>\<open>Close\<close> gives the handle's result.
\<close>

theorem OpenFile_no_leak:
  "case OpenFile libs (Inr f) of
     (Inl e, closed) \<Rightarrow> closed
   | (Inr (fs, c), closed) \<Rightarrow> \<not> closed \<and> fs_Close fs = hf_close f \<and> c = Some newBlockCache"
  by (auto simp: OpenFile_def fs_Close_def Open_Inr split: sum.splits)

section \<open>Decoders\<close>

text \<open>
  C27: No block decoder hands out more bytes than its caller allows, whatever the
  stored bytes are and whatever the library makes of them: a stream is cut off and
  refused, a frame that is too long is refused, and a decoder that fills a buffer
  gets one of the length allowed.
\<close>

theorem decompressor_output_bounded:
  assumes "newDecompressor libs c = Inr d" "d src maxOut = Inr out"
  shows "length out \<le> maxOut"
  using bounded_decompressor.bounded [OF newDecompressor_bounded [OF assms(1)] assms(2)] .

text \<open>A library whose lz4 decoder writes past the buffer it is given.\<close>

definition longLibs :: codecLibs where
  "longLibs = demoLibs\<lparr>lz4UncompressBlock := (\<lambda>b n. (b @ b, Inr (int n)))\<rparr>"

theorem decompressor_output_bounded_witness:
  "\<exists>d out. newDecompressor longLibs compLZ4 = Inr d \<and> d [7, 8, 9] 4 = Inr out \<and> out = [7, 8, 9, 7] \<and> length out \<le> 4"
proof -
  have d: "newDecompressor longLibs compLZ4 = Inr (lz4Decompress longLibs)"
    by (simp add: newDecompressor_def comp_defs)
  have o: "lz4Decompress longLibs [7, 8, 9] 4 = Inr [7, 8, 9, 7]"
    by (simp add: lz4Decompress_def longLibs_def sliceTo_def fill_def)
  from d o decompressor_output_bounded [OF d o] show ?thesis by blast
qed

text \<open>
  C26: Encoding and decoding are inverse. Every encoder the writer can be
  configured with records an id for which the reader has a decoder, and that
  decoder returns each block of at most 1 MiB the encoder was given.
\<close>

theorem compressor_roundtrip:
  assumes "codec_libs_ok libs" "newCompressor libs c = Inr cmp"
    and "comp_compress cmp src = Inr out" "length src \<le> maxOut" "length src \<le> 2 ^ 20"
  shows "\<exists>d. newDecompressor libs (comp_id cmp) = Inr d \<and> d out maxOut = Inr src"
  using newCompressor_pair [OF assms(1,2)] assms(3-5) unfolding codec_pair_def by blast

theorem compressor_roundtrip_witness:
  "\<exists>d. newDecompressor demoLibs compXZ = Inr d \<and> d (demoEncode [0, 0, 0] @ demoXzTail) 3 = Inr [0, 0, 0]"
  using compressor_roundtrip [OF demoLibs_ok, of compXZ "\<lparr>comp_id = compXZ, comp_compress = xzCompress demoLibs\<rparr>"
      "[0, 0, 0]" "demoEncode [0, 0, 0] @ demoXzTail" 3]
  by (simp add: newCompressor_def comp_defs xzCompress_def demoLibs_def)

text \<open>
  The ids that are accepted. The reader has a decoder for exactly the six
  assigned compression ids; the writer takes gzip (also as 0), zstd, xz and lz4;
  every other id is refused as unsupported.
\<close>

theorem compression_ids:
  "((\<exists>d. newDecompressor libs c = Inr d) \<longleftrightarrow> 1 \<le> c \<and> c \<le> 6) \<and>
   (\<not> (\<exists>d. newDecompressor libs c = Inr d) \<longleftrightarrow> newDecompressor libs c = Inl (Wrapped ErrUnsupportedCompression)) \<and>
   ((\<exists>k. newCompressor libs c = Inr k) \<longleftrightarrow> c \<in> {0, compGZIP, compZSTD, compXZ, compLZ4}) \<and>
   (\<not> (\<exists>k. newCompressor libs c = Inr k) \<longleftrightarrow> newCompressor libs c = Inl (Wrapped ErrUnsupportedCompression))"
proof -
  have "1 \<le> c \<and> c \<le> 6 \<longleftrightarrow> c = 1 \<or> c = 2 \<or> c = 3 \<or> c = 4 \<or> c = 5 \<or> c = 6" by uint_arith
  then show ?thesis by (auto simp: newDecompressor_def newCompressor_def comp_defs)
qed

section \<open>The cache\<close>

text \<open>The calls that change a cache, in any order.\<close>

datatype cacheOp = PutMeta int64 metaEntry | PutData int64 bytes

definition cache_step :: "cacheOp \<Rightarrow> cachePtr \<Rightarrow> cachePtr" where
  "cache_step x c = (case x of PutMeta k e \<Rightarrow> putMeta c k e | PutData k b \<Rightarrow> putData c k b)"

lemma limit_other [simp]:
  "dataLimit (putMeta c k e) = dataLimit c" "metaLimit (putData c k b) = metaLimit c"
  by (cases c; auto simp: dataLimit_def metaLimit_def putMeta_def putData_def Let_def split: prod.splits)+

lemma cache_steps_wf:
  "cache_wf c \<Longrightarrow> cache_wf (fold cache_step xs c) \<and>
     metaLimit (fold cache_step xs c) = metaLimit c \<and> dataLimit (fold cache_step xs c) = dataLimit c"
  by (induction xs arbitrary: c)
    (auto simp: cache_step_def metaStore.put_wf dataStore.put_wf metaStore.put_cap dataStore.put_cap
      split: cacheOp.split)

text \<open>
  After any sequence of stores the cache holds at most 16384 metadata blocks
  and 64 data blocks, in each half every key once, with its queue of keys in
  step with the map.
\<close>

theorem cache_bounded:
  "cache_wf (fold cache_step xs (Some newBlockCache)) \<and>
   metaEntries (fold cache_step xs (Some newBlockCache)) \<le> 16384 \<and>
   dataEntries (fold cache_step xs (Some newBlockCache)) \<le> 64"
proof -
  note wf = cache_steps_wf [OF newBlockCache_wf, of xs]
  have "metaLimit (Some newBlockCache) = 16384" "dataLimit (Some newBlockCache) = 64"
    by (simp_all add: metaLimit_def dataLimit_def newBlockCache_def defaultMetaCacheBlocks_def
        defaultDataCacheBlocks_def)
  with wf metaStore.wf_bound [OF conjunct1 [OF wf]] dataStore.wf_bound [OF conjunct1 [OF wf]]
  show ?thesis by simp
qed

text \<open>
  C22: Each half is a bounded first-in-first-out store. On the bindings in order
  of arrival, storing a known key replaces its value in place; a new key is
  appended, after the oldest binding was dropped if the store was full.
\<close>

definition dataQueue :: "cachePtr \<Rightarrow> (int64 \<times> bytes) list" where
  "dataQueue c = (case c of None \<Rightarrow> [] | Some bc \<Rightarrow> fifo_abs (bc_data bc) (bc_dataKeys bc))"

definition metaQueue :: "cachePtr \<Rightarrow> (int64 \<times> metaEntry) list" where
  "metaQueue c = (case c of None \<Rightarrow> [] | Some bc \<Rightarrow> fifo_abs (bc_meta bc) (bc_metaKeys bc))"

theorem cache_is_fifo:
  assumes "cache_wf c"
  shows "dataQueue (putData c k b) = fifo_spec (dataLimit c) (dataQueue c) k b \<and>
     metaQueue (putMeta c k e) = fifo_spec (metaLimit c) (metaQueue c) k e"
proof -
  from assms obtain bc where c: "c = Some bc" "fifo_wf (bc_metaCap bc) (bc_meta bc) (bc_metaKeys bc)"
    "fifo_wf (bc_dataCap bc) (bc_data bc) (bc_dataKeys bc)"
    by (auto simp: cache_wf_def split: option.splits)
  from fifo_insert_refines [OF c(3), of k b] fifo_insert_refines [OF c(2), of k e] c(1)
  show "dataQueue (putData c k b) = fifo_spec (dataLimit c) (dataQueue c) k b \<and>
    metaQueue (putMeta c k e) = fifo_spec (metaLimit c) (metaQueue c) k e"
    by (auto simp: dataQueue_def metaQueue_def putData_def putMeta_def dataLimit_def metaLimit_def
        Let_def split: prod.splits)
qed

theorem cache_is_fifo_witness:
  "dataQueue (putData (Some newBlockCache) 4 [1]) = [(4, [1])]"
  using cache_is_fifo [OF newBlockCache_wf, of 4 "[1]"]
  by (simp add: dataQueue_def newBlockCache_def fifo_abs_def fifo_spec_def dataLimit_def
      defaultDataCacheBlocks_def)

section \<open>Metadata, inodes, directories\<close>

text \<open>
  C23: The metadata cursor reads a byte stream: reading \<open>m + n\<close> bytes is reading
  \<open>m\<close> and then \<open>n\<close>, with the same result, error and cache, wherever the block
  boundaries lie.
\<close>

theorem cursor_reads_compose:
  "cur_read fs c (m + n) =
     bindM (cur_read fs c m) (\<lambda>(xs, c1). bindM (cur_read fs c1 n) (\<lambda>(ys, c2). retM (xs @ ys, c2)))"
  by (rule ext) (simp add: cur_read_split prepend_def)

text \<open>
  C24: Reading the block list of a file in chunks is the same as reading it with
  one read of four bytes per block.
\<close>

theorem block_list_chunking:
  "blockListLoop fs n [] c =
     bindM (cur_read fs c (4 * n)) (\<lambda>(buf, c'). retM (map (\<lambda>k. Uint32 (drop (4 * k) buf)) [0..<n], c'))"
  by (rule ext) (auto simp: blockListLoop_one_read bindM_def decodeWords_def split: prod.splits sum.splits)

text \<open>
  C18: What every decoded inode satisfies: one of the fourteen types, with the
  type bits of that type in its mode; a regular file has one size word per block
  and at most \<open>2 ^ 24\<close> of them; the target of a link has the length the inode
  declares, at most 8 KiB; the size of a directory fits 32 bits.
\<close>

theorem readInode_type:
  "case readInode fs ref c of
     (Inl e, c') \<Rightarrow> True
   | (Inr i, c') \<Rightarrow> inode_wf fs i \<and> in_Mode i AND typeBits (in_Type i) = typeBits (in_Type i)"
  using readInode_wf [of fs ref c] readInode_mode [of fs ref c]
  by (auto split: prod.splits sum.splits)

text \<open>
  C19: What every listing satisfies: at most four million entries, which fit the size the directory declares; names of 1 to 256 bytes;
  inode references of 48 bits.
\<close>

theorem readDir_bounds:
  "case readDir fs dir c of
     (Inl e, c') \<Rightarrow> True
   | (Inr es, c') \<Rightarrow> length es \<le> 4194304 \<and> (\<Sum>e\<leftarrow>es. 8 + length (de_Name e)) \<le> unat (in_Size dir) \<and>
       list_all (\<lambda>e. 1 \<le> length (de_Name e) \<and> length (de_Name e) \<le> 256 \<and> unat (de_InodeRef e) < 2 ^ 48) es"
  using readDir_ok [of fs dir c]
  by (auto simp: list_all_iff entry_ok_def entries_bytes_def maxDirEntries_def split: prod.splits sum.splits)

section \<open>Paths\<close>

text \<open>
  Paths have a normal form. Their components are non-empty, contain no
  slash and are not the dot; writing the components of a path as an absolute
  path and splitting that again gives the same components.
\<close>

theorem splitPath_normal_form:
  "list_all component (splitPath p) \<and> splitPath (joinPath (splitPath p)) = splitPath p"
  by (auto simp: list_all_iff component_def splitPath_idem dest: splitPath_parts)

text \<open>
  C21: Resolution composes. Resolving \<open>p/q\<close>, for a \<open>q\<close> that names something, is
  resolving \<open>p\<close>, following a final link, and \<open>q\<close> from the inode it ends at. The bound on
  links starts again for \<open>q\<close>: it is a bound for each link that is followed, with
  the links in its target, not for the whole path.
\<close>

theorem resolve_composes:
  assumes "splitPath q \<noteq> []"
  shows "resolve fs (p @ slash # q) followFinal =
     bindM (resolve fs p True) (\<lambda>d. resolveFrom fs d q followFinal 0)"
  by (rule resolve_append [OF assms])

theorem resolve_composes_witness:
  "resolve demoFS (gostring ''a/b'') False =
     bindM (resolve demoFS (gostring ''a'') True) (\<lambda>d. resolveFrom demoFS d (gostring ''b'') False 0)"
proof -
  have "splitPath (gostring ''b'') \<noteq> []" "gostring ''a/b'' = gostring ''a'' @ slash # gostring ''b''" by code_simp+
  with resolve_composes [of "gostring ''b''" demoFS "gostring ''a''" False] show ?thesis by simp
qed

text \<open>
  C20: A path that is followed to its end never resolves to a symbolic link, if
  the root inode is not one itself; whatever the cache holds.
\<close>

theorem resolve_follows_links:
  assumes root: "readInode fs (sb_RootInode (fs_sb fs)) None = (Inr r, None)" "\<not> isSymlink r"
    and co: "coherent fs dc c" and res: "resolve fs path True c = (Inr i, c')"
  shows "\<not> isSymlink i"
proof -
  have all: "x = r" if "coherent fs dc s" "readInode fs (sb_RootInode (fs_sb fs)) s = (Inr x, s')" for s x s'
    using transparentD(2) [OF readInode_transparent that(1), of "sb_RootInode (fs_sb fs)"] that(2) root(1) by simp
  from res obtain x s where x: "readInode fs (sb_RootInode (fs_sb fs)) c = (Inr x, s)"
    "resolveFrom fs x path True 0 s = (Inr i, c')"
    by (auto simp: resolve_def bindM_eq_Inr)
  have "coherent fs dc s" by (rule transparent_state [OF readInode_transparent co x(1)])
  then show ?thesis
    using resolveFrom_walkParts_not_symlink(1) [of fs dc x path True 0 s i c'] all root(2) x co by blast
qed

text \<open>
  An inode table with one fifo: a metadata block of 20 bytes, stored raw, in an
  image without a directory table.
\<close>

definition fifoFS :: FS where
  "fifoFS = \<lparr>fs_rs = (\<lambda>off n. if off = 0 then Inr (PutUint16 0x8014)
       else Inr (PutUint16 inodeBasicFifo @ replicate 18 0)), fs_size = 22,
     fs_sb = (decodeSuperblock (replicate 96 0))\<lparr>sb_BlockSize := 4\<rparr>,
     fs_d = (\<lambda>raw maxOut. Inr raw), fs_closer = None\<rparr>"

lemma fifoFS_root:
  "readInode fifoFS (sb_RootInode (fs_sb fifoFS)) None =
     (Inr (decodeInodeHeader (PutUint16 inodeBasicFifo @ replicate 14 0)), None)"
  by code_simp

theorem resolve_follows_links_witness:
  "\<exists>i c'. resolve fifoFS [] True (Some newBlockCache) = (Inr i, c') \<and> \<not> isSymlink i"
proof -
  let ?i = "decodeInodeHeader (PutUint16 inodeBasicFifo @ replicate 14 0)"
  note co = empty_cache_coherent [of fifoFS]
  have "fst (resolve fifoFS [] True None) = Inr ?i"
    by (simp add: resolve_def fifoFS_root resolveFrom.simps maxSymlinkHops_def splitPath_def walkParts.simps)
  then have "fst (resolve fifoFS [] True (Some newBlockCache)) = Inr ?i"
    using transparentD(2) [OF resolve_transparent co] by simp
  then obtain c' where r: "resolve fifoFS [] True (Some newBlockCache) = (Inr ?i, c')" by (metis prod.collapse)
  have "\<not> isSymlink ?i" by code_simp
  from resolve_follows_links [OF fifoFS_root this co r] r show ?thesis by blast
qed

section \<open>File contents\<close>



text \<open>
  C17: A file that is returned has exactly the size its inode declares, never
  above the caller's limit; a file above the limit is refused as too large
  before any of it is read, and the cache is left alone.
\<close>

theorem readFileLimit_respects_limit:
  "case readFileLimit mk fs i maxLen c of
     (Inr content, c') \<Rightarrow> length content = unat (in_Size i) \<and> (maxLen <s 0 \<or> in_Size i \<le> maxLen)
   | (Inl e, c') \<Rightarrow>
       (if 0 \<le>s maxLen \<and> maxLen < in_Size i \<and> in_Size i \<le> maxFileBytes fs i
        then e = Wrapped ErrTooLarge \<and> c' = c else True)"
proof (cases "readFileLimit mk fs i maxLen c")
  case (Pair r c')
  show ?thesis
  proof (cases r)
    case (Inr content)
    with readFileLimit_bounds [of mk fs i maxLen c content c'] Pair show ?thesis
      by (auto simp: signed.not_less [symmetric])
  next
    case (Inl e)
    with Pair show ?thesis by (auto simp: readFileLimit_def not_less split: if_splits)
  qed
qed

lemma readBlock_caches:
  assumes "readBlock fs off sz (Some bc) = (Inr a, c)" "blockOnDiskBytes sz \<noteq> 0" "sz AND dataUncompressedBit = 0"
  shows "getData c off = Some a"
proof -
  have "fetchBlock fs off (unat (blockOnDiskBytes sz)) True (Some bc) = (Inr a, c)"
    using assms by (auto simp: readBlock_def blockOnDiskSize_def bindM_def split: if_splits sum.splits)
  moreover have "getData (putData (Some bc) off out) off = Some out" for out
    by (simp add: getData_def putData_def Let_def split_beta fifo_insert_hit)
  ultimately show ?thesis by (auto simp: fetchBlock_def split: option.splits sum.splits)
qed

text \<open>
  C40: The data half of the cache is keyed by the offset alone, while a block is
  decoded from the bytes its size word names. On any image, once a compressed block
  has been read through a cache, a read at the same offset with any other compressed
  size word that is valid there returns the block of the first read: where the two
  lengths decode to different blocks \<open>a\<close> and \<open>b\<close>, the answer depends on the history.
\<close>

theorem data_cache_confuses_sizes:
  assumes "readBlock fs off sz (Some bc) = (Inr a, c)" "blockOnDiskBytes sz \<noteq> 0" "sz AND dataUncompressedBit = 0"
    and "readBlock fs off sz' None = (Inr b, None)" "blockOnDiskBytes sz' \<noteq> 0" "sz' AND dataUncompressedBit = 0"
  shows "fst (readBlock fs off sz' c) = Inr a"
  using readBlock_caches [OF assms(1-3)] assms(4-6)
  by (auto simp: readBlock_def blockOnDiskSize_def bindM_def fetchBlock_def split: if_splits sum.splits)

theorem data_cache_confuses_sizes_witness:
  "fst (readBlock demoFS 0 1 (Some newBlockCache)) = Inr [10, 10] \<and>
   fst (readBlock demoFS 0 1 (snd (readBlock demoFS 0 2 (Some newBlockCache)))) = Inr [10, 20, 10, 20]"
proof -
  have r: "readBlock demoFS 0 2 (Some newBlockCache) = (Inr [10, 20, 10, 20], snd (readBlock demoFS 0 2 (Some newBlockCache)))"
    by (rule prod_eqI) (simp, code_simp, simp)
  have k: "blockOnDiskBytes 2 \<noteq> 0" "(2 :: u32) AND dataUncompressedBit = 0"
    and n: "readBlock demoFS 0 1 None = (Inr [10, 10], None)" "blockOnDiskBytes 1 \<noteq> 0" "(1 :: u32) AND dataUncompressedBit = 0"
    and f: "fst (readBlock demoFS 0 1 (Some newBlockCache)) = Inr [10, 10]" by code_simp+
  from data_cache_confuses_sizes [OF r k n] f show ?thesis by blast
qed

section \<open>Extended attributes\<close>

text \<open>
  C28: However many attributes an image declares, and wherever their values are
  stored, the names and values of the map that is returned for one inode add up
  to at most 16 MiB.
\<close>

theorem xattrs_bounded:
  "case inodeXattrs fs i c of
     (Inr (Some m), c') \<Rightarrow> (\<Sum>(k, v)\<leftarrow>m. length k + length v) \<le> 16777216
   | (r, c') \<Rightarrow> True"
proof (cases "inodeXattrs fs i c")
  case (Pair r c')
  have "(\<Sum>(k, v)\<leftarrow>m. length k + length v) \<le> 16777216" if m: "r = Inr (Some m)" for m
  proof -
    obtain t s1 and e :: xattrIDEntry and c1 :: metaCursor where "xattrPairsLoop fs t (unat (xe_count e)) maxXattrBytes c1 [] s1 = (Inr m, c')"
      using Pair m by (auto simp: inodeXattrs_def readXattrPairs_def bindM_eq_Inr split_beta split: if_splits)
    from xattrPairsLoop_budget [OF this]
    have "int (xattr_bytes m) + 8 * int (unat (xe_count e)) \<le> 16777216" by (simp add: maxXattrBytes_def xattr_bytes_def)
    then have "xattr_bytes m \<le> 16777216" by linarith
    then show ?thesis by (simp add: xattr_bytes_def)
  qed
  with Pair show ?thesis by (auto split: sum.splits option.splits)
qed

text \<open>
  C29: A list of inline attributes, encoded as the format says, is read back: the
  map binds each name, with its namespace in front, to its value, later
  attributes replacing earlier ones, if the list is within the budget.
\<close>

theorem xattr_roundtrip:
  assumes "list_all xattr_ok as" "avail fs c (concat (map encodeXattr as) @ rest)"
    and "int (\<Sum>a\<leftarrow>as. 8 + length (xattr_name a) + length (snd (snd a))) \<le> budget"
  shows "xattrPairsLoop fs t (length as) budget c [] None =
     (Inr (fold (\<lambda>a m. map_assign m (xattr_name a) (snd (snd a))) as []), None)"
proof -
  have "int (sum_list (map xattr_cost as)) \<le> budget" using assms(3) by (simp add: xattr_cost_def [abs_def])
  from xattrPairsLoop_encode [OF assms(1,2) this] show ?thesis .
qed

theorem xattr_roundtrip_witness:
  "\<exists>c. xattrPairsLoop demoFS \<lparr>xt_kvStart = 0, xt_idCount = 1, xt_nBlocks = 1\<rparr> 1 16777216 c [] None =
     (Inr [(gostring ''user.k'', [7])], None)"
proof -
  define a :: "u16 \<times> bytes \<times> bytes" where "a = (0, gostring ''k'', [7])"
  define c :: metaCursor where "c = \<lparr>mc_next = 0, mc_cur = encodeXattr a, mc_pos = 0\<rparr>"
  have ok: "list_all xattr_ok [a]" by (simp add: a_def xattr_ok_def metaBlockMax_def gostring_def)
  have av: "avail demoFS c (concat (map encodeXattr [a]) @ [])"
    unfolding avail_def by (intro exI [of _ "[]"]) (simp add: c_def stream_nil)
  have nm: "xattr_name a = gostring ''user.k''" unfolding a_def by code_simp
  have len: "length (gostring ''user.k'') = 6" by code_simp
  have "int (\<Sum>x\<leftarrow>[a]. 8 + length (xattr_name x) + length (snd (snd x))) \<le> 16777216"
    by (simp add: nm len) (simp add: a_def)
  from xattr_roundtrip [OF ok av this, of "\<lparr>xt_kvStart = 0, xt_idCount = 1, xt_nBlocks = 1\<rparr>"]
  show ?thesis by (intro exI [of _ c]) (simp add: nm, simp add: a_def)
qed

section \<open>The file system as a server\<close>

text \<open>
  The cache is invisible to clients. On an image whose files agree on one
  stored length per block offset, the answer to a request is the one an uncached
  file system gives, whatever requests were served before it, failed ones and
  attempted modifications included.
\<close>

theorem answers_independent_of_history:
  assumes "list_all (request_ok w fs) qs" "request_ok w fs q"
  shows "fst (serve mk fs q (fold (\<lambda>q c. snd (serve mk fs q c)) qs (Some newBlockCache))) =
     fst (serve mk fs q None)"
  by (rule fsServer.history_invisible [OF assms empty_cache_coherent])

theorem answers_independent_of_history_witness:
  "fst (serve (\<lambda>n m. Inr []) fifoFS (ReqStat []) (fold (\<lambda>q c. snd (serve (\<lambda>n m. Inr []) fifoFS q c))
       [ReqListDir [], ReqMutate (DeleteFile []), ReqReadLink []] (Some newBlockCache))) =
     Inr (RepStat (0x1000, 0, 0))"
proof -
  have f: "in_Mode (decodeInodeHeader (PutUint16 inodeBasicFifo @ replicate 14 0)) = 0x1000"
    "in_Number (decodeInodeHeader (PutUint16 inodeBasicFifo @ replicate 14 0)) = 0"
    "in_Size (decodeInodeHeader (PutUint16 inodeBasicFifo @ replicate 14 0)) = 0" by code_simp+
  have "fst (serve (\<lambda>n m. Inr []) fifoFS (ReqStat []) None) = Inr (RepStat (0x1000, 0, 0))"
    by (simp add: f serve_def mapM_def Stat_def resolve_def fifoFS_root resolveFrom.simps maxSymlinkHops_def
        splitPath_def walkParts.simps del: decodeInodeHeader_Mode)
  then show ?thesis
    using answers_independent_of_history [of "\<lambda>_. 0" fifoFS "[ReqListDir [], ReqMutate (DeleteFile []), ReqReadLink []]"
        "ReqStat []" "\<lambda>n m. Inr []"]
    by (simp add: request_ok_def)
qed

end
