(* ===== verification/WriterProperties.thy ===== *)
theory WriterProperties
  imports ImageSize ReaderProperties
begin

text \<open>
  What the image writer guarantees: its parts read back what they wrote, its
  errors, the exact range in which the fields of the format hold their values,
  and the size of an image.
\<close>

section \<open>Metadata\<close>

definition mw_writes :: "imageWriter \<Rightarrow> bytes list \<Rightarrow> metaWriter \<Rightarrow> metaWriter" where
  "mw_writes iw ps m = fold (\<lambda>p m. mw_write iw m p) ps m"

lemma mw_writes_of: "mw_writes iw ps (mw_of iw log) = mw_of iw (log @ concat ps)"
proof (induction ps arbitrary: log)
  case (Cons p ps)
  then show ?case using mw_write_of [of iw log p] by (simp add: mw_writes_def)
qed (simp add: mw_writes_def)

text \<open>
  C31: A reference is good for ever. Whatever was written to a metadata table
  before and after it, and wherever its blocks were cut, the reference handed out
  before a record was written leads the reader's cursor to that record in the
  finished table.
\<close>

theorem metadata_roundtrip:
  assumes fs: "fs_rs fs = bytesReader img" "codec_agrees iw (fs_d fs)" "length img < 2 ^ 48"
    and m: "m = mw_writes iw before \<lparr>mw_out = [], mw_buf = []\<rparr>"
    and img: "img = pre @ mw_out (mw_finish iw (mw_writes iw (x # after) m)) @ post" and x: "x \<noteq> []"
  shows "\<exists>c c'. (case inodeRef (mw_ref m) of (blockOff, inBlockOff) \<Rightarrow>
       newMetaCursor fs (of_nat (length pre) + blockOff) inBlockOff None = (Inr c, None)) \<and>
     cur_read fs c (length x) None = (Inr (x, c'), None)"
proof -
  have m': "m = mw_of iw (concat before)" using m mw_writes_of [of iw before "[]"] by (simp add: mw_of_nil)
  have img': "img = pre @ mw_out (mw_finish iw (mw_of iw (concat before @ (x @ concat after)))) @ post"
    using img by (simp add: m' mw_writes_of)
  have ne: "x @ concat after \<noteq> []" using x by simp
  from cursor_at_ref [OF fs img' ne] obtain blockOff inBlockOff c where
    "inodeRef (mw_ref m) = (blockOff, inBlockOff)"
    "newMetaCursor fs (of_nat (length pre) + blockOff) inBlockOff None = (Inr c, None)" "avail fs c (x @ concat after)"
    unfolding m' by blast
  with cur_read_append [of fs c x "concat after"] show ?thesis by auto
qed

definition rawWriter :: imageWriter where
  "rawWriter = newImageWriter \<lparr>bo_Uncompressed = True, bo_Compressor = 0, bo_NoFragments = False\<rparr> None"

lemma rawWriter_codec: "codec_agrees rawWriter d"
  by (simp add: codec_agrees_def rawWriter_def newImageWriter_def)

theorem metadata_roundtrip_witness:
  "\<exists>c c'. \<exists>fs :: FS. (case inodeRef (mw_ref (mw_writes rawWriter [[1, 2, 3]] \<lparr>mw_out = [], mw_buf = []\<rparr>)) of (blockOff, inBlockOff) \<Rightarrow>
       newMetaCursor fs (of_nat (length ([] :: bytes)) + blockOff) inBlockOff None = (Inr c, None)) \<and>
     cur_read fs c (length [4 :: byte, 5]) None = (Inr ([4, 5], c'), None)"
proof -
  define m where "m = mw_writes rawWriter [[1, 2, 3]] \<lparr>mw_out = [], mw_buf = []\<rparr>"
  define img where "img = [] @ mw_out (mw_finish rawWriter (mw_writes rawWriter ([4, 5] # [[6]]) m)) @ []"
  let ?fs = "demoFS\<lparr>fs_rs := bytesReader img\<rparr>"
  have m': "m = \<lparr>mw_out = [], mw_buf = [1, 2, 3]\<rparr>"
    by (simp add: m_def mw_writes_def mw_write_def mw_drain.simps metaBlockMax_def)
  have "mw_finish rawWriter (mw_writes rawWriter ([4, 5] # [[6]]) m) =
      \<lparr>mw_out = metaBlockBytes rawWriter [1, 2, 3, 4, 5, 6], mw_buf = []\<rparr>"
    by (simp add: m' mw_writes_def mw_write_def mw_drain.simps mw_finish_def mw_emit_def metaBlockMax_def)
  then have "length img \<le> 8" using length_metaBlockBytes [of rawWriter "[1, 2, 3, 4, 5, 6]"] by (simp add: img_def)
  then have l: "length img < 2 ^ 48" by simp
  have f: "fs_rs ?fs = bytesReader img" by simp
  have "[4, 5 :: byte] \<noteq> []" by simp
  from metadata_roundtrip [OF f rawWriter_codec l m_def img_def this]
  show ?thesis unfolding m_def by (elim exE) (intro exI)
qed

text \<open>
  C13: The superblock is read back. Every superblock the writer makes is decoded field
  by field to the values it was made of, whatever they are, and the checks of the reader
  accept every one a fresh writer makes.
\<close>

theorem superblock_roundtrip:
  "decodeSuperblock (superblock iw rootRef inodeCount inodeStart dirStart idStart fragStart fragCount bytesUsed) =
     \<lparr> sb_Magic = Magic, sb_InodeCount = inodeCount, sb_ModTime = 0, sb_BlockSize = iw_blockSize iw,
       sb_FragCount = fragCount,
       sb_Compression = (case iw_comp iw of None \<Rightarrow> compGZIP | Some cmp \<Rightarrow> comp_id cmp),
       sb_BlockLog = blockLog (iw_blockSize iw), sb_Flags = superblockFlags iw fragCount,
       sb_IDCount = 1, sb_VersionMajor = 4, sb_VersionMinor = 0, sb_RootInode = rootRef,
       sb_BytesUsed = bytesUsed, sb_IDTableStart = idStart, sb_XattrTableStart = 0xFFFFFFFFFFFFFFFF,
       sb_InodeTableStart = inodeStart, sb_DirTableStart = dirStart, sb_FragTableStart = fragStart,
       sb_LookupTableStart = 0xFFFFFFFFFFFFFFFF \<rparr> \<and>
   sb_ok (decodeSuperblock (superblock (newImageWriter opts cmp) rootRef inodeCount inodeStart dirStart idStart
     fragStart fragCount bytesUsed))"
  by (simp add: decode_superblock newImageWriter_def blockLog_default)
    (simp add: sb_ok_def defaultBlockSize_def maxBlockLog_def maxBlockSize_def)

section \<open>Directories\<close>

text \<open>
  C32: A listing is read back. From the encoding of any children with names of 1
  to 256 bytes the reader decodes one entry per child, in order, with the child's
  name, type and inode reference, however the entries are grouped under headers.
\<close>

theorem listing_roundtrip:
  assumes "avail fs c (buildDirListing cs @ rest)" "length cs \<le> 4194304"
    and "\<And>x. x \<in> set cs \<Longrightarrow> 1 \<le> length (nd_name x) \<and> length (nd_name x) \<le> 256 \<and> unat (nd_inodeRef x) < 2 ^ 48"
  shows "\<exists>es. dirHeadersLoop fs c (int (length (buildDirListing cs))) [] None = (Inr es, None) \<and>
     map (\<lambda>e. (de_Name e, de_Type e, de_InodeRef e)) es =
     map (\<lambda>x. (nd_name x, dirEntryType (nd_mode x), nd_inodeRef x)) cs"
proof -
  have rd: "dirHeadersLoop fs c (int (length (buildDirListing cs))) [] None = (Inr (listingEntries cs), None)"
    using dirHeadersLoop_encode [OF assms(1) _ refl, of "[]"] assms(2,3) by (simp add: name_ok_def maxDirEntries_def)
  have "list_all2 (\<lambda>e x. de_Name e = nd_name x \<and> de_Type e = dirEntryType (nd_mode x) \<and> de_InodeRef e = nd_inodeRef x)
      (listingEntries cs) cs"
    by (rule listingEntries_rel) (use assms(3) in blast)
  then have "map (\<lambda>e. (de_Name e, de_Type e, de_InodeRef e)) (listingEntries cs) =
      map (\<lambda>x. (nd_name x, dirEntryType (nd_mode x), nd_inodeRef x)) cs"
    by (induction rule: list_all2_induct) simp_all
  with rd show ?thesis by blast
qed

definition demoChild :: node where
  "demoChild = Node (gostring ''a'') 0x81A4 0 0 [] [7, 8, 9] [] 0x20005 3"

theorem listing_roundtrip_witness:
  "\<exists>c es. dirHeadersLoop demoFS c (int (length (buildDirListing [demoChild]))) [] None = (Inr es, None) \<and>
     map (\<lambda>e. (de_Name e, de_Type e, de_InodeRef e)) es = [(gostring ''a'', inodeBasicFile, 0x20005)]"
proof -
  define c :: metaCursor where "c = \<lparr>mc_next = 0, mc_cur = buildDirListing [demoChild], mc_pos = 0\<rparr>"
  have av: "avail demoFS c (buildDirListing [demoChild] @ [])"
    unfolding avail_def by (intro exI [of _ "[]"]) (simp add: c_def stream_nil)
  have ok: "1 \<le> length (nd_name x) \<and> length (nd_name x) \<le> 256 \<and> unat (nd_inodeRef x) < 2 ^ 48"
    if "x \<in> set [demoChild]" for x
    using that by (simp add: demoChild_def gostring_def)
  have rt: "\<exists>es. dirHeadersLoop demoFS c (int (length (buildDirListing [demoChild]))) [] None = (Inr es, None) \<and>
      map (\<lambda>e. (de_Name e, de_Type e, de_InodeRef e)) es =
      map (\<lambda>x. (nd_name x, dirEntryType (nd_mode x), nd_inodeRef x)) [demoChild]"
    by (rule listing_roundtrip [OF av]) (simp, rule ok)
  have m: "map (\<lambda>x. (nd_name x, dirEntryType (nd_mode x), nd_inodeRef x)) [demoChild] =
      [(gostring ''a'', inodeBasicFile, 0x20005)]" by code_simp
  show ?thesis by (rule exI) (rule rt [unfolded m])
qed

text \<open>
  C39: The size field of a directory inode is exact precisely for listings of
  less than 65533 bytes. A larger directory is written without an error and reads
  back with another size.
\<close>

theorem directory_size_exact_iff:
  "dirDataSize (ucast (Uint16 (drop 24 (dirInodeBytes mode num dirBlock n len dirOffset)))) = of_nat len \<longleftrightarrow>
     of_nat len < (65533 :: u64)"
proof -
  have f: "Uint16 (drop 24 (dirInodeBytes mode num dirBlock n len dirOffset)) = of_nat (len + 3)"
    by (simp add: dirInodeBytes_def zero_fields)
  let ?x = "of_nat (len + 3) :: u16"
  define y :: u64 where "y = of_nat len"
  have l: "unat (dirDataSize (ucast ?x)) < 65533"
  proof -
    have "unat (ucast ?x :: u64) < 65536" using unsigned_less [of ?x] by (simp del: of_nat_add)
    then show ?thesis by (auto simp: dirDataSize_def word_le_nat_alt unat_sub_if_size word_size)
  qed
  have "y < 65533 \<Longrightarrow> dirDataSize (ucast ?x) = y"
  proof -
    assume "y < 65533"
    then have "unat y + 3 < 2 ^ 16" by (simp add: word_less_nat_alt)
    from dirDataSize_listing [OF this] have "dirDataSize (ucast (of_nat (unat y + 3) :: u16)) = y" by simp
    moreover have "(of_nat (unat y + 3) :: u16) = ?x"
    proof -
      have "of_nat (unat y) = (of_nat len :: u16)"
        by (rule unsigned_word_eqI) (simp add: y_def unsigned_of_nat take_bit_take_bit)
      then show ?thesis by simp
    qed
    ultimately show ?thesis by simp
  qed
  moreover have "dirDataSize (ucast ?x) = y \<Longrightarrow> y < 65533" using l by (simp add: word_less_nat_alt)
  ultimately show ?thesis unfolding f by (auto simp: y_def)
qed

section \<open>Scanning and building\<close>

text \<open>The permission bits the host reports are nine bits.\<close>

fun host_perms :: "hostNode \<Rightarrow> bool" where
  "host_perms (HostDir perm err entries) = (perm \<le> 0x1FF \<and> (\<forall>e\<in>set entries. host_perms (snd e)))"
| "host_perms (HostRegular perm r) = (perm \<le> 0x1FF)"
| "host_perms h = True"

lemma perm_kind: "perm \<le> 0x1FF \<Longrightarrow> (k OR perm) AND 0xF000 = k AND (0xF000 :: u16)"
proof -
  assume "perm \<le> 0x1FF"
  then have "unat perm < 2 ^ 9" by (simp add: word_le_nat_alt)
  then have "take_bit 9 perm = perm"
    by (metis unsigned_take_bit_eq take_bit_nat_eq_self unsigned_word_eqI)
  then have b: "bit perm i \<Longrightarrow> i < 9" for i by (metis bit_take_bit_iff)
  have m: "(0xF000 :: u16) = NOT (mask 12)" by (simp add: mask_eq_exp_minus_1)
  show ?thesis unfolding m by (rule bit_word_eqI) (auto simp: bit_simps dest: b)
qed

lemma mode_kinds:
  "sIFDIR AND 0xF000 = sIFDIR" "sIFLNK AND 0xF000 = sIFLNK" "sIFREG AND 0xF000 = sIFREG"
  "(sIFLNK OR 0x1FF) AND 0xF000 = sIFLNK"
  by (simp_all add: mode_defs)

text \<open>
  What a list of names leads to in a host directory, through directories alone.
  Entries that are neither directory, link nor regular file are passed over.
\<close>

abbreviation packed :: "(bytes \<times> hostNode) list \<Rightarrow> (bytes \<times> hostNode) list" where
  "packed entries \<equiv> filter (\<lambda>e. snd e \<noteq> HostOther) entries"

fun host_descend :: "hostNode \<Rightarrow> bytes list \<Rightarrow> hostNode option" where
  "host_descend h [] = Some h"
| "host_descend (HostDir perm err entries) (name # rest) =
     (case map_of (packed entries) name of None \<Rightarrow> None | Some h \<Rightarrow> host_descend h rest)"
| "host_descend h (name # rest) = None"

text \<open>
  What there is to see of a node, and of the host's entry it stands for: mode, owner,
  link target, contents and the names of the children.
\<close>

definition node_view :: "node \<Rightarrow> u16 \<times> u32 \<times> u32 \<times> bytes \<times> bytes \<times> bytes list" where
  "node_view n = (nd_mode n, nd_uid n, nd_gid n, nd_target n, nd_data n, map nd_name (nd_children n))"

fun host_view :: "hostNode \<Rightarrow> (u16 \<times> u32 \<times> u32 \<times> bytes \<times> bytes \<times> bytes list) option" where
  "host_view (HostDir perm err entries) = Some (sIFDIR OR perm, 0, 0, [], [], map fst (packed entries))"
| "host_view (HostSymlink (Inr target)) = Some (sIFLNK OR 0x1FF, 0, 0, target, [], [])"
| "host_view (HostRegular perm (Inr content)) = Some (sIFREG OR perm, 0, 0, [], content, [])"
| "host_view h = None"

text \<open>The errors the host gives, in the order in which a depth-first scan meets them.\<close>

fun host_errors :: "hostNode \<Rightarrow> error list" where
  "host_errors (HostMissing e) = [e]"
| "host_errors (HostDir perm (Some e) entries) = [e]"
| "host_errors (HostDir perm None entries) = concat (map (\<lambda>e. host_errors (snd e)) entries)"
| "host_errors (HostSymlink (Inl e)) = [e]"
| "host_errors (HostRegular perm (Inl e)) = [e]"
| "host_errors h = []"

definition host_root :: "error + u16 \<Rightarrow> error + (bytes \<times> hostNode) list \<Rightarrow> hostNode" where
  "host_root lstat readdir =
     (case lstat of
        Inl e \<Rightarrow> HostMissing e
      | Inr perm \<Rightarrow> (case readdir of Inl e \<Rightarrow> HostDir perm (Some e) [] | Inr entries \<Rightarrow> HostDir perm None entries))"

text \<open>A node shows a host entry: every path through it leads to the same in both.\<close>

definition mirrors :: "node \<Rightarrow> hostNode \<Rightarrow> bool" where
  "mirrors n h \<longleftrightarrow>
     (\<forall>parts. map_option node_view (descend n parts) = Option.bind (host_descend h parts) host_view)"

lemma mirrors_leaf:
  assumes "kind n \<noteq> sIFDIR" "host_view h = Some (node_view n)" "\<And>perm err entries. h \<noteq> HostDir perm err entries"
  shows "mirrors n h"
proof -
  have "host_descend h (name # rest) = None" for name rest using assms(3) by (cases h) (simp_all, blast)
  moreover have "descend n (name # rest) = None" for name rest using assms(1) by simp
  ultimately have "map_option node_view (descend n parts) = Option.bind (host_descend h parts) host_view" for parts
    using assms(2) by (cases parts) simp_all
  then show ?thesis by (simp add: mirrors_def)
qed

lemma mirrors_file:
  assumes "mirrors n h" "host_descend h parts = Some (HostRegular perm (Inr content))"
  shows "\<exists>m. descend n parts = Some m \<and> nd_mode m = sIFREG OR perm \<and> nd_data m = content"
  using assms unfolding mirrors_def by (auto dest!: spec [of _ parts] simp: node_view_def)

lemma perms_descend:
  "\<lbrakk>host_perms h; host_descend h parts = Some (HostRegular perm r)\<rbrakk> \<Longrightarrow> perm \<le> 0x1FF"
proof (induction h parts rule: host_descend.induct)
  case (2 p err entries name rest)
  then obtain g where g: "map_of (packed entries) name = Some g" "host_descend g rest = Some (HostRegular perm r)"
    by (auto split: option.splits)
  have "host_perms g" using "2.prems"(1) map_of_SomeD [OF g(1)] by auto
  with "2.IH" [OF g(1) _ g(2)] show ?case by simp
qed simp_all

text \<open>The children of a scanned directory against its packed entries, one by one.\<close>

definition mirrors_all :: "node list \<Rightarrow> (bytes \<times> hostNode) list \<Rightarrow> bool" where
  "mirrors_all cs entries \<longleftrightarrow> list_all2 (\<lambda>c e. nd_name c = fst e \<and> mirrors c (snd e)) cs (packed entries)"

lemma mirrors_dir:
  assumes "mirrors_all cs entries" "perm \<le> 0x1FF"
  shows "mirrors (Node name (sIFDIR OR perm) 0 0 [] [] cs 0 0) (HostDir perm None entries)"
proof -
  have r: "list_all2 (\<lambda>c e. nd_name c = fst e \<and> mirrors c (snd e)) cs (packed entries)" using assms(1) by (simp add: mirrors_all_def)
  then have names: "map nd_name cs = map fst (packed entries)" by (induction rule: list_all2_induct) simp_all
  have step: "map_option node_view (case find (\<lambda>c. nd_name c = nm) cs of None \<Rightarrow> None | Some c \<Rightarrow> descend c rest) =
      Option.bind (case map_of (packed entries) nm of None \<Rightarrow> None | Some h \<Rightarrow> host_descend h rest) host_view" for nm rest
    using r by (induction rule: list_all2_induct) (auto simp: mirrors_def)
  show ?thesis
    unfolding mirrors_def
  proof
    fix parts
    show "map_option node_view (descend (Node name (sIFDIR OR perm) 0 0 [] [] cs 0 0) parts) =
        Option.bind (host_descend (HostDir perm None entries) parts) host_view"
      using names step assms(2) by (cases parts) (simp_all add: node_view_def perm_kind mode_kinds)
  qed
qed

lemma scan_mirrors:
  "host_perms h \<Longrightarrow>
    (case scanEntry h name of
       Inl e \<Rightarrow> \<exists>es. host_errors h = e # es
     | Inr None \<Rightarrow> h = HostOther
     | Inr (Some n) \<Rightarrow> h \<noteq> HostOther \<and> host_errors h = [] \<and> nd_name n = name \<and> mirrors n h)"
  "\<forall>e\<in>set entries. host_perms (snd e) \<Longrightarrow>
    (case scanEntries entries of
       Inl e \<Rightarrow> \<exists>es. concat (map (\<lambda>e. host_errors (snd e)) entries) = e # es
     | Inr cs \<Rightarrow> concat (map (\<lambda>e. host_errors (snd e)) entries) = [] \<and> mirrors_all cs entries)"
proof (induction h name and entries rule: scanEntry_scanEntries.induct)
  case (2 perm err entries name)
  then show ?case
    by (cases err; cases "scanEntries entries") (auto intro: mirrors_dir)
next
  case (3 r name)
  show ?case by (cases r) (auto intro!: mirrors_leaf simp: node_view_def mode_kinds)
next
  case (4 perm r name)
  then show ?case by (cases r) (auto intro!: mirrors_leaf simp: node_view_def perm_kind mode_kinds)
next
  case 6
  then show ?case by (simp add: mirrors_all_def)
next
  case (7 name h rest)
  have IH: "case scanEntry h name of Inl e \<Rightarrow> \<exists>es. host_errors h = e # es | Inr None \<Rightarrow> h = HostOther
      | Inr (Some n) \<Rightarrow> h \<noteq> HostOther \<and> host_errors h = [] \<and> nd_name n = name \<and> mirrors n h"
    using "7.IH"(1) "7.prems" by simp
  show ?case
  proof (cases "scanEntry h name")
    case (Inr c)
    with "7.IH"(2) "7.prems" IH show ?thesis
      by (cases c; cases "scanEntries rest") (auto simp: mirrors_all_def)
  qed (use IH in auto)
qed simp_all

text \<open>
  C38: Scanning keeps the directory. If the host gives an error anywhere, the scan ends
  with the first it meets; otherwise every path of names leads to the same in the scanned
  tree and in the host directory: to nothing, or to a node with the kind and permissions
  of the host's entry, its bytes or its link target, and as children the entries of the
  directory in their order, less those that are neither directory, link nor regular file.
  The host's permission bits are nine bits.
\<close>

theorem scanDir_tree:
  assumes "host_perms (host_root lstat readdir)"
  shows "case scanDir lstat readdir of
      Inl e \<Rightarrow> \<exists>es. host_errors (host_root lstat readdir) = e # es
    | Inr root \<Rightarrow> host_errors (host_root lstat readdir) = [] \<and> nd_name root = [] \<and>
        (\<forall>parts. map_option node_view (descend root parts) =
           Option.bind (host_descend (host_root lstat readdir) parts) host_view)"
proof -
  have "scanEntry (host_root lstat readdir) [] = map_sum id Some (scanDir lstat readdir)"
    by (cases lstat; cases readdir) (auto simp: host_root_def scanDir_def bindE_def split: sum.split)
  with scan_mirrors(1) [OF assms, of "[]"] show ?thesis
    by (cases "scanDir lstat readdir") (simp_all add: mirrors_def)
qed

definition demoEntries :: "(bytes \<times> hostNode) list" where
  "demoEntries = [(gostring ''d'', HostDir 0x1ED None [(gostring ''a'', HostRegular 0x1A4 (Inr [7, 8, 9]))]),
     (gostring ''l'', HostSymlink (Inr (gostring ''d''))), (gostring ''p'', HostOther)]"

theorem scanDir_tree_witness:
  "\<exists>root. scanDir (Inr 0x1ED) (Inr demoEntries) = Inr root \<and>
     map_option node_view (descend root []) = Some (0x41ED, 0, 0, [], [], [gostring ''d'', gostring ''l'']) \<and>
     map_option node_view (descend root [gostring ''d'', gostring ''a'']) = Some (0x81A4, 0, 0, [], [7, 8, 9], []) \<and>
     map_option node_view (descend root [gostring ''l'']) = Some (0xA1FF, 0, 0, gostring ''d'', [], [])"
proof -
  let ?h = "host_root (Inr 0x1ED) (Inr demoEntries)"
  have p: "host_perms ?h" and e: "host_errors ?h = []"
    and v: "Option.bind (host_descend ?h []) host_view = Some (0x41ED, 0, 0, [], [], [gostring ''d'', gostring ''l''])"
      "Option.bind (host_descend ?h [gostring ''d'', gostring ''a'']) host_view = Some (0x81A4, 0, 0, [], [7, 8, 9], [])"
      "Option.bind (host_descend ?h [gostring ''l'']) host_view = Some (0xA1FF, 0, 0, gostring ''d'', [], [])"
    by code_simp+
  from scanDir_tree [OF p] e v show ?thesis 
    by (cases "scanDir (Inr 0x1ED) (Inr demoEntries)") (auto simp del: descend.simps host_descend.simps map_option_eq_Some)
qed

lemma newCompressor_error:
  "newCompressor libs c = Inl e \<longleftrightarrow> e = Wrapped ErrUnsupportedCompression \<and> c \<notin> {0, compGZIP, compZSTD, compXZ, compLZ4}"
  by (auto simp: newCompressor_def split: if_splits)

lemma buildImage_emits: "\<exists>root' iw'. buildImage libs root opts =
    bindE (if bo_Uncompressed opts then Inr None else bindE (newCompressor libs (bo_Compressor opts)) (\<lambda>c. Inr (Some c)))
      (\<lambda>cmp. Inr (finishImage (iw' cmp) (nd_inodeRef (root' cmp))))"
proof -
  let ?start = "\<lambda>cmp. writeCompressorOptions ((newImageWriter opts cmp)\<lparr>iw_data := replicate superblockSize 0\<rparr>)"
  have "\<forall>cmp. \<exists>r. emitNode (?start cmp) root = Inr r" using emit_total(1) by blast
  then obtain f where "\<And>cmp. emitNode (?start cmp) root = Inr (f cmp)" by metis
  then have "buildImage libs root opts =
    bindE (if bo_Uncompressed opts then Inr None else bindE (newCompressor libs (bo_Compressor opts)) (\<lambda>c. Inr (Some c)))
      (\<lambda>cmp. Inr (finishImage (snd (f cmp)) (nd_inodeRef (fst (f cmp)))))"
    by (simp add: buildImage_def Let_def split_beta)
  then show ?thesis by (intro exI [of _ "\<lambda>cmp. fst (f cmp)"] exI [of _ "\<lambda>cmp. snd (f cmp)"])
qed

lemma buildImage_fails:
  "buildImage libs root opts = Inl e \<longleftrightarrow>
     \<not> bo_Uncompressed opts \<and> newCompressor libs (bo_Compressor opts) = Inl e"
proof -
  obtain root' iw' where b: "buildImage libs root opts =
    bindE (if bo_Uncompressed opts then Inr None else bindE (newCompressor libs (bo_Compressor opts)) (\<lambda>c. Inr (Some c)))
      (\<lambda>cmp. Inr (finishImage (iw' cmp) (nd_inodeRef (root' cmp))))"
    using buildImage_emits by blast
  show ?thesis unfolding b by (cases "newCompressor libs (bo_Compressor opts)") simp_all
qed

lemma buildImage_ok:
  assumes "bo_Uncompressed opts \<or> bo_Compressor opts \<in> {0, compGZIP, compZSTD, compXZ, compLZ4}"
  obtains img where "buildImage libs root opts = Inr img"
  using buildImage_fails [of libs root opts] newCompressor_error [of libs "bo_Compressor opts"] assms
  by (cases "buildImage libs root opts") auto

text \<open>
  C37: Building fails exactly for an encoder that does not exist, with that error; no
  tree, however malformed or large, makes the emission of an inode fail.
\<close>

theorem buildImage_errors:
  "buildImage libs root opts = Inl e \<longleftrightarrow>
     e = Wrapped ErrUnsupportedCompression \<and> \<not> bo_Uncompressed opts \<and>
     bo_Compressor opts \<notin> {0, compGZIP, compZSTD, compXZ, compLZ4}"
  unfolding buildImage_fails newCompressor_error by blast

text \<open>
  C36: An image is at most as large as its contents, 62 bytes for each node, 20
  bytes and the name for each directory entry, the targets of its links and four
  bytes for each full block, plus one byte in 4096 and a fixed 230 bytes,
  whatever the encoder does.
\<close>

theorem image_size_bounded:
  "case buildImage libs root opts of
     Inl e \<Rightarrow> True
   | Inr img \<Rightarrow> 4096 * length img \<le> 4097 * tree_bytes root + 4096 * 230"
  using buildImage_size [of libs root opts] by (auto split: sum.splits)

end
