(* ===== verification/Goroutines.thy ===== *)
theory Goroutines
  imports BlockCache "HOL-Library.Multiset"
begin

text \<open>
  Goroutines that share the cache of \<^verbatim>\<open>cache.go\<close>. A goroutine is a program whose
  only shared accesses are the four methods of the cache; each of them is a critical
  section of the cache's mutex. A machine is the mutex, the cache and the goroutines
  with their position around the mutex, and one step of it is one step of one
  goroutine, picked by an arbitrary scheduler.
\<close>

section \<open>Programs over the cache\<close>

text \<open>
  A program is a tree of cache accesses with a result at its leaves. The branch taken
  after a lookup depends on what the lookup returns.
\<close>

datatype 'r prog =
    Done 'r
  | GetMeta int64 "metaEntry option \<Rightarrow> 'r prog"
  | PutMeta int64 metaEntry "'r prog"
  | GetData int64 "bytes option \<Rightarrow> 'r prog"
  | PutData int64 bytes "'r prog"

type_synonym 'a go = "(error + 'a) prog"

text \<open>A program that is alone with the cache.\<close>

primrec run :: "'r prog \<Rightarrow> cachePtr \<Rightarrow> 'r \<times> cachePtr" where
  "run (Done r) c = (r, c)"
| "run (GetMeta off k) c = run (k (getMeta c off)) c"
| "run (PutMeta off e p) c = run p (putMeta c off e)"
| "run (GetData off k) c = run (k (getData c off)) c"
| "run (PutData off b p) c = run p (putData c off b)"

primrec seqP :: "'r prog \<Rightarrow> ('r \<Rightarrow> 'q prog) \<Rightarrow> 'q prog" where
  "seqP (Done r) f = f r"
| "seqP (GetMeta off k) f = GetMeta off (\<lambda>x. seqP (k x) f)"
| "seqP (PutMeta off e p) f = PutMeta off e (seqP p f)"
| "seqP (GetData off k) f = GetData off (\<lambda>x. seqP (k x) f)"
| "seqP (PutData off b p) f = PutData off b (seqP p f)"

definition retP :: "'a \<Rightarrow> 'a go" where "retP a = Done (Inr a)"
definition throwP :: "error \<Rightarrow> 'a go" where "throwP e = Done (Inl e)"

definition bindP :: "'a go \<Rightarrow> ('a \<Rightarrow> 'b go) \<Rightarrow> 'b go" where
  "bindP p f = seqP p (\<lambda>r. case r of Inl e \<Rightarrow> Done (Inl e) | Inr a \<Rightarrow> f a)"

lemma run_seqP: "run (seqP p f) c = (case run p c of (r, c') \<Rightarrow> run (f r) c')"
  by (induction p arbitrary: c) simp_all

lemma run_bindP: "run (bindP p f) = bindM (run p) (\<lambda>a. run (f a))"
  by (auto simp: bindP_def bindM_def run_seqP fun_eq_iff split: prod.split sum.split)

text \<open>The results a program can have.\<close>

lemma set_seqP: "set_prog (seqP p f) = (\<Union>r\<in>set_prog p. set_prog (f r))"
  by (induction p) auto

lemma set_retP [simp]: "set_prog (retP a) = {Inr a}" "set_prog (throwP e) = {Inl e}"
  by (simp_all add: retP_def throwP_def)

lemma Inr_set_bindP:
  "Inr b \<in> set_prog (bindP p f) \<longleftrightarrow> (\<exists>a. Inr a \<in> set_prog p \<and> Inr b \<in> set_prog (f a))"
  by (force simp: bindP_def set_seqP split: sum.split_asm)

lemma run_in_set: "fst (run p c) \<in> set_prog p"
  by (induction p arbitrary: c) fastforce+

lemma seqP_cong [fundef_cong]:
  "\<lbrakk>p = p'; \<And>r. r \<in> set_prog p' \<Longrightarrow> f r = f' r\<rbrakk> \<Longrightarrow> seqP p f = seqP p' f'"
  by (induction p arbitrary: p') force+

lemma bindP_cong [fundef_cong]:
  "\<lbrakk>p = p'; \<And>a. Inr a \<in> set_prog p' \<Longrightarrow> f a = f' a\<rbrakk> \<Longrightarrow> bindP p f = bindP p' f'"
  unfolding bindP_def by (rule seqP_cong) (auto split: sum.split)


section \<open>Programs that interference cannot change\<close>

text \<open>
  \<open>settles mv dv p r\<close>: whatever lookups of \<open>p\<close> miss or return, as long as hits are
  bindings that \<open>mv\<close> and \<open>dv\<close> allow, \<open>p\<close> ends with \<open>r\<close> and stores only allowed
  bindings. \<open>steady\<close> programs settle on what they return without a cache.
\<close>

primrec settles :: "(int64 \<Rightarrow> metaEntry \<Rightarrow> bool) \<Rightarrow> (int64 \<Rightarrow> bytes \<Rightarrow> bool) \<Rightarrow> 'r prog \<Rightarrow> 'r \<Rightarrow> bool" where
  "settles mv dv (Done r') r \<longleftrightarrow> r' = r"
| "settles mv dv (GetMeta off k) r \<longleftrightarrow> (\<forall>x. (\<forall>e. x = Some e \<longrightarrow> mv off e) \<longrightarrow> settles mv dv (k x) r)"
| "settles mv dv (PutMeta off e p) r \<longleftrightarrow> mv off e \<and> settles mv dv p r"
| "settles mv dv (GetData off k) r \<longleftrightarrow> (\<forall>x. (\<forall>b. x = Some b \<longrightarrow> dv off b) \<longrightarrow> settles mv dv (k x) r)"
| "settles mv dv (PutData off b p) r \<longleftrightarrow> dv off b \<and> settles mv dv p r"

definition steady :: "(int64 \<Rightarrow> metaEntry \<Rightarrow> bool) \<Rightarrow> (int64 \<Rightarrow> bytes \<Rightarrow> bool) \<Rightarrow> 'r prog \<Rightarrow> bool" where
  "steady mv dv p \<longleftrightarrow> settles mv dv p (fst (run p None))"

lemma settles_seqP: "\<lbrakk>settles mv dv p r; settles mv dv (f r) r'\<rbrakk> \<Longrightarrow> settles mv dv (seqP p f) r'"
  by (induction p) auto

lemma run_None: "snd (run p None) = None"
  by (induction p) simp_all

lemma steady_seqP [steady_intros]:
  assumes "steady mv dv p" "\<And>r. \<lbrakk>fst (run p None) = r; r \<in> set_prog p\<rbrakk> \<Longrightarrow> steady mv dv (f r)"
  shows "steady mv dv (seqP p f)"
  using assms settles_seqP [of mv dv p "fst (run p None)" f] run_None [of p] run_in_set [of p None]
  by (auto simp: steady_def run_seqP split: prod.split)

lemma steady_Done [simp, steady_intros]: "steady mv dv (Done r)"
  by (simp add: steady_def)

lemma steady_retP [steady_intros]: "steady mv dv (retP a)"
  and steady_throwP [steady_intros]: "steady mv dv (throwP e)"
  by (simp_all add: retP_def throwP_def)

lemma steady_bindP [steady_intros]:
  assumes "steady mv dv p" "\<And>a. \<lbrakk>fst (run p None) = Inr a; Inr a \<in> set_prog p\<rbrakk> \<Longrightarrow> steady mv dv (f a)"
  shows "steady mv dv (bindP p f)"
  unfolding bindP_def using assms by (intro steady_seqP) (auto split: sum.split)

lemma steady_if [steady_intros]:
  "\<lbrakk>b \<Longrightarrow> steady mv dv p; \<not> b \<Longrightarrow> steady mv dv q\<rbrakk> \<Longrightarrow> steady mv dv (if b then p else q)"
  by simp

lemma steady_case_option [steady_intros]:
  "\<lbrakk>x = None \<Longrightarrow> steady mv dv p; \<And>a. x = Some a \<Longrightarrow> steady mv dv (f a)\<rbrakk>
    \<Longrightarrow> steady mv dv (case x of None \<Rightarrow> p | Some a \<Rightarrow> f a)"
  by (cases x) simp_all

lemma steady_case_sum [steady_intros]:
  "\<lbrakk>\<And>e. x = Inl e \<Longrightarrow> steady mv dv (f e); \<And>a. x = Inr a \<Longrightarrow> steady mv dv (g a)\<rbrakk>
    \<Longrightarrow> steady mv dv (case x of Inl e \<Rightarrow> f e | Inr a \<Rightarrow> g a)"
  by (cases x) simp_all

lemma steady_case_prod [steady_intros]:
  "(\<And>a b. x = (a, b) \<Longrightarrow> steady mv dv (f a b)) \<Longrightarrow> steady mv dv (case x of (a, b) \<Rightarrow> f a b)"
  by (cases x) simp

lemma steady_Let [steady_intros]:
  "(\<And>a. a = x \<Longrightarrow> steady mv dv (f a)) \<Longrightarrow> steady mv dv (let a = x in f a)"
  by simp


section \<open>The methods of the cache, statement by statement\<close>

text \<open>
  The two halves of a put method inside its critical section: an unknown key first
  gets its place in the key queue, with an eviction when the map is full; then the
  binding is written. Between them the key queue and the map disagree.
\<close>

definition fifo_room :: "nat \<Rightarrow> ('k, 'v) gomap \<Rightarrow> 'k list \<Rightarrow> 'k \<Rightarrow> ('k, 'v) gomap \<times> 'k list" where
  "fifo_room cap m ks k =
     (case map_lookup m k of
        None \<Rightarrow>
          (let (m', ks') =
             (if length m \<ge> cap \<and> length ks > 0 then (map_delete m (hd ks), tl ks) else (m, ks))
           in (m', ks' @ [k]))
      | Some _ \<Rightarrow> (m, ks))"

definition roomMeta :: "int64 \<Rightarrow> blockCache \<Rightarrow> blockCache" where
  "roomMeta off bc =
     (let (m, ks) = fifo_room (bc_metaCap bc) (bc_meta bc) (bc_metaKeys bc) off
      in bc\<lparr>bc_meta := m, bc_metaKeys := ks\<rparr>)"

definition storeMeta :: "int64 \<Rightarrow> metaEntry \<Rightarrow> blockCache \<Rightarrow> blockCache" where
  "storeMeta off e bc = bc\<lparr>bc_meta := map_assign (bc_meta bc) off e\<rparr>"

definition roomData :: "int64 \<Rightarrow> blockCache \<Rightarrow> blockCache" where
  "roomData off bc =
     (let (m, ks) = fifo_room (bc_dataCap bc) (bc_data bc) (bc_dataKeys bc) off
      in bc\<lparr>bc_data := m, bc_dataKeys := ks\<rparr>)"

definition storeData :: "int64 \<Rightarrow> bytes \<Rightarrow> blockCache \<Rightarrow> blockCache" where
  "storeData off b bc = bc\<lparr>bc_data := map_assign (bc_data bc) off b\<rparr>"

lemma fifo_insert_room:
  "fifo_insert cap m ks k v = (case fifo_room cap m ks k of (m', ks') \<Rightarrow> (map_assign m' k v, ks'))"
  by (simp add: fifo_insert_def fifo_room_def split: option.split)

lemma put_halves:
  "Some (storeMeta off e (roomMeta off bc)) = putMeta (Some bc) off e"
  "Some (storeData off b (roomData off bc)) = putData (Some bc) off b"
  by (simp_all add: storeMeta_def roomMeta_def putMeta_def storeData_def roomData_def putData_def
      fifo_insert_room split: prod.split)

lemma fifo_room_lookup: "map_lookup (fst (fifo_room cap m ks k)) k' = Some w \<Longrightarrow> map_lookup m k' = Some w"
  by (auto simp: fifo_room_def delete_conv' split: option.splits if_splits)

lemma fifo_room_length: "length (fst (fifo_room cap m ks k)) \<le> length m"
  by (auto simp: fifo_room_def length_delete_le split: option.splits)

end
