(* ===== verification/Scheduler.thy ===== *)
theory Scheduler
  imports Goroutines
begin

text \<open>
  The machine that interleaves goroutines at the cache's mutex (\<^verbatim>\<open>cache.go\<close>). A
  \<^verbatim>\<open>Lock\<close>, a lookup, each half of a put and an \<^verbatim>\<open>Unlock\<close> are steps of their own, taken
  by any goroutine that can. The locales state what an invariant and a
  well-founded step relation give; they are interpreted for the machine.
\<close>

section \<open>Transition systems\<close>

locale invariant_system =
  fixes step :: "'s \<Rightarrow> 's \<Rightarrow> bool" and inv :: "'s \<Rightarrow> bool"
  assumes inv_step: "\<lbrakk>step s s'; inv s\<rbrakk> \<Longrightarrow> inv s'"
begin

lemma inv_reachable: "\<lbrakk>step\<^sup>*\<^sup>* s s'; inv s\<rbrakk> \<Longrightarrow> inv s'"
  by (induction rule: rtranclp_induct) (auto intro: inv_step)

end

locale terminating_system = invariant_system step inv
  for step :: "'s \<Rightarrow> 's \<Rightarrow> bool" and inv :: "'s \<Rightarrow> bool" +
  fixes final :: "'s \<Rightarrow> bool"
  assumes progress: "\<lbrakk>inv s; \<not> final s\<rbrakk> \<Longrightarrow> \<exists>s'. step s s'"
    and step_wf: "wf {(s', s). step s s'}"
begin

lemma completes: "inv s \<Longrightarrow> \<exists>s'. step\<^sup>*\<^sup>* s s' \<and> final s'"
  using step_wf
proof (induction s rule: wf_induct_rule)
  case (less s)
  show ?case
  proof (cases "final s")
    case False
    then obtain s' where s': "step s s'" using progress less.prems by blast
    with less inv_step obtain s'' where "step\<^sup>*\<^sup>* s' s''" "final s''" by blast
    with s' show ?thesis by (meson converse_rtranclp_into_rtranclp)
  qed auto
qed

lemma no_endless_run: "\<not> (\<forall>n. step (f n) (f (Suc n)))"
  using step_wf by (auto simp: wf_iff_no_infinite_down_chain)

lemma stuck_final: "\<lbrakk>step\<^sup>*\<^sup>* s s'; inv s; \<nexists>s''. step s' s''\<rbrakk> \<Longrightarrow> final s'"
  using progress inv_reachable by blast

end


section \<open>The machine\<close>

text \<open>
  Where a goroutine is: outside the mutex, holding it before the first statement of its
  critical section, between the two halves of a put, or before \<^verbatim>\<open>Unlock\<close>.
\<close>

datatype 'r thread =
    Running "'r prog"
  | Locked "'r prog"
  | Roomed "'r prog"
  | Unlocking "'r prog"

primrec code_of :: "'r thread \<Rightarrow> 'r prog" where
  "code_of (Running p) = p"
| "code_of (Locked p) = p"
| "code_of (Roomed p) = p"
| "code_of (Unlocking p) = p"

fun in_section :: "'r thread \<Rightarrow> bool" where
  "in_section (Running p) = False"
| "in_section t = True"

fun finished :: "'r prog \<Rightarrow> bool" where
  "finished (Done r) = True"
| "finished p = False"

record 'r machine =
  mu :: "nat option"
  shared :: cachePtr
  threads :: "'r thread list"

text \<open>
  The critical sections of the four methods. Nothing here tests the mutex: that only its
  owner comes this far is proved below.
\<close>

fun inside :: "'r thread \<Rightarrow> blockCache \<Rightarrow> ('r thread \<times> blockCache) option" where
  "inside (Locked (GetMeta off k)) bc = Some (Unlocking (k (map_lookup (bc_meta bc) off)), bc)"
| "inside (Locked (GetData off k)) bc = Some (Unlocking (k (map_lookup (bc_data bc) off)), bc)"
| "inside (Locked (PutMeta off e p)) bc = Some (Roomed (PutMeta off e p), roomMeta off bc)"
| "inside (Locked (PutData off b p)) bc = Some (Roomed (PutData off b p), roomData off bc)"
| "inside (Roomed (PutMeta off e p)) bc = Some (Unlocking p, storeMeta off e bc)"
| "inside (Roomed (PutData off b p)) bc = Some (Unlocking p, storeData off b bc)"
| "inside _ bc = None"

text \<open>The methods on a nil cache return at once.\<close>

fun uncached :: "'r prog \<Rightarrow> 'r prog option" where
  "uncached (Done r) = None"
| "uncached (GetMeta off k) = Some (k None)"
| "uncached (GetData off k) = Some (k None)"
| "uncached (PutMeta off e p) = Some p"
| "uncached (PutData off b p) = Some p"

inductive step :: "'r machine \<Rightarrow> 'r machine \<Rightarrow> bool" where
  lock: "\<lbrakk>i < length ts; ts ! i = Running p; \<not> finished p\<rbrakk>
    \<Longrightarrow> step \<lparr>mu = None, shared = Some bc, threads = ts\<rparr>
             \<lparr>mu = Some i, shared = Some bc, threads = ts[i := Locked p]\<rparr>"
| body: "\<lbrakk>i < length ts; inside (ts ! i) bc = Some (t, bc')\<rbrakk>
    \<Longrightarrow> step \<lparr>mu = m, shared = Some bc, threads = ts\<rparr>
             \<lparr>mu = m, shared = Some bc', threads = ts[i := t]\<rparr>"
| unlock: "\<lbrakk>i < length ts; ts ! i = Unlocking p\<rbrakk>
    \<Longrightarrow> step \<lparr>mu = m, shared = Some bc, threads = ts\<rparr>
             \<lparr>mu = None, shared = Some bc, threads = ts[i := Running p]\<rparr>"
| nil: "\<lbrakk>i < length ts; ts ! i = Running p; uncached p = Some p'\<rbrakk>
    \<Longrightarrow> step \<lparr>mu = m, shared = None, threads = ts\<rparr>
             \<lparr>mu = m, shared = None, threads = ts[i := Running p']\<rparr>"

definition spawn :: "cachePtr \<Rightarrow> 'r prog list \<Rightarrow> 'r machine" where
  "spawn c ps = \<lparr>mu = None, shared = c, threads = map Running ps\<rparr>"

definition all_done :: "'r machine \<Rightarrow> bool" where
  "all_done M \<longleftrightarrow> (\<forall>t\<in>set (threads M). \<exists>r. t = Running (Done r))"

text \<open>The results of the goroutines that have returned.\<close>

fun result :: "'r thread \<Rightarrow> 'r option" where
  "result (Running (Done r)) = Some r"
| "result _ = None"


section \<open>The lock discipline\<close>

text \<open>
  A goroutine is inside a critical section exactly when the mutex is its own, and what
  it still has to do there is what the method does.
\<close>

fun in_place :: "'r thread \<Rightarrow> bool" where
  "in_place (Locked p) = (\<not> finished p)"
| "in_place (Roomed (PutMeta off e p)) = True"
| "in_place (Roomed (PutData off b p)) = True"
| "in_place (Roomed p) = False"
| "in_place t = True"

definition disciplined :: "'r machine \<Rightarrow> bool" where
  "disciplined M \<longleftrightarrow>
     (\<forall>i < length (threads M). in_place (threads M ! i) \<and> (in_section (threads M ! i) \<longleftrightarrow> mu M = Some i)) \<and>
     (\<forall>i. mu M = Some i \<longrightarrow> i < length (threads M) \<and> shared M \<noteq> None)"

lemma inside_section:
  assumes "inside t bc = Some (t', bc')"
  shows "in_section t" "in_section t'" "in_place t'"
  using assms by (auto elim: inside.elims)

lemma disciplined_step: "\<lbrakk>step M M'; disciplined M\<rbrakk> \<Longrightarrow> disciplined M'"
proof (induction rule: step.induct)
  case (body i ts bc t bc' m)
  with inside_section [OF body(2)] show ?case
    by (auto simp: disciplined_def nth_list_update)
qed (auto simp: disciplined_def nth_list_update)

interpretation discipline: invariant_system step disciplined
  by unfold_locales (rule disciplined_step)

lemma disciplined_spawn: "disciplined (spawn c ps)"
  by (simp add: disciplined_def spawn_def)

lemma inside_enabled: "\<lbrakk>in_section t; in_place t\<rbrakk> \<Longrightarrow> (\<exists>p. t = Unlocking p) \<or> (\<exists>t' bc'. inside t bc = Some (t', bc'))"
  by (cases "(t, bc)" rule: inside.cases) auto

text \<open>No deadlock: as long as a goroutine has not returned, some goroutine can step.\<close>

lemma disciplined_progress:
  assumes d: "disciplined M" and nd: "\<not> all_done M"
  shows "\<exists>M'. step M M'"
proof -
  obtain m c ts where M: "M = \<lparr>mu = m, shared = c, threads = ts\<rparr>" by (cases M)
  show ?thesis
  proof (cases m)
    case (Some i)
    with d M obtain bc where i: "i < length ts" "in_section (ts ! i)" "in_place (ts ! i)" "c = Some bc"
      by (auto simp: disciplined_def)
    from inside_enabled [OF i(2,3), of bc] i show ?thesis
      unfolding M by (auto intro: step.unlock step.body)
  next
    case None
    from nd M obtain i where i: "i < length ts" "\<nexists>r. ts ! i = Running (Done r)"
      by (auto simp: all_done_def in_set_conv_nth)
    with d M None obtain p where p: "ts ! i = Running p" "\<not> finished p"
      by (cases "ts ! i"; cases "code_of (ts ! i)") (auto simp: disciplined_def)
    then obtain p' where "uncached p = Some p'" by (cases p) auto
    with i(1) p None show ?thesis unfolding M by (cases c) (auto intro: step.lock step.nil)
  qed
qed


section \<open>Every schedule ends\<close>

text \<open>
  What is left of a program after one access, for every answer the access may get. A
  step of a goroutine moves it closer to its next access or past it.
\<close>

inductive after_access :: "'r prog \<Rightarrow> 'r prog \<Rightarrow> bool" where
  "after_access (k x) (GetMeta off k)"
| "after_access (k x) (GetData off k)"
| "after_access p (PutMeta off e p)"
| "after_access p (PutData off b p)"

inductive_simps after_access_simps [simp]:
  "after_access q (Done r)" "after_access q (GetMeta off k)" "after_access q (GetData off k)"
  "after_access q (PutMeta off e p)" "after_access q (PutData off b p)"

lemma wf_after_access: "wf {(q, p). after_access q p}"
proof (rule wfUNIVI)
  fix P :: "'r prog \<Rightarrow> bool" and p
  assume *: "\<forall>x. (\<forall>y. (y, x) \<in> {(q, p). after_access q p} \<longrightarrow> P y) \<longrightarrow> P x"
  show "P p" by (induction p) (rule * [rule_format], auto)+
qed

primrec phase :: "'r thread \<Rightarrow> nat" where
  "phase (Unlocking p) = 3"
| "phase (Running p) = 2"
| "phase (Locked p) = 1"
| "phase (Roomed p) = 0"

definition thread_order :: "('r thread \<times> 'r thread) set" where
  "thread_order = inv_image ({(q, p). after_access q p} <*lex*> less_than) (\<lambda>t. (code_of t, phase t))"

lemma wf_thread_order: "wf thread_order"
  unfolding thread_order_def by (intro wf_inv_image wf_lex_prod wf_after_access wf_less_than)

lemma thread_advances:
  "inside t bc = Some (t', bc') \<Longrightarrow> (t', t) \<in> thread_order"
  "\<not> finished p \<Longrightarrow> (Locked p, Running p) \<in> thread_order"
  "(Running p, Unlocking p) \<in> thread_order"
  "uncached p = Some p' \<Longrightarrow> (Running p', Running p) \<in> thread_order"
  by (auto simp: thread_order_def elim!: inside.elims uncached.elims)

lemma update_mult1:
  assumes "i < length xs" "(y, xs ! i) \<in> r"
  shows "(mset (xs[i := y]), mset xs) \<in> mult1 r"
proof -
  have "mset xs = add_mset (xs ! i) (mset xs - {#xs ! i#})" using assms(1) by simp
  moreover have "mset (xs[i := y]) = (mset xs - {#xs ! i#}) + {#y#}" using assms(1) by (simp add: mset_update)
  ultimately show ?thesis using assms(2) unfolding mult1_def by fastforce
qed

lemma step_mult1: "step M M' \<Longrightarrow> (mset (threads M'), mset (threads M)) \<in> mult1 thread_order"
  by (induction rule: step.induct) (auto intro!: update_mult1 intro: thread_advances)

lemma wf_step: "wf {(M', M). step M M'}"
  by (rule wf_subset [OF wf_inv_image [OF wf_mult1 [OF wf_thread_order], of "\<lambda>M. mset (threads M)"]])
    (auto dest: step_mult1)

lemma all_done_nth: "\<lbrakk>all_done M; i < length (threads M)\<rbrakk> \<Longrightarrow> \<exists>a. threads M ! i = Running (Done a)"
  unfolding all_done_def using nth_mem by blast

lemma all_done_stuck:
  assumes "all_done M"
  shows "\<not> step M M'"
proof
  assume "step M M'"
  then show False using all_done_nth [OF assms] by (cases rule: step.cases) fastforce+
qed

interpretation mutex: terminating_system step disciplined all_done
  by unfold_locales (auto intro: disciplined_progress wf_step)


section \<open>Answers under interference\<close>

text \<open>The bindings of a cache are all allowed, and every goroutine is on its way to its result.\<close>

definition contents_ok :: "(int64 \<Rightarrow> metaEntry \<Rightarrow> bool) \<Rightarrow> (int64 \<Rightarrow> bytes \<Rightarrow> bool) \<Rightarrow> cachePtr \<Rightarrow> bool" where
  "contents_ok mv dv c \<longleftrightarrow>
     (\<forall>off e. getMeta c off = Some e \<longrightarrow> mv off e) \<and> (\<forall>off b. getData c off = Some b \<longrightarrow> dv off b)"

definition on_course ::
  "(int64 \<Rightarrow> metaEntry \<Rightarrow> bool) \<Rightarrow> (int64 \<Rightarrow> bytes \<Rightarrow> bool) \<Rightarrow> 'r list \<Rightarrow> 'r machine \<Rightarrow> bool" where
  "on_course mv dv rs M \<longleftrightarrow>
     contents_ok mv dv (shared M) \<and> list_all2 (\<lambda>t r. settles mv dv (code_of t) r) (threads M) rs"

lemma contents_room:
  assumes "contents_ok mv dv (Some bc)"
  shows "contents_ok mv dv (Some (roomMeta off bc))" "contents_ok mv dv (Some (roomData off bc))"
  using assms
  by (auto simp: contents_ok_def getMeta_def getData_def roomMeta_def roomData_def split_beta Let_def
      dest!: fifo_room_lookup)

lemma get_store [simp]:
  "getMeta (Some (storeMeta off e bc)) x = (if x = off then Some e else getMeta (Some bc) x)"
  "getData (Some (storeMeta off e bc)) = getData (Some bc)"
  "getData (Some (storeData off b bc)) x = (if x = off then Some b else getData (Some bc) x)"
  "getMeta (Some (storeData off b bc)) = getMeta (Some bc)"
  by (simp_all add: getMeta_def getData_def storeMeta_def storeData_def update_conv' fun_eq_iff)

lemma contents_store:
  assumes "contents_ok mv dv (Some bc)"
  shows "mv off e \<Longrightarrow> contents_ok mv dv (Some (storeMeta off e bc))"
    "dv off b \<Longrightarrow> contents_ok mv dv (Some (storeData off b bc))"
  using assms by (simp_all add: contents_ok_def)

lemma contents_lookup:
  assumes "contents_ok mv dv (Some bc)"
  shows "map_lookup (bc_meta bc) off = Some e \<Longrightarrow> mv off e" "map_lookup (bc_data bc) off = Some b \<Longrightarrow> dv off b"
  using assms by (simp_all add: contents_ok_def getMeta_def getData_def)

lemma inside_on_course:
  assumes "inside t bc = Some (t', bc')" "settles mv dv (code_of t) r" "contents_ok mv dv (Some bc)"
  shows "settles mv dv (code_of t') r \<and> contents_ok mv dv (Some bc')"
  using assms(1,2)
  by (elim inside.elims)
    (use assms(3) contents_lookup [OF assms(3)] contents_room [OF assms(3)] contents_store [OF assms(3)] in auto)

lemma uncached_settles: "\<lbrakk>uncached p = Some p'; settles mv dv p r\<rbrakk> \<Longrightarrow> settles mv dv p' r"
  by (auto elim!: uncached.elims)

lemma on_course_step: "\<lbrakk>step M M'; on_course mv dv rs M\<rbrakk> \<Longrightarrow> on_course mv dv rs M'"
proof (induction rule: step.induct)
  case (body i ts bc t bc' m)
  then have "settles mv dv (code_of (ts ! i)) (rs ! i)" "contents_ok mv dv (Some bc)"
    by (auto simp: on_course_def list_all2_conv_all_nth)
  from inside_on_course [OF body(2) this] body(1,3) show ?case
    by (auto simp: on_course_def list_all2_conv_all_nth nth_list_update)
next
  case (nil i ts p p' m)
  then have "settles mv dv p' (rs ! i)"
    by (intro uncached_settles [OF nil(3)]) (auto simp: on_course_def list_all2_conv_all_nth)
  with nil show ?case by (auto simp: on_course_def list_all2_conv_all_nth nth_list_update)
qed (auto simp: on_course_def list_all2_conv_all_nth nth_list_update)

interpretation answers: invariant_system step "on_course mv dv rs" for mv dv rs
  by unfold_locales (rule on_course_step)

lemma on_course_spawn:
  assumes "contents_ok mv dv c" "list_all (steady mv dv) ps"
  shows "on_course mv dv (map (\<lambda>p. fst (run p None)) ps) (spawn c ps)"
  using assms by (auto simp: on_course_def spawn_def list_all2_conv_all_nth list_all_length steady_def)

text \<open>Whenever a goroutine has returned, its result is the one it has without a cache.\<close>

lemma answer_steady:
  assumes "step\<^sup>*\<^sup>* (spawn c ps) M" "contents_ok mv dv c" "list_all (steady mv dv) ps"
    and "i < length ps" "threads M ! i = Running (Done r)"
  shows "r = fst (run (ps ! i) None)"
proof -
  have "on_course mv dv (map (\<lambda>p. fst (run p None)) ps) M"
    by (rule answers.inv_reachable [OF assms(1) on_course_spawn [OF assms(2,3)]])
  with assms(4,5) show ?thesis by (auto simp: on_course_def list_all2_conv_all_nth)
qed

lemma threads_reachable: "step\<^sup>*\<^sup>* M M' \<Longrightarrow> length (threads M') = length (threads M)"
  by (induction rule: rtranclp_induct) (auto elim!: step.cases)

text \<open>When no goroutine can step, all have returned, each with its own result.\<close>

lemma results_steady:
  assumes r: "step\<^sup>*\<^sup>* (spawn c ps) M" and s: "\<nexists>M'. step M M'"
    and ok: "contents_ok mv dv c" "list_all (steady mv dv) ps"
  shows "map result (threads M) = map (\<lambda>p. Some (fst (run p None))) ps"
proof (rule nth_equalityI)
  show len: "length (map result (threads M)) = length (map (\<lambda>p. Some (fst (run p None))) ps)"
    using threads_reachable [OF r] by (simp add: spawn_def)
  fix i assume i: "i < length (map result (threads M))"
  have "all_done M" by (rule mutex.stuck_final [OF r disciplined_spawn s])
  with i obtain a where a: "threads M ! i = Running (Done a)" using all_done_nth by fastforce
  from answer_steady [OF r ok _ a] i len a show "map result (threads M) ! i = map (\<lambda>p. Some (fst (run p None))) ps ! i"
    by simp
qed


section \<open>The cache under interference\<close>

text \<open>
  Between critical sections the cache is well formed; inside a put it is a well-formed
  cache with room made for the new key.
\<close>

fun wf_during :: "'r thread \<Rightarrow> blockCache \<Rightarrow> bool" where
  "wf_during (Roomed (PutMeta off e p)) bc \<longleftrightarrow> (\<exists>bc0. cache_wf (Some bc0) \<and> bc = roomMeta off bc0)"
| "wf_during (Roomed (PutData off b p)) bc \<longleftrightarrow> (\<exists>bc0. cache_wf (Some bc0) \<and> bc = roomData off bc0)"
| "wf_during t bc \<longleftrightarrow> cache_wf (Some bc)"

definition cache_kept :: "'r machine \<Rightarrow> bool" where
  "cache_kept M \<longleftrightarrow> disciplined M \<and>
     (\<forall>bc. shared M = Some bc \<longrightarrow>
        (case mu M of None \<Rightarrow> cache_wf (Some bc) | Some i \<Rightarrow> wf_during (threads M ! i) bc))"

lemma inside_wf:
  assumes "inside t bc = Some (t', bc')" "wf_during t bc"
  shows "wf_during t' bc'"
  using assms
  by (auto elim!: inside.elims simp: put_halves intro!: metaStore.put_wf dataStore.put_wf)

lemma cache_kept_step: "\<lbrakk>step M M'; cache_kept M\<rbrakk> \<Longrightarrow> cache_kept M'"
proof (induction rule: step.induct)
  case (body i ts bc t bc' m)
  have d: "disciplined \<lparr>mu = m, shared = Some bc, threads = ts\<rparr>" using body(3) by (simp add: cache_kept_def)
  with inside_section(1) [OF body(2)] body(1) have m: "m = Some i" by (auto simp: disciplined_def)
  with body have "wf_during t bc'" by (auto simp: cache_kept_def intro: inside_wf)
  with disciplined_step [OF step.body [OF body(1,2)] d] m body(1) show ?case by (simp add: cache_kept_def)
next
  case (lock i ts p bc)
  then show ?case
    using disciplined_step [OF step.lock [OF lock(1-3), of bc]] by (simp add: cache_kept_def)
next
  case (unlock i ts p m bc)
  then have "m = Some i" by (auto simp: cache_kept_def disciplined_def)
  with unlock show ?case
    using disciplined_step [OF step.unlock [OF unlock(1,2), of m bc]] by (simp add: cache_kept_def)
next
  case (nil i ts p p' m)
  then show ?case
    using disciplined_step [OF step.nil [OF nil(1-3), of m]] by (simp add: cache_kept_def)
qed

interpretation kept: invariant_system step cache_kept
  by unfold_locales (rule cache_kept_step)


text \<open>The caps never change, and the entries respect them in every state, put or no put.\<close>

lemma room_size:
  "metaEntries (Some (roomMeta off bc)) \<le> metaEntries (Some bc)" "dataEntries (Some (roomMeta off bc)) = dataEntries (Some bc)"
  "dataEntries (Some (roomData off bc)) \<le> dataEntries (Some bc)" "metaEntries (Some (roomData off bc)) = metaEntries (Some bc)"
  by (auto simp: cache_size_defs roomMeta_def roomData_def Let_def split_beta fifo_room_length)

lemma room_store_caps:
  "metaLimit (Some (roomMeta off bc)) = metaLimit (Some bc)" "dataLimit (Some (roomMeta off bc)) = dataLimit (Some bc)"
  "metaLimit (Some (roomData off bc)) = metaLimit (Some bc)" "dataLimit (Some (roomData off bc)) = dataLimit (Some bc)"
  "metaLimit (Some (storeMeta off e bc)) = metaLimit (Some bc)" "dataLimit (Some (storeMeta off e bc)) = dataLimit (Some bc)"
  "metaLimit (Some (storeData off b bc)) = metaLimit (Some bc)" "dataLimit (Some (storeData off b bc)) = dataLimit (Some bc)"
  by (simp_all add: cache_size_defs roomMeta_def roomData_def storeMeta_def storeData_def Let_def split_beta)

lemma limits_step:
  "step M M' \<Longrightarrow> metaLimit (shared M') = metaLimit (shared M) \<and> dataLimit (shared M') = dataLimit (shared M) \<and>
     (shared M' = None \<longleftrightarrow> shared M = None)"
  by (induction rule: step.induct) (auto elim!: inside.elims simp: room_store_caps)

lemma limits_reachable:
  "step\<^sup>*\<^sup>* M M' \<Longrightarrow> metaLimit (shared M') = metaLimit (shared M) \<and> dataLimit (shared M') = dataLimit (shared M) \<and>
     (shared M' = None \<longleftrightarrow> shared M = None)"
  by (induction rule: rtranclp_induct) (auto dest: limits_step)

lemma wf_during_bound:
  assumes "wf_during t bc"
  shows "metaEntries (Some bc) \<le> metaLimit (Some bc) \<and> dataEntries (Some bc) \<le> dataLimit (Some bc)"
  using assms
proof (cases rule: wf_during.cases [of "(t, bc)"])
  case (1 off e p bc1)
  with assms obtain bc0 where "cache_wf (Some bc0)" "bc = roomMeta off bc0" by auto
  with metaStore.wf_bound dataStore.wf_bound room_size(1,2) [of off bc0] show ?thesis
    by (metis order_trans room_store_caps(1,2))
next
  case (2 off b p bc1)
  with assms obtain bc0 where "cache_wf (Some bc0)" "bc = roomData off bc0" by auto
  with metaStore.wf_bound dataStore.wf_bound room_size(3,4) [of off bc0] show ?thesis
    by (metis order_trans room_store_caps(3,4))
qed (auto dest: metaStore.wf_bound dataStore.wf_bound)

lemma cache_kept_bound:
  assumes "cache_kept M"
  shows "metaEntries (shared M) \<le> metaLimit (shared M) \<and> dataEntries (shared M) \<le> dataLimit (shared M)"
proof (cases "shared M")
  case (Some bc)
  then show ?thesis
    using assms wf_during_bound [of _ bc] metaStore.wf_bound [of "Some bc"] dataStore.wf_bound [of "Some bc"]
    by (cases "mu M") (auto simp: cache_kept_def)
qed (simp add: cache_size_defs)

lemma cache_kept_spawn: "cache_wf c \<Longrightarrow> cache_kept (spawn c ps)"
  using disciplined_spawn [of c ps] by (auto simp: cache_kept_def spawn_def)


section \<open>One goroutine alone\<close>

text \<open>What is left of a goroutine's work, from any point of it, when nobody interferes.\<close>

fun resume :: "'r thread \<Rightarrow> cachePtr \<Rightarrow> 'r \<times> cachePtr" where
  "resume (Roomed (PutMeta off e p)) (Some bc) = run p (Some (storeMeta off e bc))"
| "resume (Roomed (PutData off b p)) (Some bc) = run p (Some (storeData off b bc))"
| "resume t c = run (code_of t) c"

definition solo :: "'r \<times> cachePtr \<Rightarrow> 'r machine \<Rightarrow> bool" where
  "solo rc M \<longleftrightarrow> (\<exists>t. threads M = [t] \<and> resume t (shared M) = rc)"

lemma resume_inside: "inside t bc = Some (t', bc') \<Longrightarrow> resume t' (Some bc') = resume t (Some bc)"
  by (auto elim!: inside.elims simp: put_halves getMeta_def getData_def)

lemma solo_step: "\<lbrakk>step M M'; solo rc M\<rbrakk> \<Longrightarrow> solo rc M'"
proof (induction rule: step.induct)
  case (nil i ts p p' m)
  then show ?case by (auto simp: solo_def elim!: uncached.elims)
qed (auto simp: solo_def resume_inside)

interpretation alone: invariant_system step "solo rc" for rc
  by unfold_locales (rule solo_step)

lemma alone_result:
  assumes "step\<^sup>*\<^sup>* (spawn c [p]) M" "\<nexists>M'. step M M'"
  shows "threads M = [Running (Done (fst (run p c)))] \<and> shared M = snd (run p c)"
proof -
  have "solo (run p c) M"
    by (rule alone.inv_reachable [OF assms(1)]) (simp add: solo_def spawn_def)
  moreover have "all_done M" by (rule mutex.stuck_final [OF assms(1) disciplined_spawn assms(2)])
  ultimately show ?thesis by (cases "run p c") (auto simp: solo_def all_done_def)
qed

end
