(* ===== verification/ReaderSteps.thy ===== *)
theory ReaderSteps
  imports Scheduler FsApi
begin

text \<open>
  The reader at the granularity of cache accesses: the operations of \<^verbatim>\<open>metadata.go\<close>,
  \<^verbatim>\<open>inode.go\<close>, \<^verbatim>\<open>dir.go\<close> and \<^verbatim>\<open>path.go\<close> as programs that other goroutines may
  interrupt between any two accesses. For each of them, run alone it is the operation of
  the sequential model (\<open>run_simps\<close>), and interference by goroutines that store only
  what the image holds does not change its result (\<open>steady_intros\<close>).
\<close>

definition liftP :: "error + 'a \<Rightarrow> 'a go" where "liftP r = Done r"

lemma steady_liftP [steady_intros]: "steady mv dv (liftP r)"
  by (simp add: liftP_def)

lemma run_retP [run_intros]: "run (retP a) = retM a"
  and run_throwP [run_intros]: "run (throwP e) = throwM e"
  and run_liftP [run_intros]: "run (liftP r) = liftM r"
  by (simp_all add: retP_def throwP_def liftP_def liftM_def fun_eq_iff)

lemma run_bindP_rule [run_intros]:
  assumes "run p = m" "\<And>a. Inr a \<in> set_prog p \<Longrightarrow> run (f a) = g a"
  shows "run (bindP p f) = bindM m g"
proof (rule ext)
  fix c show "run (bindP p f) c = bindM m g c"
    using run_in_set [of p c] assms(2)
    by (auto simp: run_bindP assms(1) [symmetric] bindM_def split: prod.split sum.split)
qed

lemma run_if [run_intros]:
  "\<lbrakk>b \<Longrightarrow> run p = m; \<not> b \<Longrightarrow> run q = n\<rbrakk> \<Longrightarrow> run (if b then p else q) = (if b then m else n)"
  by simp

lemma run_case_option [run_intros]:
  "\<lbrakk>x = None \<Longrightarrow> run p = m; \<And>a. x = Some a \<Longrightarrow> run (f a) = g a\<rbrakk>
    \<Longrightarrow> run (case x of None \<Rightarrow> p | Some a \<Rightarrow> f a) = (case x of None \<Rightarrow> m | Some a \<Rightarrow> g a)"
  by (cases x) simp_all

lemma run_case_sum [run_intros]:
  "\<lbrakk>\<And>e. x = Inl e \<Longrightarrow> run (f e) = f' e; \<And>a. x = Inr a \<Longrightarrow> run (g a) = g' a\<rbrakk>
    \<Longrightarrow> run (case x of Inl e \<Rightarrow> f e | Inr a \<Rightarrow> g a) = (case x of Inl e \<Rightarrow> f' e | Inr a \<Rightarrow> g' a)"
  by (cases x) simp_all

lemma run_case_prod [run_intros]:
  "(\<And>a b. x = (a, b) \<Longrightarrow> run (f a b) = g a b)
    \<Longrightarrow> run (case x of (a, b) \<Rightarrow> f a b) = (case x of (a, b) \<Rightarrow> g a b)"
  by (cases x) simp

lemma run_Let [run_intros]:
  "(\<And>a. a = x \<Longrightarrow> run (f a) = g a) \<Longrightarrow> run (let a = x in f a) = (let a = x in g a)"
  by simp

text \<open>The bindings a coherent cache may hold.\<close>

definition meta_valid :: "FS \<Rightarrow> int64 \<Rightarrow> metaEntry \<Rightarrow> bool" where
  "meta_valid fs at e \<longleftrightarrow> readMetaBlock (fs_rs fs) (fs_d fs) at = Inr (me_data e, me_next e)"

definition data_valid :: "FS \<Rightarrow> (int64 \<Rightarrow> int64) \<Rightarrow> int64 \<Rightarrow> bytes \<Rightarrow> bool" where
  "data_valid fs w off b \<longleftrightarrow> fst (fetchBlock fs off (unat (w off)) True None) = Inr b"

lemma contents_coherent: "contents_ok (meta_valid fs) (data_valid fs w) c \<longleftrightarrow> coherent fs (data_coherent fs w) c"
  by (simp add: contents_ok_def coherent_def data_coherent_def meta_valid_def data_valid_def)


section \<open>Metadata\<close>

definition readMetaBlockCached_steps :: "FS \<Rightarrow> int64 \<Rightarrow> (bytes \<times> int64) go" where
  "readMetaBlockCached_steps fs at =
     GetMeta at (\<lambda>hit. case hit of
        Some e \<Rightarrow> retP (me_data e, me_next e)
      | None \<Rightarrow>
          (case readMetaBlock (fs_rs fs) (fs_d fs) at of
             Inl e \<Rightarrow> throwP e
           | Inr (data, next) \<Rightarrow> PutMeta at \<lparr>me_data = data, me_next = next\<rparr> (retP (data, next))))"

lemma run_readMetaBlockCached [run_intros]: "run (readMetaBlockCached_steps fs at) = readMetaBlockCached fs at"
  by (simp add: readMetaBlockCached_steps_def readMetaBlockCached_def retP_def throwP_def fun_eq_iff split: option.split sum.split)

lemma readMetaBlockCached_steady [steady_intros]: "steady (meta_valid fs) dv (readMetaBlockCached_steps fs at)"
  by (auto simp: steady_def run_readMetaBlockCached readMetaBlockCached_None readMetaBlockCached_steps_def
      meta_valid_def retP_def throwP_def split: option.split sum.split)

definition cur_load_steps :: "FS \<Rightarrow> metaCursor \<Rightarrow> metaCursor go" where
  "cur_load_steps fs c =
     bindP (readMetaBlockCached_steps fs (mc_next c)) (\<lambda>(data, next).
     retP (c\<lparr>mc_cur := data, mc_next := next, mc_pos := 0\<rparr>))"

definition newMetaCursor_steps :: "FS \<Rightarrow> int64 \<Rightarrow> nat \<Rightarrow> metaCursor go" where
  "newMetaCursor_steps fs blockStart inBlockOff =
     bindP (cur_load_steps fs \<lparr>mc_next = blockStart, mc_cur = [], mc_pos = 0\<rparr>) (\<lambda>c.
     if inBlockOff > length (mc_cur c) then throwP (Wrapped ErrCorrupt)
     else retP (c\<lparr>mc_pos := inBlockOff\<rparr>))"

definition cur_refill_steps :: "FS \<Rightarrow> metaCursor \<Rightarrow> metaCursor go" where
  "cur_refill_steps fs c =
     (if mc_pos c \<ge> length (mc_cur c) then
        bindP (cur_load_steps fs c) (\<lambda>c'.
        if length (mc_cur c') = 0 then throwP ErrUnexpectedEOF else retP c')
      else retP c)"

lemma cur_refill_steps_pos: "Inr c' \<in> set_prog (cur_refill_steps fs c) \<Longrightarrow> mc_pos c' < length (mc_cur c')"
  by (auto simp: cur_refill_steps_def cur_load_steps_def Inr_set_bindP split: if_splits)

function cur_read_steps :: "FS \<Rightarrow> metaCursor \<Rightarrow> nat \<Rightarrow> (bytes \<times> metaCursor) go" where
  "cur_read_steps fs c n =
     (if n = 0 then retP ([], c)
      else bindP (cur_refill_steps fs c) (\<lambda>c'.
        let k = min n (length (mc_cur c') - mc_pos c') in
        bindP (cur_read_steps fs (c'\<lparr>mc_pos := mc_pos c' + k\<rparr>) (n - k)) (\<lambda>(bs, c'').
        retP (take k (drop (mc_pos c') (mc_cur c')) @ bs, c''))))"
  by pat_completeness auto
termination
  by (relation "measure (\<lambda>(fs, c, n). n)") (auto dest!: cur_refill_steps_pos)

declare cur_read_steps.simps [simp del]

lemma run_cur_load [run_intros]: "run (cur_load_steps fs c) = cur_load fs c"
  unfolding cur_load_steps_def cur_load_def by (intro run_intros)

lemma run_newMetaCursor [run_intros]:
  "run (newMetaCursor_steps fs blockStart inBlockOff) = newMetaCursor fs blockStart inBlockOff"
  unfolding newMetaCursor_steps_def newMetaCursor_def by (intro run_intros)

lemma run_cur_refill [run_intros]: "run (cur_refill_steps fs c) = cur_refill fs c"
  unfolding cur_refill_steps_def cur_refill_def by (intro run_intros)

lemma run_cur_read [run_intros]: "run (cur_read_steps fs c n) = cur_read fs c n"
proof (induction fs c n rule: cur_read_steps.induct)
  case (1 fs c n)
  then show ?case
    by (subst cur_read_steps.simps, subst cur_read_unfold) (intro run_intros, auto)
qed

lemma cur_load_steady [steady_intros]: "steady (meta_valid fs) dv (cur_load_steps fs c)"
  unfolding cur_load_steps_def by (intro steady_intros)

lemma newMetaCursor_steady [steady_intros]: "steady (meta_valid fs) dv (newMetaCursor_steps fs blockStart inBlockOff)"
  unfolding newMetaCursor_steps_def by (intro steady_intros)

lemma cur_refill_steady [steady_intros]: "steady (meta_valid fs) dv (cur_refill_steps fs c)"
  unfolding cur_refill_steps_def by (intro steady_intros)

lemma cur_read_steady [steady_intros]: "steady (meta_valid fs) dv (cur_read_steps fs c n)"
proof (induction fs c n rule: cur_read_steps.induct)
  case (1 fs c n)
  then show ?case
    by (subst cur_read_steps.simps) (intro steady_intros, auto)
qed


section \<open>Inodes\<close>

function blockListLoop_steps :: "FS \<Rightarrow> nat \<Rightarrow> u32 list \<Rightarrow> metaCursor \<Rightarrow> (u32 list \<times> metaCursor) go" where
  "blockListLoop_steps fs n acc c =
     (if length acc < n then
        (let k = min (n - length acc) blockListChunk in
         bindP (cur_read_steps fs c (4 * k)) (\<lambda>(buf, c').
         blockListLoop_steps fs n (acc @ map (\<lambda>j. Uint32 (drop (4 * j) buf)) [0..<k]) c'))
      else retP (acc, c))"
  by pat_completeness auto
termination
  by (relation "measure (\<lambda>(fs, n, acc, c). n - length acc)") (auto simp: blockListChunk_def)

declare blockListLoop_steps.simps [simp del]

definition readBlockList_steps :: "FS \<Rightarrow> inode \<Rightarrow> metaCursor \<Rightarrow> inode go" where
  "readBlockList_steps fs i c =
     (let hasFrag = (in_fragIdx i \<noteq> invalidFrag);
          n = blockCount (in_Size i) (sb_BlockSize (fs_sb fs)) hasFrag in
      if n <s 0 \<or> 0x1000000 <s n then throwP (Wrapped ErrCorrupt)
      else bindP (blockListLoop_steps fs (unat n) [] c) (\<lambda>(sizes, _). retP (i\<lparr>in_blockSizes := sizes\<rparr>)))"

definition readBasicDir_steps :: "FS \<Rightarrow> inode \<Rightarrow> metaCursor \<Rightarrow> inode go" where
  "readBasicDir_steps fs i c =
     bindP (cur_read_steps fs c 16) (\<lambda>(b, _).
     retP (i\<lparr>in_dirStartBlock := Uint32 (drop 0 b), in_dirOffset := Uint16 (drop 10 b),
             in_Size := dirDataSize (ucast (Uint16 (drop 8 b)))\<rparr>))"

definition readExtDir_steps :: "FS \<Rightarrow> inode \<Rightarrow> metaCursor \<Rightarrow> inode go" where
  "readExtDir_steps fs i c =
     bindP (cur_read_steps fs c 24) (\<lambda>(b, _).
     retP (i\<lparr>in_dirStartBlock := Uint32 (drop 8 b), in_dirOffset := Uint16 (drop 18 b),
             in_xattrIdx := Uint32 (drop 20 b),
             in_Size := dirDataSize (ucast (Uint32 (drop 4 b)))\<rparr>))"

definition readBasicFile_steps :: "FS \<Rightarrow> inode \<Rightarrow> metaCursor \<Rightarrow> inode go" where
  "readBasicFile_steps fs i c =
     bindP (cur_read_steps fs c 16) (\<lambda>(b, c').
     readBlockList_steps fs
       (i\<lparr>in_blocksStart := ucast (Uint32 (drop 0 b)), in_fragIdx := Uint32 (drop 4 b),
          in_fragOffset := Uint32 (drop 8 b), in_Size := ucast (Uint32 (drop 12 b))\<rparr>) c')"

definition readExtFile_steps :: "FS \<Rightarrow> inode \<Rightarrow> metaCursor \<Rightarrow> inode go" where
  "readExtFile_steps fs i c =
     bindP (cur_read_steps fs c 40) (\<lambda>(b, c').
     readBlockList_steps fs
       (i\<lparr>in_blocksStart := Uint64 (drop 0 b), in_Size := Uint64 (drop 8 b),
          in_fragIdx := Uint32 (drop 28 b), in_fragOffset := Uint32 (drop 32 b),
          in_xattrIdx := Uint32 (drop 36 b)\<rparr>) c')"

definition readSymlink_steps :: "FS \<Rightarrow> inode \<Rightarrow> metaCursor \<Rightarrow> inode go" where
  "readSymlink_steps fs i c =
     bindP (cur_read_steps fs c 8) (\<lambda>(b, c1).
     let n = Uint32 (drop 4 b) in
     if unat n > metaBlockMax then throwP (Wrapped ErrCorrupt)
     else bindP (cur_read_steps fs c1 (unat n)) (\<lambda>(target, c2).
       let i' = i\<lparr>in_symlinkTarget := target, in_Size := ucast n\<rparr> in
       if in_Type i = inodeExtSymlink then
         bindP (cur_read_steps fs c2 4) (\<lambda>(xb, _). retP (i'\<lparr>in_xattrIdx := Uint32 xb\<rparr>))
       else retP i'))"

definition readInodeBody_steps :: "FS \<Rightarrow> inode \<Rightarrow> metaCursor \<Rightarrow> inode go" where
  "readInodeBody_steps fs i c =
     (let t = in_Type i in
      if t = inodeBasicDir then readBasicDir_steps fs i c
      else if t = inodeExtDir then readExtDir_steps fs i c
      else if t = inodeBasicFile then readBasicFile_steps fs i c
      else if t = inodeExtFile then readExtFile_steps fs i c
      else if t = inodeBasicSymlink \<or> t = inodeExtSymlink then readSymlink_steps fs i c
      else if t = inodeBasicChrdev \<or> t = inodeBasicBlkdev \<or> t = inodeBasicFifo \<or>
              t = inodeBasicSocket \<or> t = inodeExtChrdev \<or> t = inodeExtBlkdev \<or>
              t = inodeExtFifo \<or> t = inodeExtSocket then retP i
      else throwP (Wrapped ErrCorrupt))"

definition readInode_steps :: "FS \<Rightarrow> u64 \<Rightarrow> inode go" where
  "readInode_steps fs ref =
     (case inodeRef ref of (blockOff, inBlockOff) \<Rightarrow>
      bindP (newMetaCursor_steps fs (sb_InodeTableStart (fs_sb fs) + blockOff) inBlockOff) (\<lambda>c.
      bindP (cur_read_steps fs c 16) (\<lambda>(hdr, c').
      readInodeBody_steps fs (decodeInodeHeader hdr) c')))"

lemma run_blockListLoop [run_intros]: "run (blockListLoop_steps fs n acc c) = blockListLoop fs n acc c"
proof (induction fs n acc c rule: blockListLoop_steps.induct)
  case (1 fs n acc c)
  then show ?case
    by (subst blockListLoop_steps.simps, subst blockListLoop.simps) (intro run_intros, auto)
qed

lemma blockListLoop_steady [steady_intros]: "steady (meta_valid fs) dv (blockListLoop_steps fs n acc c)"
proof (induction fs n acc c rule: blockListLoop_steps.induct)
  case (1 fs n acc c)
  then show ?case
    by (subst blockListLoop_steps.simps) (intro steady_intros, auto)
qed

lemma run_readBlockList [run_intros]: "run (readBlockList_steps fs i c) = readBlockList fs i c"
  unfolding readBlockList_steps_def readBlockList_def by (intro run_intros)

lemma readBlockList_steady [steady_intros]: "steady (meta_valid fs) dv (readBlockList_steps fs i c)"
  unfolding readBlockList_steps_def by (intro steady_intros)

lemma run_readBasicDir [run_intros]: "run (readBasicDir_steps fs i c) = readBasicDir fs i c"
  unfolding readBasicDir_steps_def readBasicDir_def by (intro run_intros)

lemma readBasicDir_steady [steady_intros]: "steady (meta_valid fs) dv (readBasicDir_steps fs i c)"
  unfolding readBasicDir_steps_def by (intro steady_intros)

lemma run_readExtDir [run_intros]: "run (readExtDir_steps fs i c) = readExtDir fs i c"
  unfolding readExtDir_steps_def readExtDir_def by (intro run_intros)

lemma readExtDir_steady [steady_intros]: "steady (meta_valid fs) dv (readExtDir_steps fs i c)"
  unfolding readExtDir_steps_def by (intro steady_intros)

lemma run_readBasicFile [run_intros]: "run (readBasicFile_steps fs i c) = readBasicFile fs i c"
  unfolding readBasicFile_steps_def readBasicFile_def by (intro run_intros)

lemma readBasicFile_steady [steady_intros]: "steady (meta_valid fs) dv (readBasicFile_steps fs i c)"
  unfolding readBasicFile_steps_def by (intro steady_intros)

lemma run_readExtFile [run_intros]: "run (readExtFile_steps fs i c) = readExtFile fs i c"
  unfolding readExtFile_steps_def readExtFile_def by (intro run_intros)

lemma readExtFile_steady [steady_intros]: "steady (meta_valid fs) dv (readExtFile_steps fs i c)"
  unfolding readExtFile_steps_def by (intro steady_intros)

lemma run_readSymlink [run_intros]: "run (readSymlink_steps fs i c) = readSymlink fs i c"
  unfolding readSymlink_steps_def readSymlink_def by (intro run_intros)

lemma readSymlink_steady [steady_intros]: "steady (meta_valid fs) dv (readSymlink_steps fs i c)"
  unfolding readSymlink_steps_def by (intro steady_intros)

lemma run_readInodeBody [run_intros]: "run (readInodeBody_steps fs i c) = readInodeBody fs i c"
  unfolding readInodeBody_steps_def readInodeBody_def by (intro run_intros)

lemma readInodeBody_steady [steady_intros]: "steady (meta_valid fs) dv (readInodeBody_steps fs i c)"
  unfolding readInodeBody_steps_def by (intro steady_intros)

lemma run_readInode [run_intros]: "run (readInode_steps fs ref) = readInode fs ref"
  unfolding readInode_steps_def readInode_def by (intro run_intros)

lemma readInode_steady [steady_intros]: "steady (meta_valid fs) dv (readInode_steps fs ref)"
  unfolding readInode_steps_def by (intro steady_intros)


section \<open>Directories\<close>

fun dirEntriesLoop_steps ::
  "FS \<Rightarrow> u64 \<Rightarrow> int \<Rightarrow> nat \<Rightarrow> metaCursor \<Rightarrow> int \<Rightarrow> dirEntry list
    \<Rightarrow> (metaCursor \<times> int \<times> dirEntry list) go" where
  "dirEntriesLoop_steps fs startBlock baseInode 0 c remaining out = retP (c, remaining, out)"
| "dirEntriesLoop_steps fs startBlock baseInode (Suc k) c remaining out =
     (if remaining \<ge> 8 then
        bindP (cur_read_steps fs c 8) (\<lambda>(eh, c1).
        let remaining1 = remaining - 8;
            offset = ucast (Uint16 (drop 0 eh)) :: u64;
            inodeDelta = sint (Uint16 (drop 2 eh));
            etype = Uint16 (drop 4 eh);
            nameLen = unat (Uint16 (drop 6 eh)) + 1 in
        if int nameLen > remaining1 \<or> nameLen > 256 then throwP (Wrapped ErrCorrupt)
        else bindP (cur_read_steps fs c1 nameLen) (\<lambda>(nameB, c2).
          if length out \<ge> maxDirEntries then throwP (Wrapped ErrTooLarge)
          else dirEntriesLoop_steps fs startBlock baseInode k c2 (remaining1 - int nameLen)
            (out @ [\<lparr>de_Name = nameB, de_InodeRef = push_bit 16 startBlock OR offset,
                      de_Number = word_of_int (baseInode + inodeDelta), de_Type = etype\<rparr>])))
      else retP (c, remaining, out))"

declare dirEntriesLoop_steps.simps [simp del]

lemma le_diff_uint: "(r :: int) \<le> m - uint (x :: u16) - 9 \<Longrightarrow> r \<le> m"
  using uint_ge_0 [of x] by linarith

lemma dirEntriesLoop_steps_remaining:
  "Inr (c', remaining', out') \<in> set_prog (dirEntriesLoop_steps fs sb bi k c remaining out) \<Longrightarrow> remaining' \<le> remaining"
proof (induction k arbitrary: c remaining out)
  case (Suc k)
  show ?case
  proof (cases "remaining \<ge> 8")
    case True
    with Suc.prems show ?thesis
      by (auto simp: dirEntriesLoop_steps.simps Inr_set_bindP Let_def split: if_splits dest!: Suc.IH dest: le_diff_uint)
  qed (use Suc.prems in \<open>simp add: dirEntriesLoop_steps.simps\<close>)
qed (simp add: dirEntriesLoop_steps.simps)

function dirHeadersLoop_steps :: "FS \<Rightarrow> metaCursor \<Rightarrow> int \<Rightarrow> dirEntry list \<Rightarrow> (dirEntry list) go" where
  "dirHeadersLoop_steps fs c remaining out =
     (if remaining \<ge> 12 then
        bindP (cur_read_steps fs c 12) (\<lambda>(hdr, c1).
        let count = unat (Uint32 (drop 0 hdr)) + 1;
            startBlock = ucast (Uint32 (drop 4 hdr));
            baseInode = sint (Uint32 (drop 8 hdr)) in
        if count < 1 \<or> count > 256 then throwP (Wrapped ErrCorrupt)
        else bindP (dirEntriesLoop_steps fs startBlock baseInode count c1 (remaining - 12) out)
          (\<lambda>(c2, remaining2, out2). dirHeadersLoop_steps fs c2 remaining2 out2))
      else retP out)"
  by pat_completeness auto
termination
  by (relation "measure (\<lambda>(fs, c, remaining, out). nat remaining)")
    (auto dest!: dirEntriesLoop_steps_remaining)

declare dirHeadersLoop_steps.simps [simp del]

definition readDir_steps :: "FS \<Rightarrow> inode \<Rightarrow> (dirEntry list) go" where
  "readDir_steps fs dir =
     (if in_Size dir = 0 then retP []
      else bindP (newMetaCursor_steps fs (sb_DirTableStart (fs_sb fs) + ucast (in_dirStartBlock dir))
                   (unat (in_dirOffset dir))) (\<lambda>c.
           dirHeadersLoop_steps fs c (sint (in_Size dir)) []))"

lemma run_dirEntriesLoop [run_intros]:
  "run (dirEntriesLoop_steps fs sb bi k c remaining out) = dirEntriesLoop fs sb bi k c remaining out"
proof (induction k arbitrary: c remaining out)
  case (Suc k)
  then show ?case
    by (subst dirEntriesLoop_steps.simps, subst dirEntriesLoop.simps) (intro run_intros, auto)
qed (simp add: dirEntriesLoop_steps.simps dirEntriesLoop.simps run_intros)

lemma dirEntriesLoop_steady [steady_intros]:
  "steady (meta_valid fs) dv (dirEntriesLoop_steps fs sb bi k c remaining out)"
proof (induction k arbitrary: c remaining out)
  case (Suc k)
  then show ?case by (subst dirEntriesLoop_steps.simps) (intro steady_intros, auto)
qed (simp add: dirEntriesLoop_steps.simps steady_intros)

lemma run_dirHeadersLoop [run_intros]:
  "run (dirHeadersLoop_steps fs c remaining out) = dirHeadersLoop fs c remaining out"
proof (induction fs c remaining out rule: dirHeadersLoop_steps.induct)
  case (1 fs c remaining out)
  then show ?case
    by (subst dirHeadersLoop_steps.simps, subst dirHeadersLoop_unfold) (intro run_intros, auto)
qed

lemma dirHeadersLoop_steady [steady_intros]: "steady (meta_valid fs) dv (dirHeadersLoop_steps fs c remaining out)"
proof (induction fs c remaining out rule: dirHeadersLoop_steps.induct)
  case (1 fs c remaining out)
  then show ?case
    by (subst dirHeadersLoop_steps.simps) (intro steady_intros, auto)
qed

lemma run_readDir [run_intros]: "run (readDir_steps fs dir) = readDir fs dir"
  unfolding readDir_steps_def readDir_def by (intro run_intros)

lemma readDir_steady [steady_intros]: "steady (meta_valid fs) dv (readDir_steps fs dir)"
  unfolding readDir_steps_def by (intro steady_intros)


section \<open>Paths\<close>

function resolveFrom_steps :: "FS \<Rightarrow> inode \<Rightarrow> bytes \<Rightarrow> bool \<Rightarrow> nat \<Rightarrow> inode go"
  and walkParts_steps :: "FS \<Rightarrow> inode \<Rightarrow> bytes list \<Rightarrow> bool \<Rightarrow> nat \<Rightarrow> inode go" where
  "resolveFrom_steps fs start path followFinal hops =
     (if hops > maxSymlinkHops then throwP ErrTooManyLinks
      else walkParts_steps fs start (splitPath path) followFinal hops)"
| "walkParts_steps fs cur [] followFinal hops = retP cur"
| "walkParts_steps fs cur (name # rest) followFinal hops =
     (if \<not> isDir cur then throwP (Wrapped ErrNotDirectory)
      else bindP (readDir_steps fs cur) (\<lambda>entries.
        case find (\<lambda>e. de_Name e = name) entries of
          None \<Rightarrow> throwP (Wrapped ErrNotFound)
        | Some e \<Rightarrow> bindP (readInode_steps fs (de_InodeRef e)) (\<lambda>child.
            if isSymlink child \<and> (rest \<noteq> [] \<or> followFinal) then
              bindP (if take 1 (in_symlinkTarget child) = [slash]
                     then readInode_steps fs (sb_RootInode (fs_sb fs)) else retP cur) (\<lambda>base.
              bindP (resolveFrom_steps fs base (in_symlinkTarget child) True (hops + 1)) (\<lambda>child'.
              walkParts_steps fs child' rest followFinal hops))
            else walkParts_steps fs child rest followFinal hops)))"
  by pat_completeness auto
termination
  by (relation "measures
      [\<lambda>x. case x of Inl (fs, st, p, f, hops) \<Rightarrow> 2 * (41 - hops)
                   | Inr (fs, cur, parts, f, hops) \<Rightarrow> 2 * (41 - hops) - 1,
       \<lambda>x. case x of Inl _ \<Rightarrow> 0 | Inr _ \<Rightarrow> 1,
       \<lambda>x. case x of Inl _ \<Rightarrow> 0 | Inr (fs, cur, parts, f, hops) \<Rightarrow> length parts]")
    (auto simp: maxSymlinkHops_def)

declare resolveFrom_steps.simps [simp del] walkParts_steps.simps [simp del]

definition resolve_steps :: "FS \<Rightarrow> bytes \<Rightarrow> bool \<Rightarrow> inode go" where
  "resolve_steps fs path followFinal =
     bindP (readInode_steps fs (sb_RootInode (fs_sb fs))) (\<lambda>root. resolveFrom_steps fs root path followFinal 0)"

lemma run_walk:
  "run (resolveFrom_steps fs start path followFinal hops) = resolveFrom fs start path followFinal hops"
  "run (walkParts_steps fs cur parts followFinal hops) = walkParts fs cur parts followFinal hops"
proof (induction fs start path followFinal hops and fs cur parts followFinal hops
    rule: resolveFrom_steps_walkParts_steps.induct)
  case (1 fs start path followFinal hops)
  then show ?case by (subst resolveFrom_steps.simps, subst resolveFrom.simps) (intro run_intros, simp)
next
  case (3 fs cur name rest followFinal hops)
  then show ?case
    by (subst walkParts_steps.simps, subst walkParts.simps) (intro run_intros, auto)
qed (simp add: walkParts_steps.simps walkParts.simps run_intros)

lemmas run_resolveFrom [run_intros] = run_walk(1)

lemma walk_steady:
  "steady (meta_valid fs) dv (resolveFrom_steps fs start path followFinal hops)"
  "steady (meta_valid fs) dv (walkParts_steps fs cur parts followFinal hops)"
proof (induction fs start path followFinal hops and fs cur parts followFinal hops
    rule: resolveFrom_steps_walkParts_steps.induct)
  case (1 fs start path followFinal hops)
  then show ?case by (subst resolveFrom_steps.simps) (intro steady_intros, simp)
next
  case (3 fs cur name rest followFinal hops)
  then show ?case
    by (subst walkParts_steps.simps) (intro steady_intros, auto)
qed (simp add: walkParts_steps.simps steady_intros)

lemmas resolveFrom_steady [steady_intros] = walk_steady(1)

lemma run_resolve [run_intros]: "run (resolve_steps fs path followFinal) = resolve fs path followFinal"
  unfolding resolve_steps_def resolve_def by (intro run_intros)

lemma resolve_steady [steady_intros]: "steady (meta_valid fs) dv (resolve_steps fs path followFinal)"
  unfolding resolve_steps_def by (intro steady_intros)

end
