(* ===== verification/FileSteps.thy ===== *)
theory FileSteps
  imports ReaderSteps
begin

text \<open>
  The operations of \<^verbatim>\<open>data.go\<close>, \<^verbatim>\<open>xattr.go\<close>, \<^verbatim>\<open>openfile.go\<close> and \<^verbatim>\<open>fs.go\<close> at the
  granularity of cache accesses, and the calls that goroutines make on one opened file
  system. Reads of file contents need, as in the sequential model, that the readers
  agree on one stored length for every offset (\<open>sized\<close> and its relatives).
\<close>

declare of_nat_unat [simp del]

section \<open>File data\<close>

definition fetchBlock_steps :: "FS \<Rightarrow> int64 \<Rightarrow> nat \<Rightarrow> bool \<Rightarrow> bytes go" where
  "fetchBlock_steps fs off n compressed =
     (if compressed then
        GetData off (\<lambda>hit. case hit of
          Some b \<Rightarrow> retP b
        | None \<Rightarrow>
            (case ReadAt (fs_rs fs) off n of
               Inl e \<Rightarrow> throwP (Wrapped e)
             | Inr raw \<Rightarrow>
                 (case fs_d fs raw (unat (sb_BlockSize (fs_sb fs))) of
                    Inl e \<Rightarrow> throwP e
                  | Inr out \<Rightarrow> PutData off out (retP out))))
      else
        (case ReadAt (fs_rs fs) off n of
           Inl e \<Rightarrow> throwP (Wrapped e)
         | Inr raw \<Rightarrow> retP raw))"

definition readBlock_steps :: "FS \<Rightarrow> int64 \<Rightarrow> u32 \<Rightarrow> bytes go" where
  "readBlock_steps fs off sizeWord =
     (case blockOnDiskSize sizeWord of (n, compressed) \<Rightarrow>
      if n = 0 then retP []
      else if ucast (sb_BlockSize (fs_sb fs)) <s n then throwP (Wrapped ErrCorrupt)
      else bindP (liftP (checkExtent fs off n)) (\<lambda>_. fetchBlock_steps fs off (unat n) compressed))"

definition readFragmentEntry_steps :: "FS \<Rightarrow> u32 \<Rightarrow> fragmentEntry go" where
  "readFragmentEntry_steps fs idx =
     (if idx \<ge> sb_FragCount (fs_sb fs) then throwP (Wrapped ErrCorrupt)
      else
        (let blockIdx = unat idx div fragPerMetaBlock; inBlock = unat idx mod fragPerMetaBlock in
         case ReadAt (fs_rs fs) (sb_FragTableStart (fs_sb fs) + of_nat blockIdx * 8) 8 of
           Inl e \<Rightarrow> throwP (Wrapped e)
         | Inr ptr \<Rightarrow>
             bindP (readMetaBlockCached_steps fs (Uint64 ptr)) (\<lambda>(block, _).
             let o_b = inBlock * fragEntrySize in
             if o_b + fragEntrySize > length block then throwP (Wrapped ErrCorrupt)
             else retP (decodeFragEntry (drop o_b block)))))"

definition readFragment_steps :: "FS \<Rightarrow> u32 \<Rightarrow> bytes go" where
  "readFragment_steps fs idx =
     bindP (readFragmentEntry_steps fs idx) (\<lambda>fe. readBlock_steps fs (fe_start fe) (fe_sizeWord fe))"

fun assembleBlocks_steps :: "FS \<Rightarrow> int64 \<Rightarrow> nat \<Rightarrow> u32 list \<Rightarrow> bytes \<Rightarrow> (nat \<times> bytes) go" where
  "assembleBlocks_steps fs off remaining [] out = retP (remaining, out)"
| "assembleBlocks_steps fs off remaining (sz # sizes) out =
     (let want = min (unat (sb_BlockSize (fs_sb fs))) remaining; n = blockOnDiskBytes sz in
      if n = 0 then assembleBlocks_steps fs off (remaining - want) sizes (out @ replicate want 0)
      else bindP (readBlock_steps fs off sz) (\<lambda>data.
        if length data < want then throwP (Wrapped ErrCorrupt)
        else assembleBlocks_steps fs (off + n) (remaining - want) sizes (out @ take want data)))"

definition appendFragment_steps :: "FS \<Rightarrow> inode \<Rightarrow> nat \<Rightarrow> bytes \<Rightarrow> bytes go" where
  "appendFragment_steps fs i remaining out =
     (if in_fragIdx i \<noteq> invalidFrag \<and> remaining > 0 then
        bindP (readFragment_steps fs (in_fragIdx i)) (\<lambda>frag.
        let start = unat (in_fragOffset i) in
        if start + remaining > length frag then throwP (Wrapped ErrCorrupt)
        else retP (out @ take remaining (drop start frag)))
      else retP out)"

definition readFileLimit_steps :: "makeBytesFn \<Rightarrow> FS \<Rightarrow> inode \<Rightarrow> int64 \<Rightarrow> bytes go" where
  "readFileLimit_steps makeBytes fs i maxLen =
     (if in_Size i > maxFileBytes fs i then throwP (Wrapped ErrCorrupt)
      else if 0 \<le>s maxLen \<and> in_Size i > maxLen then throwP (Wrapped ErrTooLarge)
      else bindP (liftP (checkExtents fs (in_blocksStart i) (in_blockSizes i))) (\<lambda>_.
        case makeBytes (in_Size i) (maxFileBytes fs i) of
          Inl e \<Rightarrow> throwP (Wrapped ErrCorrupt)
        | Inr _ \<Rightarrow>
            bindP (assembleBlocks_steps fs (in_blocksStart i) (unat (in_Size i)) (in_blockSizes i) [])
              (\<lambda>(remaining, out).
            bindP (appendFragment_steps fs i remaining out) (\<lambda>out'.
            if length out' \<noteq> unat (in_Size i) then throwP (Wrapped ErrCorrupt) else retP out'))))"

definition readFile_steps :: "makeBytesFn \<Rightarrow> FS \<Rightarrow> inode \<Rightarrow> bytes go" where
  "readFile_steps makeBytes fs i = readFileLimit_steps makeBytes fs i DefaultMaxReadFile"

lemma run_fetchBlock [run_intros]: "run (fetchBlock_steps fs off n compressed) = fetchBlock fs off n compressed"
  by (simp add: fetchBlock_steps_def fetchBlock_def retP_def throwP_def fun_eq_iff split: option.split sum.split)

lemma fetchBlock_steady:
  assumes "compressed \<Longrightarrow> n = unat (w off)"
  shows "steady mv (data_valid fs w) (fetchBlock_steps fs off n compressed)"
  using assms
  by (auto simp: steady_def run_fetchBlock fetchBlock_None fetchBlock_steps_def data_valid_def
      retP_def throwP_def split: option.split sum.split)

lemma run_readBlock [run_intros]: "run (readBlock_steps fs off sz) = readBlock fs off sz"
  unfolding readBlock_steps_def readBlock_def by (intro run_intros)

lemma readBlock_steady:
  assumes "sized w off sz"
  shows "steady mv (data_valid fs w) (readBlock_steps fs off sz)"
  using assms unfolding readBlock_steps_def sized_def
  by (intro steady_intros fetchBlock_steady) auto

lemma run_readFragmentEntry [run_intros]: "run (readFragmentEntry_steps fs idx) = readFragmentEntry fs idx"
  unfolding readFragmentEntry_steps_def readFragmentEntry_def by (intro run_intros)

lemma readFragmentEntry_steady [steady_intros]: "steady (meta_valid fs) dv (readFragmentEntry_steps fs idx)"
  unfolding readFragmentEntry_steps_def by (intro steady_intros)

lemma run_readFragment [run_intros]: "run (readFragment_steps fs idx) = readFragment fs idx"
  unfolding readFragment_steps_def readFragment_def by (intro run_intros)

lemma readFragment_steady:
  assumes "fragment_sized w fs idx"
  shows "steady (meta_valid fs) (data_valid fs w) (readFragment_steps fs idx)"
  using assms unfolding readFragment_steps_def fragment_sized_def
  by (intro steady_intros readBlock_steady) (auto simp: run_readFragmentEntry)

lemma run_assembleBlocks [run_intros]:
  "run (assembleBlocks_steps fs off remaining sizes out) = assembleBlocks fs off remaining sizes out"
proof (induction sizes arbitrary: off remaining out)
  case (Cons sz sizes)
  then show ?case unfolding assembleBlocks.simps assembleBlocks_steps.simps by (intro run_intros, auto)
qed (simp add: run_intros)

lemma assembleBlocks_steady:
  assumes "blocks_sized w off sizes"
  shows "steady (meta_valid fs) (data_valid fs w) (assembleBlocks_steps fs off remaining sizes out)"
  using assms
proof (induction sizes arbitrary: off remaining out)
  case (Cons sz sizes)
  from Cons.prems have "sized w off sz" "blocks_sized w (off + blockOnDiskBytes sz) sizes" by simp_all
  with Cons.IH show ?case
    unfolding assembleBlocks_steps.simps by (intro steady_intros readBlock_steady) auto
qed (simp add: steady_intros)

lemma run_appendFragment [run_intros]: "run (appendFragment_steps fs i remaining out) = appendFragment fs i remaining out"
  unfolding appendFragment_steps_def appendFragment_def by (intro run_intros)

lemma run_readFileLimit [run_intros]: "run (readFileLimit_steps mk fs i maxLen) = readFileLimit mk fs i maxLen"
  unfolding readFileLimit_steps_def readFileLimit_def by (intro run_intros)

lemma readFileLimit_steady:
  assumes "file_sized w fs i"
  shows "steady (meta_valid fs) (data_valid fs w) (readFileLimit_steps mk fs i maxLen)"
  using assms unfolding readFileLimit_steps_def appendFragment_steps_def file_sized_def
  by (intro steady_intros assembleBlocks_steady readFragment_steady) auto


section \<open>Extended attributes\<close>

definition readXattrIDEntry_steps :: "FS \<Rightarrow> xattrTable \<Rightarrow> u32 \<Rightarrow> xattrIDEntry go" where
  "readXattrIDEntry_steps fs t idx =
     (if idx \<ge> xt_idCount t then throwP (Wrapped ErrCorrupt)
      else
        (let blockIdx = unat idx div xattrIDPerMetaBlock; inBlock = unat idx mod xattrIDPerMetaBlock in
         if of_nat blockIdx \<ge> xt_nBlocks t then throwP (Wrapped ErrCorrupt)
         else case ReadAt (fs_rs fs) (sb_XattrTableStart (fs_sb fs) + 16 + of_nat blockIdx * 8) 8 of
           Inl e \<Rightarrow> throwP (Wrapped e)
         | Inr ptr \<Rightarrow>
             bindP (readMetaBlockCached_steps fs (Uint64 ptr)) (\<lambda>(block, _).
             let o_b = inBlock * xattrIDEntrySize in
             if o_b + xattrIDEntrySize > length block then throwP (Wrapped ErrCorrupt)
             else retP (decodeXattrIDEntry (drop o_b block)))))"

definition readXattrValueAt_steps :: "FS \<Rightarrow> xattrTable \<Rightarrow> u64 \<Rightarrow> bytes go" where
  "readXattrValueAt_steps fs t ref =
     (case inodeRef ref of (blockOff, inBlockOff) \<Rightarrow>
      bindP (newMetaCursor_steps fs (xt_kvStart t + blockOff) inBlockOff) (\<lambda>c.
      bindP (cur_read_steps fs c 4) (\<lambda>(hdr, c).
      let vsize = unat (Uint32 hdr) in
      if vsize > metaBlockMax then throwP (Wrapped ErrCorrupt)
      else bindP (cur_read_steps fs c vsize) (\<lambda>(v, _). retP v))))"

definition readXattrValue_steps :: "FS \<Rightarrow> xattrTable \<Rightarrow> u16 \<Rightarrow> metaCursor \<Rightarrow> (bytes \<times> metaCursor) go" where
  "readXattrValue_steps fs t typ c =
     bindP (cur_read_steps fs c 4) (\<lambda>(valHdr, c).
     let vsize = Uint32 valHdr in
     if typ AND xattrFlagOOL \<noteq> 0 then
       (if vsize \<noteq> 8 then throwP (Wrapped ErrCorrupt)
        else bindP (cur_read_steps fs c 8) (\<lambda>(refBytes, c).
          bindP (readXattrValueAt_steps fs t (Uint64 refBytes)) (\<lambda>v. retP (v, c))))
     else if unat vsize > metaBlockMax then throwP (Wrapped ErrCorrupt)
     else cur_read_steps fs c (unat vsize))"

definition readXattrPair_steps :: "FS \<Rightarrow> xattrTable \<Rightarrow> metaCursor \<Rightarrow> ((bytes \<times> bytes) \<times> metaCursor) go" where
  "readXattrPair_steps fs t c =
     bindP (cur_read_steps fs c 4) (\<lambda>(keyHdr, c).
     let typ = Uint16 (drop 0 keyHdr); nameSize = unat (Uint16 (drop 2 keyHdr)) in
     if nameSize > metaBlockMax then throwP (Wrapped ErrCorrupt)
     else bindP (cur_read_steps fs c nameSize) (\<lambda>(nameBytes, c).
     case xattrPrefixes (typ AND 0x00FF) of
       None \<Rightarrow> throwP (Wrapped ErrCorrupt)
     | Some pre \<Rightarrow>
         bindP (readXattrValue_steps fs t typ c) (\<lambda>(v, c).
         retP ((pre @ nameBytes, v), c))))"

fun xattrPairsLoop_steps ::
  "FS \<Rightarrow> xattrTable \<Rightarrow> nat \<Rightarrow> int \<Rightarrow> metaCursor \<Rightarrow> (bytes, bytes) gomap \<Rightarrow> ((bytes, bytes) gomap) go" where
  "xattrPairsLoop_steps fs t 0 budget c out = retP out"
| "xattrPairsLoop_steps fs t (Suc n) budget c out =
     (if budget - 8 < 0 then throwP (Wrapped ErrTooLarge)
      else bindP (readXattrPair_steps fs t c) (\<lambda>(kv, c). case kv of (name, v) \<Rightarrow>
        let budget' = budget - 8 - (int (length name) + int (length v)) in
        if budget' < 0 then throwP (Wrapped ErrTooLarge)
        else xattrPairsLoop_steps fs t n budget' c (map_assign out name v)))"

definition readXattrPairs_steps :: "FS \<Rightarrow> xattrTable \<Rightarrow> xattrIDEntry \<Rightarrow> ((bytes, bytes) gomap) go" where
  "readXattrPairs_steps fs t e =
     (case inodeRef (xe_ref e) of (blockOff, inBlockOff) \<Rightarrow>
      bindP (newMetaCursor_steps fs (xt_kvStart t + blockOff) inBlockOff) (\<lambda>c.
      xattrPairsLoop_steps fs t (unat (xe_count e)) maxXattrBytes c []))"

definition inodeXattrs_steps :: "FS \<Rightarrow> inode \<Rightarrow> ((bytes, bytes) gomap option) go" where
  "inodeXattrs_steps fs i =
     (if in_xattrIdx i = noXattr \<or> \<not> hasXattrTable fs then retP None
      else bindP (liftP (readXattrTable fs)) (\<lambda>t.
        bindP (readXattrIDEntry_steps fs t (in_xattrIdx i)) (\<lambda>e.
        bindP (readXattrPairs_steps fs t e) (\<lambda>m. retP (Some m)))))"

lemma run_readXattrIDEntry [run_intros]: "run (readXattrIDEntry_steps fs t idx) = readXattrIDEntry fs t idx"
  unfolding readXattrIDEntry_steps_def readXattrIDEntry_def by (intro run_intros)

lemma readXattrIDEntry_steady [steady_intros]: "steady (meta_valid fs) dv (readXattrIDEntry_steps fs t idx)"
  unfolding readXattrIDEntry_steps_def by (intro steady_intros)

lemma run_readXattrValueAt [run_intros]: "run (readXattrValueAt_steps fs t ref) = readXattrValueAt fs t ref"
  unfolding readXattrValueAt_steps_def readXattrValueAt_def by (intro run_intros)

lemma readXattrValueAt_steady [steady_intros]: "steady (meta_valid fs) dv (readXattrValueAt_steps fs t ref)"
  unfolding readXattrValueAt_steps_def by (intro steady_intros)

lemma run_readXattrValue [run_intros]: "run (readXattrValue_steps fs t typ c) = readXattrValue fs t typ c"
  unfolding readXattrValue_steps_def readXattrValue_def by (intro run_intros)

lemma readXattrValue_steady [steady_intros]: "steady (meta_valid fs) dv (readXattrValue_steps fs t typ c)"
  unfolding readXattrValue_steps_def by (intro steady_intros)

lemma run_readXattrPair [run_intros]: "run (readXattrPair_steps fs t c) = readXattrPair fs t c"
  unfolding readXattrPair_steps_def readXattrPair_def by (intro run_intros)

lemma readXattrPair_steady [steady_intros]: "steady (meta_valid fs) dv (readXattrPair_steps fs t c)"
  unfolding readXattrPair_steps_def by (intro steady_intros)

lemma run_xattrPairsLoop [run_intros]:
  "run (xattrPairsLoop_steps fs t n budget c out) = xattrPairsLoop fs t n budget c out"
proof (induction n arbitrary: budget c out)
  case (Suc n)
  then show ?case unfolding xattrPairsLoop.simps xattrPairsLoop_steps.simps by (intro run_intros, auto)
qed (simp add: run_intros)

lemma xattrPairsLoop_steady [steady_intros]:
  "steady (meta_valid fs) dv (xattrPairsLoop_steps fs t n budget c out)"
proof (induction n arbitrary: budget c out)
  case (Suc n)
  then show ?case unfolding xattrPairsLoop_steps.simps by (intro steady_intros, auto)
qed (simp add: steady_intros)

lemma run_readXattrPairs [run_intros]: "run (readXattrPairs_steps fs t e) = readXattrPairs fs t e"
  unfolding readXattrPairs_steps_def readXattrPairs_def by (intro run_intros)

lemma readXattrPairs_steady [steady_intros]: "steady (meta_valid fs) dv (readXattrPairs_steps fs t e)"
  unfolding readXattrPairs_steps_def by (intro steady_intros)

lemma run_inodeXattrs [run_intros]: "run (inodeXattrs_steps fs i) = inodeXattrs fs i"
  unfolding inodeXattrs_steps_def inodeXattrs_def by (intro run_intros)

lemma inodeXattrs_steady [steady_intros]: "steady (meta_valid fs) dv (inodeXattrs_steps fs i)"
  unfolding inodeXattrs_steps_def by (intro steady_intros)


section \<open>Open files\<close>

definition readFragmentInto_steps :: "squashfsFile \<Rightarrow> nat \<Rightarrow> nat \<Rightarrow> bytes go" where
  "readFragmentInto_steps f want cur =
     (if f_fragIdx f = invalidFrag then throwP (Wrapped ErrCorrupt)
      else bindP (readFragment_steps (f_fs f) (f_fragIdx f)) (\<lambda>frag.
        let tailStart = int (length (f_blockOffsets f)) * int (unat (f_blockSize f)) in
        liftP (fragmentSlice want
          (int (unat (f_fragOffset f)) + (int cur - tailStart))
          (int (unat (f_fragOffset f)) + (int (unat (f_size f)) - tailStart)) frag)))"

definition readChunk_steps :: "squashfsFile \<Rightarrow> nat \<Rightarrow> nat \<Rightarrow> bytes go" where
  "readChunk_steps f want cur =
     (let bs = unat (f_blockSize f) in
      if bs = 0 then throwP (NewError ''panic: integer divide by zero'')
      else
        (let idx = cur div bs; within = cur mod bs in
         if idx \<ge> length (f_blockOffsets f) then readFragmentInto_steps f want cur
         else
           (let want' = min want (bs - within);
                logical = min bs (unat (f_size f) - idx * bs) in
            if blockOnDiskBytes (f_blockWords f ! idx) = 0 then retP (replicate want' 0)
            else bindP (readBlock_steps (f_fs f) (f_blockOffsets f ! idx) (f_blockWords f ! idx)) (\<lambda>data.
              if length data < logical then throwP (Wrapped ErrCorrupt)
              else retP (take want' (drop within data))))))"

lemma readFragmentInto_steps_progress:
  assumes "Inr bs \<in> set_prog (readFragmentInto_steps f want cur)" "0 < want" "cur < unat (f_size f)"
  shows "bs \<noteq> []"
  using assms
  by (auto simp: readFragmentInto_steps_def Inr_set_bindP liftP_def Let_def split: if_splits
      dest!: fragmentSlice_progress [OF sym])

lemma readChunk_steps_progress:
  assumes "Inr bs \<in> set_prog (readChunk_steps f want cur)" "0 < want" "cur < unat (f_size f)"
  shows "bs \<noteq> []"
proof (cases "unat (f_blockSize f) = 0")
  case True
  with assms(1) show ?thesis by (simp add: readChunk_steps_def)
next
  case False
  define k where "k = cur mod unat (f_blockSize f)"
  define logical where
    "logical = min (unat (f_blockSize f)) (unat (f_size f) - cur div unat (f_blockSize f) * unat (f_blockSize f))"
  have k: "k < logical" "k < unat (f_blockSize f)"
    using logical_within [OF assms(3)] False by (simp_all add: k_def logical_def)
  have nz: "min want (unat (f_blockSize f) - k) \<noteq> 0" using k assms(2) by (simp add: min_def)
  from assms False show ?thesis
    unfolding readChunk_steps_def Let_def k_def [symmetric] logical_def [symmetric]
    using k nz by (auto simp: Inr_set_bindP not_less split: if_splits dest: readFragmentInto_steps_progress)
qed

function readAtLoop_steps :: "squashfsFile \<Rightarrow> nat \<Rightarrow> nat \<Rightarrow> bytes \<Rightarrow> (bytes \<times> error option) prog" where
  "readAtLoop_steps f lenp off out =
     (if \<not> length out < lenp then Done (out, None)
      else
        (let cur = off + length out in
         if cur \<ge> unat (f_size f) then Done (out, Some EOF)
         else
           (let want = min (lenp - length out) (unat (f_size f) - cur) in
            seqP (readChunk_steps f want cur) (\<lambda>r. case r of
              Inl e \<Rightarrow> Done (out, Some e)
            | Inr chunk \<Rightarrow> readAtLoop_steps f lenp off (out @ chunk)))))"
  by pat_completeness auto
termination
  by (relation "measure (\<lambda>(f, lenp, off, out). lenp - length out)")
    (auto simp: not_less not_le intro!: diff_less_mono2 dest!: readChunk_steps_progress)

declare readAtLoop_steps.simps [simp del]

definition file_ReadAt_steps :: "squashfsFile \<Rightarrow> bytes \<Rightarrow> int64 \<Rightarrow> (nat \<times> error option \<times> bytes) prog" where
  "file_ReadAt_steps f p off =
     (if f_closed f then Done (0, Some ErrClosed, p)
      else if off <s 0 then Done (0, Some (NewError ''squashfs: ReadAt: negative offset''), p)
      else if f_size f \<le>s off then Done (0, Some EOF, p)
      else seqP (readAtLoop_steps f (length p) (unat off) []) (\<lambda>(out, err).
        Done (length out, err, out @ drop (length out) p)))"

lemma run_readFragmentInto [run_intros]: "run (readFragmentInto_steps f want cur) = readFragmentInto f want cur"
  unfolding readFragmentInto_steps_def readFragmentInto_def by (intro run_intros)

lemma run_readChunk [run_intros]: "run (readChunk_steps f want cur) = readChunk f want cur"
  unfolding readChunk_steps_def readChunk_def by (intro run_intros)

lemma run_readAtLoop: "run (readAtLoop_steps f lenp off out) c = readAtLoop f lenp off out c"
proof (induction f lenp off out arbitrary: c rule: readAtLoop_steps.induct)
  case (1 f lenp off out)
  show ?case
  proof (cases "length out < lenp \<and> off + length out < unat (f_size f)")
    case False
    then show ?thesis by (auto simp: readAtLoop_steps.simps readAtLoop.simps)
  next
    case True
    define want where "want = min (lenp - length out) (unat (f_size f) - (off + length out))"
    obtain r c' where r: "readChunk f want (off + length out) c = (r, c')" by (cases "readChunk f want (off + length out) c")
    have "r \<in> set_prog (readChunk_steps f want (off + length out))"
      using run_in_set [of "readChunk_steps f want (off + length out)" c] r by (simp add: run_readChunk)
    with True r 1 show ?thesis
      by (auto simp: readAtLoop_steps.simps [of f lenp off out] readAtLoop.simps [of f lenp off out]
          run_seqP run_readChunk not_le want_def [symmetric] split: sum.split)
  qed
qed

lemma run_file_ReadAt: "run (file_ReadAt_steps f p off) c = file_ReadAt f p off c"
  by (auto simp: file_ReadAt_steps_def file_ReadAt_def run_seqP run_readAtLoop split: prod.split)

lemma readChunk_steady:
  assumes f: "newFile fs i = Inr f" and w: "file_sized w fs i"
  shows "steady (meta_valid fs) (data_valid fs w) (readChunk_steps f want cur)"
proof -
  have b: "idx < length (in_blockSizes i) \<Longrightarrow>
      steady (meta_valid fs) (data_valid fs w) (readBlock_steps fs
        (prefixOffsets (in_blocksStart i) (in_blockSizes i) ! idx) (in_blockSizes i ! idx))" for idx
    using w by (auto simp: file_sized_def intro!: readBlock_steady blocks_sized_nth)
  have r: "steady (meta_valid fs) (data_valid fs w) (readFragment_steps fs (in_fragIdx i))"
    using w by (auto simp: file_sized_def intro: readFragment_steady)
  show ?thesis
    unfolding readChunk_steps_def readFragmentInto_steps_def newFile_fields [OF f]
    by (intro steady_intros b r) simp_all
qed

lemma readAtLoop_steady:
  assumes f: "newFile fs i = Inr f" and w: "file_sized w fs i"
  shows "steady (meta_valid fs) (data_valid fs w) (readAtLoop_steps f lenp off out)"
  using f
proof (induction f lenp off out rule: readAtLoop_steps.induct)
  case (1 f lenp off out)
  then show ?case
    by (subst readAtLoop_steps.simps) (intro steady_intros readChunk_steady [OF "1.prems" w], auto)
qed

lemma file_ReadAt_steady:
  assumes "newFile fs i = Inr f" "file_sized w fs i"
  shows "steady (meta_valid fs) (data_valid fs w) (file_ReadAt_steps f p off)"
  unfolding file_ReadAt_steps_def by (intro steady_intros readAtLoop_steady [OF assms])


section \<open>The file-system API\<close>

definition ReadFileLimit_steps :: "makeBytesFn \<Rightarrow> FS \<Rightarrow> bytes \<Rightarrow> int64 \<Rightarrow> bytes go" where
  "ReadFileLimit_steps mk fs path maxLen =
     bindP (resolve_steps fs path True) (\<lambda>i.
     if \<not> isRegular i then throwP (Wrapped ErrNotRegular) else readFileLimit_steps mk fs i maxLen)"

definition ReadFile_steps :: "makeBytesFn \<Rightarrow> FS \<Rightarrow> bytes \<Rightarrow> bytes go" where
  "ReadFile_steps mk fs path = ReadFileLimit_steps mk fs path DefaultMaxReadFile"

definition ListDir_steps :: "(u64 \<Rightarrow> bytes \<Rightarrow> byte \<Rightarrow> 'd) \<Rightarrow> FS \<Rightarrow> bytes \<Rightarrow> ('d list) go" where
  "ListDir_steps newDirEntry fs path =
     bindP (resolve_steps fs path True) (\<lambda>i.
     if \<not> isDir i then throwP (Wrapped ErrNotDirectory)
     else bindP (readDir_steps fs i) (\<lambda>entries.
       retP (map (\<lambda>e. newDirEntry (ucast (de_Number e)) (de_Name e) (ucast (de_Type e))) entries)))"

definition Stat_steps :: "(u16 \<Rightarrow> u64 \<Rightarrow> u64 \<Rightarrow> 'st) \<Rightarrow> FS \<Rightarrow> bytes \<Rightarrow> 'st go" where
  "Stat_steps newStat fs path =
     bindP (resolve_steps fs path True) (\<lambda>i. retP (newStat (in_Mode i) (in_Size i) (ucast (in_Number i))))"

definition Xattrs_steps :: "FS \<Rightarrow> bytes \<Rightarrow> ((bytes, bytes) gomap option) go" where
  "Xattrs_steps fs path = bindP (resolve_steps fs path True) (\<lambda>i. inodeXattrs_steps fs i)"

definition ReadLink_steps :: "FS \<Rightarrow> bytes \<Rightarrow> bytes go" where
  "ReadLink_steps fs path =
     bindP (resolve_steps fs path False) (\<lambda>i.
     if \<not> isSymlink i then throwP (Wrapped ErrNotSymlink) else retP (in_symlinkTarget i))"

definition fs_OpenFile_steps :: "FS \<Rightarrow> bytes \<Rightarrow> squashfsFile go" where
  "fs_OpenFile_steps fs path =
     bindP (resolve_steps fs path True) (\<lambda>i.
     if \<not> isRegular i then throwP (Wrapped ErrNotRegular) else liftP (newFile fs i))"

definition mutate_steps :: "FS \<Rightarrow> mutation \<Rightarrow> unit go" where
  "mutate_steps fs m =
     (case m of
        WriteFile path data perm \<Rightarrow> throwP ErrReadOnly
      | MkDir path perm \<Rightarrow> throwP ErrReadOnly
      | DeleteFile path \<Rightarrow> throwP ErrReadOnly
      | DeleteDir path \<Rightarrow> throwP ErrReadOnly
      | Rename p q \<Rightarrow> throwP ErrReadOnly)"

definition mapP :: "('a \<Rightarrow> 'b) \<Rightarrow> 'a go \<Rightarrow> 'b go" where
  "mapP f m = bindP m (\<lambda>a. retP (f a))"

definition serve_steps :: "makeBytesFn \<Rightarrow> FS \<Rightarrow> request \<Rightarrow> reply go" where
  "serve_steps mk fs q =
     (case q of
        ReqReadFileLimit path maxLen \<Rightarrow> mapP RepBytes (ReadFileLimit_steps mk fs path maxLen)
      | ReqListDir path \<Rightarrow> mapP RepEntries (ListDir_steps (\<lambda>n name t. (n, name, t)) fs path)
      | ReqStat path \<Rightarrow> mapP RepStat (Stat_steps (\<lambda>m s n. (m, s, n)) fs path)
      | ReqXattrs path \<Rightarrow> mapP RepXattrs (Xattrs_steps fs path)
      | ReqReadLink path \<Rightarrow> mapP RepBytes (ReadLink_steps fs path)
      | ReqMutate m \<Rightarrow> mapP (\<lambda>_. RepUnit) (mutate_steps fs m))"

lemma run_ReadFileLimit [run_intros]: "run (ReadFileLimit_steps mk fs path maxLen) = ReadFileLimit mk fs path maxLen"
  unfolding ReadFileLimit_steps_def ReadFileLimit_def by (intro run_intros)

lemma run_ReadFile [run_intros]: "run (ReadFile_steps mk fs path) = ReadFile mk fs path"
  unfolding ReadFile_steps_def ReadFile_def by (intro run_intros)

lemma run_ListDir [run_intros]: "run (ListDir_steps newDirEntry fs path) = ListDir newDirEntry fs path"
  unfolding ListDir_steps_def ListDir_def by (intro run_intros)

lemma ListDir_steady [steady_intros]: "steady (meta_valid fs) dv (ListDir_steps newDirEntry fs path)"
  unfolding ListDir_steps_def by (intro steady_intros)

lemma run_Stat [run_intros]: "run (Stat_steps newStat fs path) = Stat newStat fs path"
  unfolding Stat_steps_def Stat_def by (intro run_intros)

lemma Stat_steady [steady_intros]: "steady (meta_valid fs) dv (Stat_steps newStat fs path)"
  unfolding Stat_steps_def by (intro steady_intros)

lemma run_Xattrs [run_intros]: "run (Xattrs_steps fs path) = Xattrs fs path"
  unfolding Xattrs_steps_def Xattrs_def by (intro run_intros)

lemma Xattrs_steady [steady_intros]: "steady (meta_valid fs) dv (Xattrs_steps fs path)"
  unfolding Xattrs_steps_def by (intro steady_intros)

lemma run_ReadLink [run_intros]: "run (ReadLink_steps fs path) = ReadLink fs path"
  unfolding ReadLink_steps_def ReadLink_def by (intro run_intros)

lemma ReadLink_steady [steady_intros]: "steady (meta_valid fs) dv (ReadLink_steps fs path)"
  unfolding ReadLink_steps_def by (intro steady_intros)

lemma run_fs_OpenFile [run_intros]: "run (fs_OpenFile_steps fs path) = fs_OpenFile fs path"
  unfolding fs_OpenFile_steps_def fs_OpenFile_def by (intro run_intros)

lemma fs_OpenFile_steady [steady_intros]: "steady (meta_valid fs) dv (fs_OpenFile_steps fs path)"
  unfolding fs_OpenFile_steps_def by (intro steady_intros)

lemma run_mutate [run_intros]: "run (mutate_steps fs m) = mutate fs m"
  and mutate_steady [steady_intros]: "steady mv dv (mutate_steps fs m)"
  by (cases m; simp add: mutate_steps_def mutate_def run_intros steady_intros)+

lemma run_mapP [run_intros]: "run p = m \<Longrightarrow> run (mapP f p) = mapM f m"
  unfolding mapP_def mapM_def by (intro run_intros)

lemma mapP_steady [steady_intros]: "steady mv dv p \<Longrightarrow> steady mv dv (mapP f p)"
  unfolding mapP_def by (intro steady_intros)

lemma run_serve: "run (serve_steps mk fs q) = serve mk fs q"
  by (cases q) (simp_all add: serve_steps_def serve_def run_intros)

lemma ReadFileLimit_steady:
  assumes "path_sized w fs path"
  shows "steady (meta_valid fs) (data_valid fs w) (ReadFileLimit_steps mk fs path maxLen)"
  unfolding ReadFileLimit_steps_def
  by (intro steady_intros readFileLimit_steady) (use assms in \<open>simp add: path_sized_def run_resolve\<close>)

lemma serve_steady:
  assumes "request_ok w fs q"
  shows "steady (meta_valid fs) (data_valid fs w) (serve_steps mk fs q)"
  using assms
  by (cases q) (auto simp: serve_steps_def request_ok_def intro!: steady_intros ReadFileLimit_steady)

end
