(* ===== verification/Concurrency.thy ===== *)
theory Concurrency
  imports FileSteps ReaderProperties
begin

text \<open>
  Goroutines that call one opened file system at the same time. The package promises
  that this is safe (\<^verbatim>\<open>README.md\<close>, \<^verbatim>\<open>cache.go\<close>, \<^verbatim>\<open>openfile.go\<close>): here the answers are
  shown to be those of the calls made alone, the cache to keep its invariant and its
  bounds, and every schedule to end with all calls answered.
\<close>

section \<open>Calls\<close>

text \<open>A request, the opening of a file, or a read through an open file.\<close>

datatype call =
    CallReq request
  | CallOpen bytes
  | CallReadAt squashfsFile bytes int64

datatype answer =
    AnsReq "error + reply"
  | AnsOpen "error + squashfsFile"
  | AnsReadAt "nat \<times> error option \<times> bytes"

definition call_steps :: "makeBytesFn \<Rightarrow> FS \<Rightarrow> call \<Rightarrow> answer prog" where
  "call_steps mk fs q =
     (case q of
        CallReq r \<Rightarrow> seqP (serve_steps mk fs r) (\<lambda>a. Done (AnsReq a))
      | CallOpen path \<Rightarrow> seqP (fs_OpenFile_steps fs path) (\<lambda>a. Done (AnsOpen a))
      | CallReadAt f p off \<Rightarrow> seqP (file_ReadAt_steps f p off) (\<lambda>a. Done (AnsReadAt a)))"

text \<open>The same call on the sequential model.\<close>

definition call_seq :: "makeBytesFn \<Rightarrow> FS \<Rightarrow> call \<Rightarrow> cachePtr \<Rightarrow> answer \<times> cachePtr" where
  "call_seq mk fs q c =
     (case q of
        CallReq r \<Rightarrow> map_prod AnsReq id (serve mk fs r c)
      | CallOpen path \<Rightarrow> map_prod AnsOpen id (fs_OpenFile fs path c)
      | CallReadAt f p off \<Rightarrow> map_prod AnsReadAt id (file_ReadAt f p off c))"

text \<open>
  Calls for which the file system is consistent: those that read file contents agree
  with the one stored length per offset that \<open>w\<close> names.
\<close>

definition call_ok :: "(int64 \<Rightarrow> int64) \<Rightarrow> FS \<Rightarrow> call \<Rightarrow> bool" where
  "call_ok w fs q =
     (case q of
        CallReq r \<Rightarrow> request_ok w fs r
      | CallOpen path \<Rightarrow> True
      | CallReadAt f p off \<Rightarrow> f_closed f \<or> (\<exists>i. newFile fs i = Inr f \<and> file_sized w fs i))"

lemma run_call: "run (call_steps mk fs q) c = call_seq mk fs q c"
  by (cases q) (simp_all add: call_steps_def call_seq_def run_seqP run_serve run_fs_OpenFile run_file_ReadAt
      map_prod_def split: prod.split)

lemma call_steady:
  assumes "call_ok w fs q"
  shows "steady (meta_valid fs) (data_valid fs w) (call_steps mk fs q)"
proof (cases q)
  case (CallReadAt f p off)
  have "steady (meta_valid fs) (data_valid fs w) (file_ReadAt_steps f p off)"
  proof (cases "f_closed f")
    case False
    with assms CallReadAt show ?thesis by (auto simp: call_ok_def intro: file_ReadAt_steady)
  qed (simp add: file_ReadAt_steps_def)
  with CallReadAt show ?thesis by (auto simp: call_steps_def intro: steady_seqP)
qed (use assms in \<open>auto simp: call_steps_def call_ok_def intro!: steady_seqP serve_steady steady_intros\<close>)

lemma calls_steady:
  "list_all (call_ok w fs) qs \<Longrightarrow> list_all (steady (meta_valid fs) (data_valid fs w)) (map (call_steps mk fs) qs)"
  by (auto simp: list_all_iff intro: call_steady)

text \<open>The goroutines \<open>qs\<close> on a shared cache, each before its first step.\<close>

definition pool :: "makeBytesFn \<Rightarrow> FS \<Rightarrow> cachePtr \<Rightarrow> call list \<Rightarrow> answer machine" where
  "pool mk fs c qs = spawn c (map (call_steps mk fs) qs)"


section \<open>The answers\<close>

text \<open>
  C10: Goroutines do not disturb each other. If the calls agree on one stored length for
  each offset of a data block (every image of the writer has one, a crafted one need not)
  and the cache they start from holds only what the image has, then whatever the other
  goroutines do and however they are scheduled, a call that has returned has returned
  what it returns on a file system of its own without a cache.
\<close>

theorem goroutines_agree:
  assumes "coherent fs (data_coherent fs w) c" "list_all (call_ok w fs) qs"
    and "step\<^sup>*\<^sup>* (pool mk fs c qs) M" "i < length qs" "threads M ! i = Running (Done a)"
  shows "a = fst (call_seq mk fs (qs ! i) None)"
  using answer_steady [OF assms(3) [unfolded pool_def] contents_coherent [THEN iffD2, OF assms(1)]
      calls_steady [OF assms(2)] _ assms(5)] assms(4)
  by (simp add: run_call)

text \<open>Two readers of the two-block file of \<open>OpenedFile\<close>.\<close>

definition demoFile :: squashfsFile where
  "demoFile = projr (newFile demoFS demoInode)"

definition demoReads :: "call list" where
  "demoReads = [CallReadAt demoFile [0, 0, 0] 3, CallReadAt demoFile [0, 0] 0]"

lemma demoFile: "newFile demoFS demoInode = Inr demoFile"
proof -
  have "\<not> in_Size demoInode > maxFileBytes demoFS demoInode" by code_simp
  then show ?thesis by (simp add: demoFile_def newFile_def)
qed

lemma demoReads_ok: "list_all (call_ok (\<lambda>off. if off = 0 then 2 else 1) demoFS) demoReads"
  using demo_sized demoFile by (auto simp: demoReads_def call_ok_def)

theorem goroutines_agree_witness:
  "\<exists>M. step\<^sup>*\<^sup>* (pool (\<lambda>n m. Inr []) demoFS (Some newBlockCache) demoReads) M \<and>
     threads M ! 0 = Running (Done (AnsReadAt (3, None, [20, 30, 30])))"
proof -
  obtain M where M: "step\<^sup>*\<^sup>* (pool (\<lambda>n m. Inr []) demoFS (Some newBlockCache) demoReads) M" "all_done M"
    using mutex.completes [OF disciplined_spawn] by (metis pool_def)
  have "length (threads M) = 2" using threads_reachable [OF M(1)] by (simp add: pool_def spawn_def demoReads_def)
  with M(2) obtain a where a: "threads M ! 0 = Running (Done a)" using all_done_nth by fastforce
  from goroutines_agree [OF empty_cache_coherent demoReads_ok M(1) _ a]
  have "a = AnsReadAt (fst (file_ReadAt demoFile [0, 0, 0] 3 None))" by (simp add: demoReads_def call_seq_def)
  moreover have "fst (file_ReadAt demoFile [0, 0, 0] 3 None) = (3, None, [20, 30, 30])" by code_simp
  ultimately show ?thesis using M(1) a by auto
qed


section \<open>The schedule\<close>

text \<open>
  C11: Every schedule ends with all calls answered. No image, however corrupt, and no
  scheduler keeps goroutines busy for ever; no goroutine waits for ever for the mutex,
  because some goroutine can always step until all have returned.
\<close>

theorem goroutines_terminate:
  "(\<nexists>f. f 0 = pool mk fs c qs \<and> (\<forall>n. step (f n) (f (Suc n)))) \<and>
   (\<forall>M. step\<^sup>*\<^sup>* (pool mk fs c qs) M \<longrightarrow> (all_done M \<longleftrightarrow> (\<nexists>M'. step M M')) \<and> (\<exists>M'. step\<^sup>*\<^sup>* M M' \<and> all_done M'))"
proof (intro conjI allI impI)
  show "\<nexists>f. f 0 = pool mk fs c qs \<and> (\<forall>n. step (f n) (f (Suc n)))" using mutex.no_endless_run by blast
  fix M assume M: "step\<^sup>*\<^sup>* (pool mk fs c qs) M"
  then have d: "disciplined M" unfolding pool_def by (rule discipline.inv_reachable [OF _ disciplined_spawn])
  show "all_done M \<longleftrightarrow> (\<nexists>M'. step M M')" using all_done_stuck mutex.progress [OF d] by blast
  show "\<exists>M'. step\<^sup>*\<^sup>* M M' \<and> all_done M'" by (rule mutex.completes [OF d])
qed

theorem goroutines_terminate_witness:
  "\<exists>M. step\<^sup>*\<^sup>* (pool (\<lambda>n m. Inr []) demoFS (Some newBlockCache) [CallOpen [], CallReq (ReqStat [])]) M \<and> all_done M"
  using goroutines_terminate [of "\<lambda>n m. Inr []" demoFS "Some newBlockCache" "[CallOpen [], CallReq (ReqStat [])]"] by blast

text \<open>
  C12: The mutex does its work. In every state that any schedule reaches, at most the
  goroutine that holds the mutex is inside a critical section; whenever the mutex is
  free the cache is well formed, and it never holds more entries than its caps allow,
  not even between the statements of a put.
\<close>

theorem cache_exclusive:
  assumes "cache_wf c" "step\<^sup>*\<^sup>* (pool mk fs c qs) M"
  shows "(\<forall>i < length qs. in_section (threads M ! i) \<longleftrightarrow> mu M = Some i) \<and>
     (mu M = None \<longrightarrow> cache_wf (shared M)) \<and>
     metaEntries (shared M) \<le> metaLimit c \<and> dataEntries (shared M) \<le> dataLimit c"
proof -
  have k: "cache_kept M"
    by (rule kept.inv_reachable [OF assms(2) [unfolded pool_def] cache_kept_spawn [OF assms(1)]])
  have n: "length (threads M) = length qs" using threads_reachable [OF assms(2)] by (simp add: pool_def spawn_def)
  have l: "metaLimit (shared M) = metaLimit c" "dataLimit (shared M) = dataLimit c" "shared M \<noteq> None"
    using limits_reachable [OF assms(2)] assms(1) by (auto simp: pool_def spawn_def cache_wf_def)
  show ?thesis using k n l cache_kept_bound [OF k] by (auto simp: cache_kept_def disciplined_def)
qed

theorem cache_exclusive_witness:
  "\<exists>M. step\<^sup>*\<^sup>* (pool (\<lambda>n m. Inr []) demoFS (Some newBlockCache) [CallReq (ReqStat []), CallReq (ReqStat [])]) M \<and>
     mu M = Some 1 \<and> \<not> in_section (threads M ! 0) \<and> in_section (threads M ! 1)"
proof -
  let ?p = "call_steps (\<lambda>n m. Inr []) demoFS (CallReq (ReqStat []))"
  let ?P = "pool (\<lambda>n m. Inr []) demoFS (Some newBlockCache) [CallReq (ReqStat []), CallReq (ReqStat [])]"
  have "\<not> finished ?p"
    by (simp add: call_steps_def serve_steps_def mapP_def Stat_steps_def resolve_steps_def readInode_steps_def
        newMetaCursor_steps_def cur_load_steps_def readMetaBlockCached_steps_def bindP_def split_beta)
  then have "step ?P \<lparr>mu = Some 1, shared = Some newBlockCache, threads = [Running ?p, Running ?p][1 := Locked ?p]\<rparr>"
    unfolding pool_def spawn_def list.map by (intro step.lock) simp_all
  then obtain M where M: "step\<^sup>*\<^sup>* ?P M" "mu M = Some 1" using that [OF r_into_rtranclp] by simp
  from cache_exclusive [OF newBlockCache_wf M(1)] M show ?thesis by auto
qed

text \<open>
  The programs of the machine are the operations of the sequential model: however its
  steps around the mutex are taken, a call with no other goroutine beside it ends with the
  answer and the cache those compute.
\<close>

lemma alone_is_sequential:
  assumes "step\<^sup>*\<^sup>* (pool mk fs c [q]) M" "\<nexists>M'. step M M'"
  shows "threads M = [Running (Done (fst (call_seq mk fs q c)))] \<and> shared M = snd (call_seq mk fs q c)"
  using alone_result [OF _ assms(2)] assms(1) by (simp add: pool_def run_call)

end
