(* ===== verification/Bench.thy ===== *)
theory Bench
  imports TreeView
begin

text \<open>
  \<^verbatim>\<open>benchmarks/bench.go\<close>: the command that opens an image, walks it from the root and
  reads every file it meets, with the counts it prints; the clock and the printing
  are left out. A run that never returns is \<open>None\<close>. The walk follows symbolic links,
  so it need not end; the lemmas say what it comes to when no link leads to a directory,
  and that a link to its own directory keeps it going for ever.
\<close>

section \<open>Paths of the standard library\<close>

text \<open>
  \<^verbatim>\<open>path.Clean\<close> and \<^verbatim>\<open>path.Join\<close> of two elements. \<open>cleanParts\<close> keeps the elements
  written so far, the last one first.
\<close>

definition dotdot :: bytes where "dotdot = gostring ''..''"

fun cleanParts :: "bool \<Rightarrow> bytes list \<Rightarrow> bytes list \<Rightarrow> bytes list" where
  "cleanParts rooted out [] = rev out"
| "cleanParts rooted out (s # ss) =
     (if s = [] \<or> s = dot then cleanParts rooted out ss
      else if s = dotdot then
        (if out \<noteq> [] \<and> hd out \<noteq> dotdot then cleanParts rooted (tl out) ss
         else if \<not> rooted then cleanParts rooted (dotdot # out) ss
         else cleanParts rooted out ss)
      else cleanParts rooted (s # out) ss)"

fun joinSlash :: "bytes list \<Rightarrow> bytes" where
  "joinSlash [] = []"
| "joinSlash [s] = s"
| "joinSlash (s # ss) = s @ slash # joinSlash ss"

definition path_Clean :: "bytes \<Rightarrow> bytes" where
  "path_Clean p =
     (let rooted = take 1 p = [slash];
          parts = cleanParts rooted [] (splitSlash p)
      in if rooted then slash # joinSlash parts
         else if parts = [] then dot else joinSlash parts)"

definition path_Join :: "bytes \<Rightarrow> bytes \<Rightarrow> bytes" where
  "path_Join a b =
     (case filter (\<lambda>e. e \<noteq> []) [a, b] of [] \<Rightarrow> [] | es \<Rightarrow> path_Clean (joinSlash es))"


section \<open>The program\<close>

text \<open>
  The calls of \<^verbatim>\<open>fail\<close>, which prints its arguments and ends the process. The
  constructors and accessors of the interface package outside the repository are
  parameters; \<open>iface_ok\<close> is what their documentation says of them.
\<close>

datatype benchFailure =
    Usage
  | OpenFileFailed error
  | ListDirFailed bytes error
  | StatFailed bytes error
  | ReadFileFailed bytes error

record ('d, 'st) iface =
  if_NewDirEntry :: "u64 \<Rightarrow> bytes \<Rightarrow> byte \<Rightarrow> 'd"
  if_Name :: "'d \<Rightarrow> bytes"
  if_NewStat :: "u16 \<Rightarrow> u64 \<Rightarrow> u64 \<Rightarrow> 'st"
  if_Mode :: "'st \<Rightarrow> u16"

definition iface_ok :: "('d, 'st) iface \<Rightarrow> bool" where
  "iface_ok ifc \<longleftrightarrow>
     (\<forall>num name t. if_Name ifc (if_NewDirEntry ifc num name t) = name) \<and>
     (\<forall>mode sz num. if_Mode ifc (if_NewStat ifc mode sz num) = mode)"

text \<open>The variables \<^verbatim>\<open>files\<close> and \<^verbatim>\<open>bytesRead\<close>, and what a walk comes to.\<close>

type_synonym tally = "int64 \<times> int64"
type_synonym walkResult = "((benchFailure + tally) \<times> cachePtr) option"

text \<open>The second loop of \<^verbatim>\<open>walk\<close>, over the sorted names; \<open>rec\<close> is the recursive call.\<close>

primrec walkNames :: "('d, 'st) iface \<Rightarrow> makeBytesFn \<Rightarrow> FS \<Rightarrow> (bytes \<Rightarrow> tally \<Rightarrow> cachePtr \<Rightarrow> walkResult) \<Rightarrow>
    bytes \<Rightarrow> bytes list \<Rightarrow> tally \<Rightarrow> cachePtr \<Rightarrow> walkResult" where
  "walkNames ifc mk fs rec dir [] t c = Some (Inr t, c)"
| "walkNames ifc mk fs rec dir (n # names) t c =
     (let p = path_Join dir n in
      case Stat (if_NewStat ifc) fs p c of
        (Inl e, c1) \<Rightarrow> Some (Inl (StatFailed p e), c1)
      | (Inr st, c1) \<Rightarrow>
          if if_Mode ifc st AND 0xF000 = 0x4000 then
            Option.bind (rec p t c1) (\<lambda>(r, c2).
              case r of
                Inl f \<Rightarrow> Some (Inl f, c2)
              | Inr t' \<Rightarrow> walkNames ifc mk fs rec dir names t' c2)
          else if if_Mode ifc st AND 0xF000 = 0x8000 then
            (case ReadFile mk fs p c1 of
               (Inl e, c2) \<Rightarrow> Some (Inl (ReadFileFailed p e), c2)
             | (Inr data, c2) \<Rightarrow>
                 walkNames ifc mk fs rec dir names (fst t + 1, snd t + of_nat (length data)) c2)
          else walkNames ifc mk fs rec dir names t c1)"

lemma case_monos:
  "(\<And>a b. mono_option (\<lambda>f. B f a b)) \<Longrightarrow> mono_option (\<lambda>f. case x of (a, b) \<Rightarrow> B f a b)"
  "\<lbrakk>\<And>a. mono_option (\<lambda>f. L f a); \<And>a. mono_option (\<lambda>f. R f a)\<rbrakk>
    \<Longrightarrow> mono_option (\<lambda>f. case y of Inl a \<Rightarrow> L f a | Inr a \<Rightarrow> R f a)"
  by (cases x, simp) (cases y, simp_all)

lemma walkNames_mono [partial_function_mono]:
  assumes "\<And>p t c. mono_option (\<lambda>f. W f p t c)"
  shows "mono_option (\<lambda>f. walkNames ifc mk fs (W f) dir names t c)"
proof (induction names arbitrary: t c)
  case (Cons n names)
  show ?case
    unfolding walkNames.simps Let_def
    by (intro case_monos option.const_mono partial_function_mono assms Cons.IH)
qed (simp add: option.const_mono)

partial_function (option) walk :: "('d, 'st) iface \<Rightarrow> makeBytesFn \<Rightarrow> FS \<Rightarrow> bytes \<Rightarrow> tally \<Rightarrow> cachePtr \<Rightarrow> walkResult" where
  "walk ifc mk fs dir t c =
     (case ListDir (if_NewDirEntry ifc) fs dir c of
        (Inl e, c1) \<Rightarrow> Some (Inl (ListDirFailed dir e), c1)
      | (Inr entries, c1) \<Rightarrow>
          walkNames ifc mk fs (\<lambda>p t c. walk ifc mk fs p t c) dir
            (sort (filter (\<lambda>n. \<not> (n = dot \<or> n = dotdot)) (map (if_Name ifc) entries))) t c1)"

text \<open>
  \<^verbatim>\<open>main\<close>. The result says what is printed, or the call of \<^verbatim>\<open>fail\<close>, and whether the image's
  handle was closed: the deferred \<^verbatim>\<open>Close\<close> runs when \<^verbatim>\<open>main\<close> returns and not when \<^verbatim>\<open>fail\<close>
  ends the process. \<open>os_open\<close> is what \<^verbatim>\<open>os.Open\<close> gives for a path.
\<close>

definition bench_main :: "codecLibs \<Rightarrow> makeBytesFn \<Rightarrow> ('d, 'st) iface \<Rightarrow> (bytes \<Rightarrow> error + hostFile) \<Rightarrow> bytes list \<Rightarrow>
    ((benchFailure + tally) \<times> bool) option" where
  "bench_main libs mk ifc os_open args =
     (if length args \<noteq> 3 \<or> args ! 1 \<noteq> gostring ''read'' then Some (Inl Usage, False)
      else case OpenFile libs (os_open (args ! 2)) of
        (Inl e, closed) \<Rightarrow> Some (Inl (OpenFileFailed e), closed)
      | (Inr (fs, c), closed) \<Rightarrow>
          Option.bind (walk ifc mk fs [slash] (0, 0) c) (\<lambda>(r, c').
            Some (r, case r of Inl f \<Rightarrow> False | Inr t \<Rightarrow> True)))"


section \<open>Joined paths\<close>

text \<open>
  The path with given components as the walk writes it, and the names that
  \<^verbatim>\<open>path.Join\<close> keeps as they are.
\<close>

definition absPath :: "bytes list \<Rightarrow> bytes" where
  "absPath parts = (if parts = [] then [slash] else joinPath parts)"

definition walk_name :: "bytes \<Rightarrow> bool" where
  "walk_name s \<longleftrightarrow> component s \<and> s \<noteq> dotdot"

lemma walk_names: "list_all walk_name parts \<Longrightarrow> list_all component parts"
  by (auto simp: list_all_iff walk_name_def)

lemma joinSlash_joinPath: "parts \<noteq> [] \<Longrightarrow> slash # joinSlash parts = joinPath parts"
  by (induction parts rule: joinSlash.induct) (simp_all add: joinPath_def)

lemma cleanParts_splitPath: "cleanParts r out (splitSlash p) = cleanParts r out (splitPath p)"
proof -
  have "cleanParts r out (filter (\<lambda>s. \<not> (s = [] \<or> s = dot)) xs) = cleanParts r out xs" for xs
    by (induction xs arbitrary: out) auto
  then show ?thesis by (simp add: splitPath_def)
qed

lemma cleanParts_names: "list_all walk_name parts \<Longrightarrow> cleanParts r out parts = rev out @ parts"
  by (induction parts arbitrary: out) (auto simp: walk_name_def component_def)

lemma absPath_facts:
  assumes "list_all walk_name parts"
  shows "splitPath (absPath parts) = parts" "take 1 (absPath parts) = [slash]"
  using splitPath_joinPath [of parts] walk_names [OF assms]
  by (auto simp: absPath_def list_all_iff splitPath_def joinPath_def neq_Nil_conv)

lemma path_Join_names:
  assumes "list_all walk_name (parts @ [n])"
  shows "path_Join (absPath parts) n = absPath (parts @ [n])"
proof -
  from assms have n: "component n" "list_all walk_name parts" by (auto simp: walk_name_def)
  have "splitPath (absPath parts @ slash # n) = parts @ [n]"
    using n absPath_facts(1) [OF n(2)]
    by (simp add: splitPath_append) (simp add: splitPath_def component_def splitSlash_component)
  moreover have "take 1 (absPath parts @ slash # n) = [slash]" "absPath parts \<noteq> []"
    using absPath_facts(2) [OF n(2)] by (cases "absPath parts"; simp)+
  ultimately show ?thesis
    using n(1) by (simp add: path_Join_def path_Clean_def component_def cleanParts_splitPath
        cleanParts_names [OF assms] joinSlash_joinPath absPath_def)
qed

lemma lookup_absPath:
  assumes "list_all walk_name parts"
  shows "tree_lookup root (absPath parts) ff = tree_lookup root (joinPath parts) ff"
  using absPath_facts(1) [OF assms] splitPath_joinPath [of parts] walk_names [OF assms]
  by (simp add: tree_lookup_def treeResolve.simps list_all_iff)


section \<open>The calls of the walk on a file system that shows a tree\<close>

text \<open>A cache in use on an image of a tree.\<close>

definition serves :: "makeBytesFn \<Rightarrow> (int64 \<Rightarrow> int64) \<Rightarrow> FS \<Rightarrow> node \<Rightarrow> cachePtr \<Rightarrow> bool" where
  "serves mk W fs root c \<longleftrightarrow> fs_shows mk W fs root \<and> coherent fs (data_coherent fs W) c"

lemma serves_result:
  assumes "serves mk W fs root c" "transparent (coherent fs (data_coherent fs W)) None m"
  obtains c' where "m c = (fst (m None), c')" "serves mk W fs root c'"
  using assms transparentD(2,3) [OF assms(2), of c] by (metis prod.collapse serves_def)

lemma ListDir_serves:
  assumes c: "serves mk W fs root c" and i: "iface_ok ifc" and n: "tree_lookup root p True = Inr n" "kind n = sIFDIR"
  obtains es c' where "ListDir (if_NewDirEntry ifc) fs p c = (Inr es, c')" "serves mk W fs root c'"
    "map (if_Name ifc) es = map nd_name (sort_key nd_name (nd_children n))"
proof -
  let ?raw = "fst (ListDir (\<lambda>num name t. (num, name, t)) fs p None)"
  have "map_sum id (map (\<lambda>(num, name, t). (name, t))) ?raw = tree_ListDir root p"
    using c ListDir_natural [of "\<lambda>num name t. (name, t)" fs p None] ListDir_shown [of False mk W fs root p] by (simp add: serves_def)
  then obtain raw where raw: "?raw = Inr raw"
    "map (\<lambda>(num, name, t). (name, t)) raw =
      map (\<lambda>c. (nd_name c, ucast (dirEntryType (nd_mode c)))) (sort_key nd_name (nd_children n))"
    using n by (cases ?raw) (auto simp: tree_ListDir_def)
  obtain c' where c': "ListDir (if_NewDirEntry ifc) fs p c = (fst (ListDir (if_NewDirEntry ifc) fs p None), c')" "serves mk W fs root c'"
    by (rule serves_result [OF c ListDir_transparent])
  have "map (if_Name ifc) (map (\<lambda>(num, name, t). if_NewDirEntry ifc num name t) raw) = map nd_name (sort_key nd_name (nd_children n))"
    using arg_cong [OF raw(2), of "map fst"] i by (simp add: comp_def iface_ok_def split_def)
  with c' that show thesis unfolding ListDir_natural [of "if_NewDirEntry ifc"] raw(1) by auto
qed

lemma Stat_serves:
  assumes c: "serves mk W fs root c" and i: "iface_ok ifc"
  obtains (fail) e c' where "tree_lookup root p True = Inl e" "Stat (if_NewStat ifc) fs p c = (Inl e, c')" "serves mk W fs root c'"
  | (found) n st c' where "tree_lookup root p True = Inr n" "Stat (if_NewStat ifc) fs p c = (Inr st, c')" "serves mk W fs root c'"
      "if_Mode ifc st = nd_mode n"
proof -
  have fs: "fs_shows mk W fs root" using c by (simp add: serves_def)
  obtain c' where c': "Stat (if_NewStat ifc) fs p c = (fst (Stat (if_NewStat ifc) fs p None), c')" "serves mk W fs root c'"
    by (rule serves_result [OF c Stat_transparent])
  from fs show thesis
  proof (cases rule: resolve_shownE [where path = p and ff = True])
    case (fail e)
    with that(1) [of e c'] c' show thesis by (simp add: Stat_def)
  next
    case (found n j)
    with that(2) [of n _ c'] c' shown_kind(4) [OF found(3)] i show thesis by (simp add: Stat_def iface_ok_def)
  qed
qed

lemma ReadFile_serves:
  assumes c: "serves mk W fs root c"
  obtains c' where "ReadFile mk fs p c = (tree_ReadFileLimit root p DefaultMaxReadFile, c')" "serves mk W fs root c'"
proof -
  have fs: "fs_shows mk W fs root" using c by (simp add: serves_def)
  have "path_sized W fs p" using request_shown [OF fs, of "ReqReadFileLimit p 0"] by (simp add: request_ok_def)
  from serves_result [OF c ReadFileLimit_transparent [OF this, of mk DefaultMaxReadFile]] that show thesis
    by (metis ReadFile_def ReadFileLimit_shown [OF fs] fst_conv)
qed


section \<open>What the walk comes to\<close>

text \<open>
  The specification: the paths of the nodes below \<open>n\<close> that are not directories, in
  the order of the walk, and what a visit to each of them does to the counters.
\<close>

fun leaves :: "bytes list \<Rightarrow> node \<Rightarrow> bytes list list" where
  "leaves parts (Node name mode uid gid target data children ref num) =
     (if mode AND 0xF000 = sIFDIR
      then concat (map snd (sort_key fst (map (\<lambda>c. (nd_name c, leaves (parts @ [nd_name c]) c)) children)))
      else [parts])"

definition visit :: "node \<Rightarrow> bytes list \<Rightarrow> tally \<Rightarrow> benchFailure + tally" where
  "visit root parts t =
     (case tree_lookup root (joinPath parts) True of
        Inl e \<Rightarrow> Inl (StatFailed (joinPath parts) e)
      | Inr m \<Rightarrow>
          if kind m \<noteq> sIFREG then Inr t
          else case tree_ReadFileLimit root (joinPath parts) DefaultMaxReadFile of
            Inl e \<Rightarrow> Inl (ReadFileFailed (joinPath parts) e)
          | Inr data \<Rightarrow> Inr (fst t + 1, snd t + of_nat (length data)))"

fun visits :: "node \<Rightarrow> bytes list list \<Rightarrow> tally \<Rightarrow> benchFailure + tally" where
  "visits root [] t = Inr t"
| "visits root (p # ps) t = (case visit root p t of Inl f \<Rightarrow> Inl f | Inr t' \<Rightarrow> visits root ps t')"

text \<open>The names are ones \<^verbatim>\<open>path.Join\<close> keeps, and no link leads to a directory.\<close>

fun links_ok :: "node \<Rightarrow> bytes list \<Rightarrow> node \<Rightarrow> bool" where
  "links_ok root parts (Node name mode uid gid target data children ref num) =
     (if mode AND 0xF000 = sIFDIR
      then list_all (\<lambda>c. walk_name (nd_name c) \<and> links_ok root (parts @ [nd_name c]) c) children
      else case tree_lookup root (joinPath parts) True of Inl e \<Rightarrow> True | Inr m \<Rightarrow> kind m \<noteq> sIFDIR)"

lemma visits_append:
  "visits root (ps @ qs) t = (case visits root ps t of Inl f \<Rightarrow> Inl f | Inr t' \<Rightarrow> visits root qs t')"
  by (induction ps arbitrary: t) (auto split: sum.split)

lemma leaves_directory:
  assumes "kind n = sIFDIR"
  shows "leaves parts n = concat (map (\<lambda>c. leaves (parts @ [nd_name c]) c) (sort_key nd_name (nd_children n)))"
proof -
  have ins: "insort_key fst (k x, g x) (map (\<lambda>c. (k c, g c)) ys) = map (\<lambda>c. (k c, g c)) (insort_key k x ys)"
    for k :: "node \<Rightarrow> bytes" and g :: "node \<Rightarrow> bytes list list" and x ys
    by (induction ys) auto
  have "sort_key fst (map (\<lambda>c. (k c, g c)) cs) = map (\<lambda>c. (k c, g c)) (sort_key k cs)"
    for k :: "node \<Rightarrow> bytes" and g :: "node \<Rightarrow> bytes list list" and cs
    by (induction cs) (simp_all add: ins)
  with assms show ?thesis by (cases n) (simp add: comp_def)
qed

lemma leaf_facts:
  assumes "kind n \<noteq> sIFDIR"
  shows "leaves parts n = [parts]"
    "links_ok root parts n \<Longrightarrow> tree_lookup root (joinPath parts) True = Inr m \<Longrightarrow> kind m \<noteq> sIFDIR"
  using assms by (cases n; simp)+

text \<open>What the loop does at one name.\<close>

lemma walkNames_leaf:
  assumes i: "iface_ok ifc" and c: "serves mk W fs root cp" and ps: "list_all walk_name (parts @ [name])"
    and n: "\<And>m. tree_lookup root (joinPath (parts @ [name])) True = Inr m \<Longrightarrow> kind m \<noteq> sIFDIR"
  obtains c' where "serves mk W fs root c'"
    "walkNames ifc mk fs rec (absPath parts) (name # names) t cp =
       (case visit root (parts @ [name]) t of
          Inl f \<Rightarrow> Some (Inl f, c')
        | Inr t' \<Rightarrow> walkNames ifc mk fs rec (absPath parts) names t' c')"
proof -
  let ?p = "joinPath (parts @ [name])"
  have p: "path_Join (absPath parts) name = ?p" using path_Join_names [OF ps] by (simp add: absPath_def)
  from c i show thesis
  proof (cases rule: Stat_serves [where p = ?p])
    case (fail e c')
    with that [of c'] show thesis by (simp add: p visit_def)
  next
    case (found m st c1)
    obtain c2 where c2: "ReadFile mk fs ?p c1 = (tree_ReadFileLimit root ?p DefaultMaxReadFile, c2)" "serves mk W fs root c2"
      by (rule ReadFile_serves [OF found(3)])
    show thesis
    proof (cases "kind m = sIFREG")
      case True
      with found c2 n [OF found(1)] that [of c2] show thesis by (auto simp: p visit_def mode_defs split: sum.split)
    next
      case False
      with found n [OF found(1)] that [of c1] show thesis by (simp add: p visit_def mode_defs)
    qed
  qed
qed

lemma walkNames_directory:
  assumes i: "iface_ok ifc" and c: "serves mk W fs root cp" and ps: "list_all walk_name (parts @ [name])"
    and n: "tree_lookup root (joinPath (parts @ [name])) True = Inr m" "kind m = sIFDIR"
    and rec: "\<And>t cp. serves mk W fs root cp \<Longrightarrow> \<exists>cp'. rec (absPath (parts @ [name])) t cp = Some (res t, cp') \<and> serves mk W fs root cp'"
  obtains c' where "serves mk W fs root c'"
    "walkNames ifc mk fs rec (absPath parts) (name # names) t cp =
       (case res t of
          Inl f \<Rightarrow> Some (Inl f, c')
        | Inr t' \<Rightarrow> walkNames ifc mk fs rec (absPath parts) names t' c')"
proof -
  note p = path_Join_names [OF ps]
  from c i show thesis
  proof (cases rule: Stat_serves [where p = "absPath (parts @ [name])"])
    case (found m' st c1)
    from rec [OF found(3), of t] obtain c2 where "rec (absPath (parts @ [name])) t c1 = Some (res t, c2)" "serves mk W fs root c2" by blast
    with found n that [of c2] show thesis by (simp add: p lookup_absPath [OF ps] mode_defs split: sum.split)
  qed (use n in \<open>simp add: lookup_absPath [OF ps]\<close>)
qed

lemma walkNames_visits:
  assumes i: "iface_ok ifc" and p: "list_all walk_name parts"
  shows "\<lbrakk>serves mk W fs root cp; list_all (\<lambda>c. walk_name (nd_name c) \<and> links_ok root (parts @ [nd_name c]) c) cs;
     \<And>c t cp. \<lbrakk>c \<in> set cs; kind c = sIFDIR; serves mk W fs root cp\<rbrakk> \<Longrightarrow>
        tree_lookup root (joinPath (parts @ [nd_name c])) True = Inr c \<and>
        (\<exists>cp'. rec (absPath (parts @ [nd_name c])) t cp = Some (visits root (leaves (parts @ [nd_name c]) c) t, cp') \<and>
           serves mk W fs root cp')\<rbrakk>
    \<Longrightarrow> \<exists>cp'. walkNames ifc mk fs rec (absPath parts) (map nd_name cs) t cp =
         Some (visits root (concat (map (\<lambda>c. leaves (parts @ [nd_name c]) c) cs)) t, cp') \<and> serves mk W fs root cp'"
proof (induction cs arbitrary: t cp)
  case (Cons c cs)
  let ?ps = "parts @ [nd_name c]"
  have ps: "list_all walk_name ?ps" and l: "links_ok root ?ps c" using Cons.prems(2) p by simp_all
  note rest = Cons.IH [OF _ _ Cons.prems(3)]
  obtain c' where c': "serves mk W fs root c'"
    "walkNames ifc mk fs rec (absPath parts) (nd_name c # map nd_name cs) t cp =
       (case visits root (leaves ?ps c) t of
          Inl f \<Rightarrow> Some (Inl f, c')
        | Inr t' \<Rightarrow> walkNames ifc mk fs rec (absPath parts) (map nd_name cs) t' c')"
  proof (cases "kind c = sIFDIR")
    case True
    note sub = Cons.prems(3) [OF _ True]
    show thesis
      by (rule walkNames_directory [where res = "visits root (leaves ?ps c)", OF i Cons.prems(1) ps _ True _ that])
        (use sub Cons.prems(1) in auto)
  next
    case False
    have v: "visits root (leaves ?ps c) t = visit root ?ps t" by (simp add: leaf_facts(1) [OF False] split: sum.split)
    show thesis
      by (rule walkNames_leaf [OF i Cons.prems(1) ps leaf_facts(2) [OF False l]]) (use that v in auto)
  qed
  show ?case
  proof (cases "visits root (leaves ?ps c) t")
    case (Inr t')
    with c' rest [OF c'(1)] Cons.prems(2) show ?thesis by (simp add: visits_append del: walkNames.simps)
  qed (use c' in \<open>simp add: visits_append del: walkNames.simps\<close>)
qed simp

lemma descend_snoc:
  "\<lbrakk>descend root parts = Some n; kind n = sIFDIR; find (\<lambda>c. nd_name c = name) (nd_children n) = Some c\<rbrakk>
    \<Longrightarrow> descend root (parts @ [name]) = Some c"
  by (induction root parts rule: descend.induct) (auto split: if_splits option.splits)

text \<open>The names the walk sorts: those of the directory, whose listing is in order already.\<close>

lemma listed_names:
  assumes "list_all (\<lambda>c. walk_name (nd_name c)) cs"
  shows "sort (filter (\<lambda>n. \<not> (n = dot \<or> n = dotdot)) (map nd_name (sort_key nd_name cs))) = map nd_name (sort_key nd_name cs)"
proof -
  have "filter (\<lambda>n. \<not> (n = dot \<or> n = dotdot)) (map nd_name (sort_key nd_name cs)) = map nd_name (sort_key nd_name cs)"
    using assms by (auto simp: filter_id_conv list_all_iff walk_name_def component_def)
  then show ?thesis by (simp add: sort_key_id_if_sorted)
qed

lemma walk_visits:
  assumes i: "iface_ok ifc"
  shows "\<lbrakk>serves mk W fs root cp; descend root parts = Some n; kind n = sIFDIR; list_all walk_name parts;
     links_ok root parts n\<rbrakk>
    \<Longrightarrow> \<exists>cp'. walk ifc mk fs (absPath parts) t cp = Some (visits root (leaves parts n) t, cp') \<and> serves mk W fs root cp'"
proof (induction n arbitrary: parts t cp)
  case (Node name mode uid gid target data children ref num)
  let ?n = "Node name mode uid gid target data children ref num" and ?cs = "sort_key nd_name children"
  have look: "tree_lookup root (absPath parts) True = Inr ?n"
    using descend_lookup [OF Node.prems(2)] Node.prems(3) by (simp add: lookup_absPath Node.prems(4) walk_names)
  from Node.prems(3,5) have w: "list_all (\<lambda>c. walk_name (nd_name c) \<and> links_ok root (parts @ [nd_name c]) c) ?cs"
    and names: "list_all (\<lambda>c. walk_name (nd_name c)) children" by (auto simp: list_all_iff)
  obtain es c1 where es: "ListDir (if_NewDirEntry ifc) fs (absPath parts) cp = (Inr es, c1)" "serves mk W fs root c1"
    "map (if_Name ifc) es = map nd_name (sort_key nd_name (nd_children ?n))"
    by (rule ListDir_serves [OF Node.prems(1) i look Node.prems(3)])
  have dist: "distinct (map nd_name children)"
    using resolve_shown [of False mk W fs root "absPath parts" True] Node.prems(1,3) look
    by (auto simp: serves_def elim!: shown.cases)
  have sub: "tree_lookup root (joinPath (parts @ [nd_name c])) True = Inr c \<and>
      (\<exists>cp'. walk ifc mk fs (absPath (parts @ [nd_name c])) t cp = Some (visits root (leaves (parts @ [nd_name c]) c) t, cp') \<and>
         serves mk W fs root cp')"
    if c: "c \<in> set ?cs" "kind c = sIFDIR" "serves mk W fs root cp" for c t cp
  proof -
    have d: "descend root (parts @ [nd_name c]) = Some c"
      using descend_snoc [OF Node.prems(2,3)] find_distinct [OF dist] c(1) by simp
    have ps: "list_all walk_name (parts @ [nd_name c])" "links_ok root (parts @ [nd_name c]) c"
      using w c(1) Node.prems(4) by (auto simp: list_all_iff)
    show ?thesis
      using Node.IH [OF _ c(3) d c(2) ps] descend_lookup [OF d _ walk_names [OF ps(1)]] c(1,2) by simp
  qed
  from walkNames_visits [where rec = "walk ifc mk fs" and t = t, OF i Node.prems(4) es(2) w sub] es(1,3) show ?case
    unfolding walk.simps [of ifc mk fs "absPath parts"] leaves_directory [OF Node.prems(3)]
    by (simp add: listed_names [OF names, simplified])
qed

text \<open>When every path is readable: the number of paths and the bytes behind them.\<close>

definition contents_of :: "node \<Rightarrow> bytes list \<Rightarrow> bytes option" where
  "contents_of root parts =
     (case tree_ReadFileLimit root (joinPath parts) DefaultMaxReadFile of Inl e \<Rightarrow> None | Inr data \<Rightarrow> Some data)"

lemma visits_contents:
  "list_all (\<lambda>p. contents_of root p \<noteq> None) ps \<Longrightarrow>
     visits root ps t =
       Inr (fst t + of_nat (length ps), snd t + of_nat (sum_list (map (\<lambda>p. length (the (contents_of root p))) ps)))"
proof (induction ps arbitrary: t)
  case (Cons p ps)
  then obtain d where "tree_ReadFileLimit root (joinPath p) DefaultMaxReadFile = Inr d"
    by (auto simp: contents_of_def split: sum.splits)
  moreover from this obtain m where "tree_lookup root (joinPath p) True = Inr m" "kind m = sIFREG"
    by (auto simp: tree_ReadFileLimit_def bindE_eq_Inr split: if_splits)
  ultimately show ?case using Cons by (simp add: visit_def contents_of_def)
qed simp


section \<open>A walk that does not end\<close>

lemma link_here:
  assumes "kind root = sIFDIR" "find (\<lambda>c. nd_name c = name) (nd_children root) = Some l" "kind l = sIFLNK"
    "splitPath (nd_target l) = []"
  shows "treeWalk root root (replicate k name) True 0 = Inr root"
  using assms by (induction k) (simp_all add: treeWalk.simps treeResolve.simps)

lemma link_here_lookup:
  assumes "kind root = sIFDIR" "find (\<lambda>c. nd_name c = name) (nd_children root) = Some l" "kind l = sIFLNK"
    "splitPath (nd_target l) = []" "walk_name name"
  shows "tree_lookup root (absPath (replicate k name)) True = Inr root"
  using link_here [OF assms(1-4)] absPath_facts(1) [of "replicate k name"] assms(5)
  by (simp add: tree_lookup_def treeResolve.simps list_all_iff)

text \<open>One round in a directory whose only entry is a link to itself comes back to it.\<close>

lemma endless_round:
  assumes i: "iface_ok ifc" and c: "serves mk W fs root cp"
    and l: "kind root = sIFDIR" "nd_children root = [l]" "kind l = sIFLNK" "splitPath (nd_target l) = []" "walk_name (nd_name l)"
    and rec: "\<And>cp. serves mk W fs root cp \<Longrightarrow> rec (absPath (replicate (Suc k) (nd_name l))) t cp = None"
  shows "(case ListDir (if_NewDirEntry ifc) fs (absPath (replicate k (nd_name l))) cp of
        (Inl e, c1) \<Rightarrow> Some (Inl (ListDirFailed (absPath (replicate k (nd_name l))) e), c1)
      | (Inr entries, c1) \<Rightarrow>
          walkNames ifc mk fs rec (absPath (replicate k (nd_name l)))
            (sort (filter (\<lambda>n. \<not> (n = dot \<or> n = dotdot)) (map (if_Name ifc) entries))) t c1) = None"
proof -
  have look: "tree_lookup root (absPath (replicate k (nd_name l))) True = Inr root" for k
    by (rule link_here_lookup [of root "nd_name l" l]) (use l in simp_all)
  obtain es c1 where es: "ListDir (if_NewDirEntry ifc) fs (absPath (replicate k (nd_name l))) cp = (Inr es, c1)"
    "serves mk W fs root c1" "map (if_Name ifc) es = [nd_name l]"
    using ListDir_serves [OF c i look [of k] l(1)] l(2) by auto
  obtain st c2 where st: "Stat (if_NewStat ifc) fs (absPath (replicate (Suc k) (nd_name l))) c1 = (Inr st, c2)"
    "serves mk W fs root c2" "if_Mode ifc st = nd_mode root"
    by (rule Stat_serves [OF es(2) i, of "absPath (replicate (Suc k) (nd_name l))"]) (use look [of "Suc k"] in auto)
  have "path_Join (absPath (replicate k (nd_name l))) (nd_name l) = absPath (replicate (Suc k) (nd_name l))"
    using path_Join_names [of "replicate k (nd_name l)" "nd_name l"] l(5)
    by (simp add: list_all_iff replicate_append_same)
  then have "walkNames ifc mk fs rec (absPath (replicate k (nd_name l))) [nd_name l] t c1 = None"
    using st(1,3) l(1) rec [OF st(2)] by (simp add: mode_defs del: replicate_Suc)
  moreover have "sort (filter (\<lambda>n. \<not> (n = dot \<or> n = dotdot)) (map (if_Name ifc) es)) = [nd_name l]"
    using es(3) l(5) by (simp add: walk_name_def component_def)
  ultimately show ?thesis using es(1) by (simp del: walkNames.simps)
qed

lemma walk_endless:
  assumes i: "iface_ok ifc" and c: "serves mk W fs root cp"
    and l: "kind root = sIFDIR" "nd_children root = [l]" "kind l = sIFLNK" "splitPath (nd_target l) = []" "walk_name (nd_name l)"
  shows "walk ifc mk fs (absPath (replicate k (nd_name l))) t cp = None"
proof -
  have "walk ifc' mk' fs' dir t cp = Some y \<Longrightarrow>
     \<not> (ifc' = ifc \<and> mk' = mk \<and> fs' = fs \<and> serves mk W fs root cp \<and> (\<exists>k. dir = absPath (replicate k (nd_name l))))"
    for ifc' mk' fs' dir t cp y
  proof (induction rule: walk.raw_induct [rotated, consumes 1, case_names step])
    case (step rec ifc' mk' fs' dir t cp y)
    have rec: "rec ifc mk fs (absPath (replicate k (nd_name l))) t cp = None" if "serves mk W fs root cp" for k t cp
      using step.IH [of ifc mk fs _ t cp] that by (cases "rec ifc mk fs (absPath (replicate k (nd_name l))) t cp") auto
    show ?case
    proof safe
      fix k assume e: "ifc' = ifc" "mk' = mk" "fs' = fs" "dir = absPath (replicate k (nd_name l))" and s: "serves mk W fs root cp"
      from endless_round [where rec = "rec ifc mk fs" and k = k and t = t, OF i s l rec] step(2) [unfolded e] show False by simp
    qed
  qed
  then show ?thesis using c by (metis option.exhaust)
qed

end
