(* ===== verification/Spec2Isabelle.thy ===== *)
theory Spec2Isabelle
  imports WriterProperties Concurrency Bench
begin

text \<open>
  A model of the Go package \<^verbatim>\<open>squashfs\<close>: a reader and a writer for SquashFS 4.0 images,
  translated file by file, with the theorems that make it correct.

  \<^bold>\<open>The program.\<close> A client opens an image (\<^verbatim>\<open>fs.go\<close>, \<^verbatim>\<open>openreader.go\<close>): the superblock is
  read and checked (\<^verbatim>\<open>superblock.go\<close>) and a decompressor chosen (\<^verbatim>\<open>decompress.go\<close>). A
  request resolves a path (\<^verbatim>\<open>path.go\<close>) over directory listings (\<^verbatim>\<open>dir.go\<close>) and inodes
  (\<^verbatim>\<open>inode.go\<close>), which are records in chains of metadata blocks read through a cursor
  (\<^verbatim>\<open>metadata.go\<close>); file contents come from data blocks and shared fragment blocks
  (\<^verbatim>\<open>data.go\<close>), whole or at random offsets (\<^verbatim>\<open>openfile.go\<close>); attributes have tables of
  their own (\<^verbatim>\<open>xattr.go\<close>). Decoded blocks are kept in a bounded cache (\<^verbatim>\<open>cache.go\<close>). The
  writer (\<^verbatim>\<open>write.go\<close>, \<^verbatim>\<open>compress.go\<close>) scans a host directory into a tree and emits it.
  A command (\<^verbatim>\<open>benchmarks/bench.go\<close>) walks an image and reads every file.

  Goroutines may call one opened file system at the same time; the cache's mutex is
  all the synchronisation there is.

  \<^bold>\<open>State and effects.\<close> The only state an opened file system changes is its cache. The
  operations are functions of type \<open>(cachePtr, 'a) eff\<close>, from a cache (\<open>None\<close> where
  the code has a nil pointer) to an error or result and the cache after; the monad
  is in \<open>SquashPrelude\<close>. Errors are values of the datatype \<open>error\<close>; \<open>Wrapped\<close> stands for
  the code's \<^verbatim>\<open>%w\<close> wrapping, message texts are left out. Machine integers are words of
  their width. A reader is a function from offset and length to bytes and error.

  \<^bold>\<open>Theories of the model\<close>, one for each file or group of files under \<^verbatim>\<open>src/\<close>:
  \<^item> \<open>SquashPrelude\<close>: errors (\<^verbatim>\<open>errors.go\<close>), readers, the effect monad, the notion of an
    operation that a cache does not change (\<open>transparent\<close>), shared lemmas.
  \<^item> \<open>LittleEndian\<close>: the byte order functions of the standard library and their laws.
  \<^item> \<open>Superblock\<close>: \<^verbatim>\<open>superblock.go\<close>. \<open>BlockCache\<close>: \<^verbatim>\<open>cache.go\<close>, with the locale of a bounded
    first-in-first-out store, interpreted for both halves of the cache.
  \<^item> \<open>Codec\<close>: \<^verbatim>\<open>decompress.go\<close> and \<^verbatim>\<open>compress.go\<close> around the compression libraries, which are
    the parameter \<open>codecLibs\<close>; \<open>codec_libs_ok\<close> states what their documentation
    promises (decoding undoes encoding; an xz encoder writes the layout of the format) and
    \<open>DemoCodec\<close> is a concrete instance. A block decoder that fills a buffer returns the
    bytes it wrote and a count, and the code's slice of the buffer is modelled with its bound.
  \<^item> \<open>Metadata\<close>, \<open>Inode\<close>, \<open>Dir\<close>, \<open>PathResolve\<close>, \<open>DataBlocks\<close>, \<open>OpenedFile\<close>, \<open>Xattr\<close>: the files
    of the same names. \<open>FsApi\<close>: \<^verbatim>\<open>fs.go\<close>, \<^verbatim>\<open>openreader.go\<close>, and the locale of a server over a
    cache, interpreted for the operations of the file system.
  \<^item> \<open>ImageWriter\<close>: \<^verbatim>\<open>write.go\<close>. What the host's file calls return is an argument
    (\<open>hostNode\<close>, and the function \<open>writeFile\<close>). The emitters return an error or a result, as
    the code's do, and \<open>emit_total\<close> shows that none is ever returned. The two loops over
    directory entries in \<^verbatim>\<open>scanDir\<close> and \<^verbatim>\<open>scanEntry\<close> are one function, \<open>scanEntries\<close>.
  \<^item> \<open>Bench\<close>: \<^verbatim>\<open>benchmarks/bench.go\<close> with the standard library's \<^verbatim>\<open>path.Join\<close>, and what its walk
    counts on an image of a tree. The constructors and accessors of the interface package
    are its parameter (\<open>iface\<close>, with \<open>iface_ok\<close> for what they promise).

  \<^bold>\<open>Concurrency.\<close> \<open>Goroutines\<close> has programs over the cache, trees of lookups and stores;
  \<open>Scheduler\<close> the machine that interleaves them at the mutex, a step relation in which
  \<^verbatim>\<open>Lock\<close>, \<^verbatim>\<open>Unlock\<close>, a lookup and each half of a put are steps of their own, with
  locales for invariants and termination. \<open>ReaderSteps\<close> and \<open>FileSteps\<close> are the reader
  once more as such programs (\<open>readInode_steps\<close> for \<open>readInode\<close> and so on): run alone each is
  the operation of the sequential model (\<open>alone_is_sequential\<close>), and goroutines that store only what the image
  holds cannot change its result (\<open>steady\<close>).

  \<^bold>\<open>Theories of proofs.\<close> \<open>MetaStream\<close>, \<open>ImageReadback\<close>, \<open>InodeReadback\<close> and \<open>FileReadback\<close> show
  that each table, listing, inode and data block the writer makes is decoded to what
  was written. \<open>TreeEmission\<close> follows the writer through a tree with ghost logs of
  everything written; \<open>ImageRoundTrip\<close> puts the finished image under the reader;
  \<open>ImageSize\<close> bounds its length; \<open>ImageHeader\<close> holds the invariants of emission, with
  the locale of a relation the inode emitters keep; \<open>InodeSpacing\<close> shows that inodes in
  one metadata block have close numbers, on which directory listings rely.
  \<open>TreeView\<close> is the abstract specification: what each request means on a tree of
  named nodes, with no inodes, blocks or caches (\<open>tree_serve\<close>), and the proof that a
  file system whose inodes show a tree answers like it. With inode numbers in the nodes the
  answers are complete but for the sizes of directories (\<open>tree_reply\<close>, \<open>forget_size\<close>);
  \<open>numbered\<close> in \<open>ImageRoundTrip\<close> gives the numbers an image has, which depend on the tree alone.

  \<^bold>\<open>Theorems.\<close> \<open>OpenedFile\<close> and \<open>ReaderProperties\<close> state those of the reader, for arbitrary,
  also corrupt, images: bounds, types, errors, the invisibility of the cache.
  \<open>Concurrency\<close> states those of goroutines: their answers, mutual exclusion and the cache's
  bounds, the end of every schedule. \<open>WriterProperties\<close> and \<open>ImageHeader\<close> state those of the
  writer; this theory those of all together, the refinement of the tree first, and those
  of the benchmark program on a built image.

  \<^bold>\<open>Bounds.\<close> No fuel is used: every loop of the reader is a total function, because each
  step consumes input or a hop, and so is every loop of the writer. The walk of the
  benchmark program is a partial function, which has no value where the walk does not end:
  the last section says when it ends, and that it need not. Schedules have no
  bound either; that they end is proved by a well-founded order on pools of goroutines. \<open>fits\<close> names the
  trees that are sure to have room in the format: at most 64 KiB of listing in a directory,
  counted as if each entry had a header of its own (entries share them, so a somewhat
  larger directory may be held too), distinct names of 1 to 256 bytes, link targets within one metadata block, contents below 4 GiB, an image
  below 4 GiB. Outside these bounds the writer truncates fields without an error;
  \<open>WriterProperties\<close> proves the exact limit for directories. Two size words for one
  offset in a crafted image make the data cache visible, which \<open>ReaderProperties\<close>
  shows; images of the writer have one (the map \<open>W\<close> of \<open>fs_shows\<close>).

  \<^bold>\<open>Not modelled.\<close> Message texts; interleaving inside one half of a put, where mutual
  exclusion leaves a goroutine alone with the cache; the atomic flag of an open file as a
  step of its own (a read takes the flag's value as an argument); the compression libraries (the standard library's
  deflate encoder among them), \<^verbatim>\<open>safeio.MakeBytes\<close>, the
  constructors of the interface package and the host's file system, which are
  parameters; the clock and the output of the benchmark program; tests.
\<close>

section \<open>Requests on an opened image\<close>

text \<open>The cache after a sequence of requests.\<close>

definition after_requests :: "makeBytesFn \<Rightarrow> FS \<Rightarrow> request list \<Rightarrow> cachePtr \<Rightarrow> cachePtr" where
  "after_requests mk fs qs c = fold (\<lambda>q c. snd (serve mk fs q c)) qs c"

text \<open>A tree the format can hold, and whose image has 32-bit offsets.\<close>

definition fits :: "node \<Rightarrow> bool" where
  "fits root \<longleftrightarrow> tree_ok root \<and> tree_bytes root \<le> 2 ^ 32 - 2 ^ 21"

lemma image_shows:
  assumes "buildImage libs root opts = Inr img" "codec_libs_ok libs" "makeBytes_ok mk" "fits root"
  obtains fs W where "Open libs (bytesReader img) closer (of_nat (length img)) = Inr (fs, Some newBlockCache)"
    "fs_shows mk W fs root"
  using buildImage_shows [OF assms(1,2,3)] buildImage_small [OF assms(1)] assms(4) by (metis fits_def)

lemma image_numbered:
  assumes "buildImage libs root opts = Inr img" "codec_libs_ok libs" "makeBytes_ok mk" "fits root"
  obtains fs W root' where "Open libs (bytesReader img) closer (of_nat (length img)) = Inr (fs, Some newBlockCache)"
    "tree_shown True mk W fs root'" "unref root' = fst (numbered 0 root)"
  using buildImage_shows [OF assms(1,2,3)] buildImage_small [OF assms(1)] assms(4) by (metis fits_def)

lemma after_requests_coherent:
  assumes "tree_shown nb mk W fs root"
  shows "coherent fs (data_coherent fs W) (after_requests mk fs qs (Some newBlockCache))"
  unfolding after_requests_def
  by (rule fsServer.history_inv [OF _ empty_cache_coherent]) (use request_shown [OF assms] in \<open>simp add: list_all_iff\<close>)

lemma reply_after:
  assumes "tree_shown True mk W fs root"
  shows "map_sum id forget_size (fst (serve mk fs q (after_requests mk fs qs (Some newBlockCache)))) = tree_reply root q"
  unfolding fsServer.serve_invisible [OF request_shown [OF assms] after_requests_coherent [OF assms]]
  by (rule reply_shown [OF assms])

lemma served_after:
  assumes "fs_shows mk W fs root"
  shows "map_sum id forget (fst (serve mk fs q (after_requests mk fs qs (Some newBlockCache)))) = tree_serve root q"
  unfolding after_requests_def by (rule history_shown [OF assms])

lemma read_after:
  assumes "fs_shows mk W fs root"
  shows "fst (ReadFileLimit mk fs path maxLen (after_requests mk fs qs (Some newBlockCache))) =
     tree_ReadFileLimit root path maxLen"
proof -
  have "path_sized W fs path"
    using request_shown [OF assms, of "ReqReadFileLimit path 0"] by (simp add: request_ok_def)
  from transparentD(2) [OF ReadFileLimit_transparent [OF this, of mk maxLen] after_requests_coherent [OF assms]]
  show ?thesis by (simp add: ReadFileLimit_shown [OF assms])
qed

text \<open>
  C1: A built image serves its tree. The image the writer makes of a tree that
  fits the format, with any supported encoder and any options, is opened by the
  reader, and the opened file system answers every request, after any history of
  requests, as the tree itself: the same contents, listings, modes, sizes, link
  targets and errors. Only inode numbers and the sizes of directories, which the
  tree does not have, are left out of the comparison.
\<close>

theorem image_serves_tree:
  assumes "buildImage libs root opts = Inr img" "codec_libs_ok libs" "makeBytes_ok mk" "fits root"
  shows "\<exists>fs. Open libs (bytesReader img) closer (of_nat (length img)) = Inr (fs, Some newBlockCache) \<and>
     (\<forall>qs q. map_sum id forget (fst (serve mk fs q (after_requests mk fs qs (Some newBlockCache)))) = tree_serve root q)"
proof -
  obtain fs W where fs: "Open libs (bytesReader img) closer (of_nat (length img)) = Inr (fs, Some newBlockCache)"
    "fs_shows mk W fs root"
    by (rule image_shows [OF assms])
  then show ?thesis using served_after [OF fs(2)] by blast
qed

text \<open>A directory with a link and a file, and the options of the default encoder.\<close>

definition demoRoot :: node where
  "demoRoot = Node [] 0x41ED 0 0 [] []
     [Node (gostring ''l'') 0xA1FF 0 0 (gostring ''a'') [] [] 0 0,
      Node (gostring ''a'') 0x81A4 0 0 [] [7, 8, 9] [] 0 0,
      Node (gostring ''o'') 0xA1FF 0 0 (gostring ''./o'') [] [] 0 0] 0 0"

definition demoOpts :: BuildOptions where
  "demoOpts = \<lparr>bo_Uncompressed = False, bo_Compressor = 0, bo_NoFragments = False\<rparr>"

abbreviation demoMake :: makeBytesFn where
  "demoMake \<equiv> \<lambda>n m. Inr []"

lemma demoMake_ok: "makeBytes_ok demoMake"
  by (simp add: makeBytes_ok_def)

lemma demoRoot_fits: "fits demoRoot"
  by (simp add: fits_def demoRoot_def gostring_def name_ok_def mode_defs metaBlockMax_def defaultBlockSize_def)

lemma demo_build: obtains img where "buildImage demoLibs root demoOpts = Inr img"
  by (rule buildImage_ok [of demoOpts demoLibs root]) (simp add: demoOpts_def)

theorem image_serves_tree_witness:
  "\<exists>img fs. buildImage demoLibs demoRoot demoOpts = Inr img \<and>
     Open demoLibs (bytesReader img) None (of_nat (length img)) = Inr (fs, Some newBlockCache) \<and>
     map_sum id forget (fst (serve demoMake fs (ReqReadFileLimit (gostring ''/l'') 10) (Some newBlockCache))) = Inr (RepBytes [7, 8, 9])"
proof -
  obtain img where img: "buildImage demoLibs demoRoot demoOpts = Inr img" by (rule demo_build)
  from image_serves_tree [OF img demoLibs_ok demoMake_ok demoRoot_fits, of None] obtain fs where
    fs: "Open demoLibs (bytesReader img) None (of_nat (length img)) = Inr (fs, Some newBlockCache)"
    and s: "\<And>qs q. map_sum id forget (fst (serve demoMake fs q (after_requests demoMake fs qs (Some newBlockCache)))) =
      tree_serve demoRoot q" by blast
  have "tree_serve demoRoot (ReqReadFileLimit (gostring ''/l'') 10) = Inr (RepBytes [7, 8, 9])" by code_simp
  with s [where qs = "[]"] have "map_sum id forget (fst (serve demoMake fs (ReqReadFileLimit (gostring ''/l'') 10) (Some newBlockCache))) =
      Inr (RepBytes [7, 8, 9])" by (simp add: after_requests_def)
  with img fs show ?thesis by blast
qed


text \<open>
  C5: The options of the writer are invisible. Two images of one tree that fits the
  format, built with any two sets of options (compressed or not, whichever encoder, with
  or without fragments), answer every request alike, each after its own history: the same
  contents, listings, inode numbers, modes, sizes, link targets and errors, the numbers
  counting the nodes with children before their directory. One thing is left out of
  the comparison: the size \<^verbatim>\<open>Stat\<close> reports for a directory. It is the length of the
  encoded listing, which has a header for each metadata block its inodes lie in, and
  inodes of files in fragments are shorter.
\<close>

theorem options_invisible:
  assumes "buildImage libs root opts = Inr img" "buildImage libs' root opts' = Inr img'"
    and "codec_libs_ok libs" "codec_libs_ok libs'" "makeBytes_ok mk" "fits root"
  shows "\<exists>fs fs'. Open libs (bytesReader img) closer (of_nat (length img)) = Inr (fs, Some newBlockCache) \<and>
     Open libs' (bytesReader img') closer (of_nat (length img')) = Inr (fs', Some newBlockCache) \<and>
     (\<forall>qs qs' q.
        map_sum id forget_size (fst (serve mk fs q (after_requests mk fs qs (Some newBlockCache)))) =
          tree_reply (fst (numbered 0 root)) q \<and>
        map_sum id forget_size (fst (serve mk fs' q (after_requests mk fs' qs' (Some newBlockCache)))) =
          tree_reply (fst (numbered 0 root)) q)"
proof -
  obtain fs W r where fs: "Open libs (bytesReader img) closer (of_nat (length img)) = Inr (fs, Some newBlockCache)"
    "tree_shown True mk W fs r" "unref r = fst (numbered 0 root)"
    by (rule image_numbered [OF assms(1,3,5,6)])
  obtain fs' W' r' where fs': "Open libs' (bytesReader img') closer (of_nat (length img')) = Inr (fs', Some newBlockCache)"
    "tree_shown True mk W' fs' r'" "unref r' = fst (numbered 0 root)"
    by (rule image_numbered [OF assms(2,4,5,6)])
  have "tree_reply r q = tree_reply (fst (numbered 0 root)) q" "tree_reply r' q = tree_reply (fst (numbered 0 root)) q" for q
    using reply_unref [of r] reply_unref [of r'] fs(3) fs'(3) by simp_all
  with fs(1) fs'(1) show ?thesis
    by (intro exI [of _ fs] exI [of _ fs']) (simp add: reply_after [OF fs(2)] reply_after [OF fs'(2)])
qed

definition rawOpts :: BuildOptions where
  "rawOpts = \<lparr>bo_Uncompressed = True, bo_Compressor = 0, bo_NoFragments = True\<rparr>"

lemma raw_build: obtains img where "buildImage demoLibs demoRoot rawOpts = Inr img"
  by (rule buildImage_ok [of rawOpts demoLibs demoRoot]) (simp add: rawOpts_def)

theorem options_invisible_witness:
  "\<exists>img img' fs fs'. buildImage demoLibs demoRoot demoOpts = Inr img \<and> buildImage demoLibs demoRoot rawOpts = Inr img' \<and>
     Open demoLibs (bytesReader img) None (of_nat (length img)) = Inr (fs, Some newBlockCache) \<and>
     Open demoLibs (bytesReader img') None (of_nat (length img')) = Inr (fs', Some newBlockCache) \<and>
     map_sum id forget_size (fst (serve demoMake fs (ReqStat (gostring ''/a'')) (Some newBlockCache))) = Inr (RepStat (0x81A4, 3, 2)) \<and>
     map_sum id forget_size (fst (serve demoMake fs' (ReqStat (gostring ''/a'')) (Some newBlockCache))) = Inr (RepStat (0x81A4, 3, 2))"
proof -
  obtain img img' where b: "buildImage demoLibs demoRoot demoOpts = Inr img" "buildImage demoLibs demoRoot rawOpts = Inr img'"
    by (metis demo_build raw_build)
  from options_invisible [OF b demoLibs_ok demoLibs_ok demoMake_ok demoRoot_fits, of None] obtain fs fs' where
    o: "Open demoLibs (bytesReader img) None (of_nat (length img)) = Inr (fs, Some newBlockCache)"
      "Open demoLibs (bytesReader img') None (of_nat (length img')) = Inr (fs', Some newBlockCache)"
    and s: "\<And>qs qs' q. map_sum id forget_size (fst (serve demoMake fs q (after_requests demoMake fs qs (Some newBlockCache)))) =
          tree_reply (fst (numbered 0 demoRoot)) q \<and>
        map_sum id forget_size (fst (serve demoMake fs' q (after_requests demoMake fs' qs' (Some newBlockCache)))) =
          tree_reply (fst (numbered 0 demoRoot)) q" by blast
  have "tree_reply (fst (numbered 0 demoRoot)) (ReqStat (gostring ''/a'')) = Inr (RepStat (0x81A4, 3, 2))" by code_simp
  with s [where qs = "[]" and qs' = "[]" and q = "ReqStat (gostring ''/a'')"] b o show ?thesis
    by (auto simp: after_requests_def)
qed


section \<open>Paths without links\<close>

lemma tree_ok_child: "\<lbrakk>tree_ok n; kind n = sIFDIR; find P (nd_children n) = Some c\<rbrakk> \<Longrightarrow> tree_ok c"
  by (cases n) (auto simp: find_Some_iff)

lemma treeWalk_ok:
  "\<lbrakk>treeResolve root start path ff hops = Inr n; tree_ok root; tree_ok start\<rbrakk> \<Longrightarrow> tree_ok n"
  "\<lbrakk>treeWalk root cur parts ff hops = Inr n; tree_ok root; tree_ok cur\<rbrakk> \<Longrightarrow> tree_ok n"
proof (induction root start path ff hops and root cur parts ff hops arbitrary: n and n rule: treeResolve_treeWalk.induct)
  case (1 root start path followFinal hops)
  then show ?case by (auto simp: treeResolve.simps split: if_splits)
next
  case (2 root cur followFinal hops)
  then show ?case by (simp add: treeWalk.simps)
next
  case (3 root cur name rest followFinal hops)
  from "3.prems"(1) obtain child where c: "kind cur = sIFDIR"
    "find (\<lambda>c. nd_name c = name) (nd_children cur) = Some child"
    by (auto simp: treeWalk.simps split: if_splits option.splits)
  have "tree_ok child" using tree_ok_child [OF _ c] "3.prems" by blast
  with "3.prems" "3.IH" c show ?case
    by (auto simp: treeWalk.simps bindE_eq_Inr split: if_splits)
qed

lemma lookup_ok: "\<lbrakk>tree_lookup root path ff = Inr n; tree_ok root\<rbrakk> \<Longrightarrow> tree_ok n"
  unfolding tree_lookup_def by (rule treeWalk_ok(1))

text \<open>What \<^verbatim>\<open>ReadFileLimit\<close> and \<^verbatim>\<open>ReadFile\<close> return for a file at the end of a path of directories.\<close>

lemma read_file_after:
  assumes fs: "fs_shows mk W fs root" "tree_ok root"
    and n: "descend root parts = Some n" "kind n = sIFREG" "list_all component parts"
  shows "fst (ReadFileLimit mk fs (joinPath parts) maxLen (after_requests mk fs qs (Some newBlockCache))) =
      (if 0 \<le>s maxLen \<and> maxLen < of_nat (length (nd_data n)) then Inl (Wrapped ErrTooLarge) else Inr (nd_data n))"
    and "fst (ReadFile mk fs (joinPath parts) (after_requests mk fs qs (Some newBlockCache))) =
      (if length (nd_data n) \<le> 2 ^ 30 then Inr (nd_data n) else Inl (Wrapped ErrTooLarge))"
proof -
  have look: "tree_lookup root (joinPath parts) True = Inr n" using descend_lookup n by simp
  then show lim: "fst (ReadFileLimit mk fs (joinPath parts) maxLen (after_requests mk fs qs (Some newBlockCache))) =
      (if 0 \<le>s maxLen \<and> maxLen < of_nat (length (nd_data n)) then Inl (Wrapped ErrTooLarge) else Inr (nd_data n))" for maxLen
    using n(2) by (simp add: read_after [OF fs(1)] tree_ReadFileLimit_def)
  have "length (nd_data n) < 2 ^ 32" using lookup_ok [OF look fs(2)] n(2) by (cases n) auto
  then have "0 \<le>s DefaultMaxReadFile \<and> DefaultMaxReadFile < of_nat (length (nd_data n)) \<longleftrightarrow> \<not> length (nd_data n) \<le> 2 ^ 30"
    by (auto simp: DefaultMaxReadFile_def word_less_nat_alt unat_of_nat word_sle_eq)
  then show "fst (ReadFile mk fs (joinPath parts) (after_requests mk fs qs (Some newBlockCache))) =
      (if length (nd_data n) \<le> 2 ^ 30 then Inr (nd_data n) else Inl (Wrapped ErrTooLarge))"
    unfolding ReadFile_def lim by simp
qed


section \<open>Random access\<close>

text \<open>What a read through an open file of the node \<open>n\<close> returns.\<close>

definition tree_read :: "node \<Rightarrow> bytes \<Rightarrow> int64 \<Rightarrow> nat \<times> error option \<times> bytes" where
  "tree_read n p off =
     (let bytes = take (length p) (drop (unat off) (nd_data n)) in
      (length bytes,
       if unat off < length (nd_data n) \<and> unat off + length p \<le> length (nd_data n) then None else Some EOF,
       bytes @ drop (length bytes) p))"

text \<open>A path to a file opens, with any coherent cache, and the handle reads the file.\<close>

lemma open_shown:
  assumes fs: "fs_shows mk W fs root" "fits root" and n: "tree_lookup root path True = Inr n" "kind n = sIFREG"
  obtains i f where "newFile fs i = Inr f" "file_sized W fs i"
    "\<And>c. coherent fs (data_coherent fs W) c \<Longrightarrow>
       \<exists>c'. fs_OpenFile fs path c = (Inr f, c') \<and> coherent fs (data_coherent fs W) c'"
    "\<And>p off c. \<lbrakk>coherent fs (data_coherent fs W) c; 0 \<le>s off\<rbrakk> \<Longrightarrow> fst (file_ReadAt f p off c) = tree_read n p off"
proof -
  obtain i where i: "resolve fs path True None = (Inr i, None)" "shown False mk W fs n i"
    using resolve_shown [OF fs(1), of path True] n(1) by auto
  from i(2) n(2) have r: "isRegular i" "in_Size i = of_nat (length (nd_data n))" "file_sized W fs i"
    "readFileLimit mk fs i (-1) None = (Inr (nd_data n), None)" by (auto elim!: shown.cases)
  note cont = readFileLimit_content [OF r(4)] and le = readFileLimit_bounds(2) [OF r(4)]
  from le obtain f where f: "newFile fs i = Inr f" by (simp add: newFile_def not_less [symmetric])
  have "length (nd_data n) < 2 ^ 32"
    using lookup_ok [OF n(1)] fs(2) n(2) by (cases n) (auto simp: fits_def)
  then have small: "unat (in_Size i) < 2 ^ 63" using r(2) by (simp add: unat_of_nat)
  show thesis
  proof (rule that [OF f r(3)])
    fix c assume "coherent fs (data_coherent fs W) c"
    then obtain c' where "resolve fs path True c = (Inr i, c')" "coherent fs (data_coherent fs W) c'"
      using transparentD(2,3) [OF resolve_transparent, of fs "data_coherent fs W" c path True] i(1)
      by (metis fst_conv prod.collapse)
    then show "\<exists>c'. fs_OpenFile fs path c = (Inr f, c') \<and> coherent fs (data_coherent fs W) c'"
      using r(1) f by (simp add: fs_OpenFile_def)
  next
    fix p :: bytes and off :: int64 and c assume "coherent fs (data_coherent fs W) c" "0 \<le>s off"
    from file_ReadAt_content [OF f cont r(3) small this refl, of p]
    show "fst (file_ReadAt f p off c) = tree_read n p off" by (auto simp: tree_read_def Let_def)
  qed
qed

text \<open>
  C3: Random access to a built image. A path that leads to a file in the tree, links
  followed, opens, and \<^verbatim>\<open>ReadAt\<close> at a non-negative offset fills the buffer with the
  bytes of that file at the offset, reports their number, and returns \<open>EOF\<close> exactly
  when the file ends before the buffer is full.
\<close>

theorem image_random_access:
  assumes "buildImage libs root opts = Inr img" "codec_libs_ok libs" "makeBytes_ok mk" "fits root"
    and n: "tree_lookup root path True = Inr n" "kind n = sIFREG" and off: "0 \<le>s off"
  shows "\<exists>fs f c c'. Open libs (bytesReader img) closer (of_nat (length img)) = Inr (fs, Some newBlockCache) \<and>
     fs_OpenFile fs path (after_requests mk fs qs (Some newBlockCache)) = (Inr f, c) \<and>
     file_ReadAt f p off c =
       (let bytes = take (length p) (drop (unat off) (nd_data n)) in
        ((length bytes,
          if unat off < length (nd_data n) \<and> unat off + length p \<le> length (nd_data n) then None else Some EOF,
          bytes @ drop (length bytes) p), c'))"
proof -
  obtain fs W where fs: "Open libs (bytesReader img) closer (of_nat (length img)) = Inr (fs, Some newBlockCache)"
    "fs_shows mk W fs root"
    by (rule image_shows [OF assms(1-4)])
  obtain i f where f: "newFile fs i = Inr f" "file_sized W fs i"
    "\<And>c. coherent fs (data_coherent fs W) c \<Longrightarrow>
       \<exists>c'. fs_OpenFile fs path c = (Inr f, c') \<and> coherent fs (data_coherent fs W) c'"
    "\<And>p off c. \<lbrakk>coherent fs (data_coherent fs W) c; 0 \<le>s off\<rbrakk> \<Longrightarrow> fst (file_ReadAt f p off c) = tree_read n p off"
    by (rule open_shown [OF fs(2) assms(4) n]) blast
  obtain c where c: "fs_OpenFile fs path (after_requests mk fs qs (Some newBlockCache)) = (Inr f, c)"
    "coherent fs (data_coherent fs W) c"
    using f(3) [OF after_requests_coherent [OF fs(2), of qs]] by auto
  have "file_ReadAt f p off c = (tree_read n p off, snd (file_ReadAt f p off c))"
    by (rule prod_eqI) (simp_all add: f(4) [OF c(2) off])
  with fs(1) c(1) show ?thesis unfolding tree_read_def Let_def split_beta prod.sel by blast
qed

theorem image_random_access_witness:
  "\<exists>img fs f c c'. buildImage demoLibs demoRoot demoOpts = Inr img \<and>
     Open demoLibs (bytesReader img) None (of_nat (length img)) = Inr (fs, Some newBlockCache) \<and>
     fs_OpenFile fs (gostring ''/l'') (Some newBlockCache) = (Inr f, c) \<and>
     file_ReadAt f [0, 0, 0] 1 c = ((2, Some EOF, [8, 9, 0]), c')"
proof -
  obtain img where img: "buildImage demoLibs demoRoot demoOpts = Inr img" by (rule demo_build)
  have n: "tree_lookup demoRoot (gostring ''/l'') True = Inr (Node (gostring ''a'') 0x81A4 0 0 [] [7, 8, 9] [] 0 0)"
    "kind (Node (gostring ''a'') 0x81A4 0 0 [] [7, 8, 9] [] 0 0) = sIFREG" "0 \<le>s (1 :: int64)" by code_simp+
  from image_random_access [OF img demoLibs_ok demoMake_ok demoRoot_fits n, of None "[]" "[0, 0, 0]"] img
  show ?thesis by (simp add: after_requests_def Let_def numeral_2_eq_2)
qed


section \<open>Goroutines\<close>

text \<open>The answers of goroutines, less the inode numbers and directory sizes the tree does not have.\<close>

definition forget_answer :: "answer \<Rightarrow> answer" where
  "forget_answer a = (case a of AnsReq r \<Rightarrow> AnsReq (map_sum id forget r) | _ \<Rightarrow> a)"

lemma pool_shown:
  assumes fs: "fs_shows mk W fs root" and f: "newFile fs i = Inr f" "file_sized W fs i"
    and r: "\<And>p off. 0 \<le>s off \<Longrightarrow> fst (file_ReadAt f p off None) = tree_read n p off"
    and c: "coherent fs (data_coherent fs W) c" and reads: "list_all (\<lambda>(p, off). 0 \<le>s off) reads"
    and M: "step\<^sup>*\<^sup>* (pool mk fs c (map CallReq qs @ map (\<lambda>(p, off). CallReadAt f p off) reads)) M" "\<nexists>M'. step M M'"
  shows "map (map_option forget_answer \<circ> result) (threads M) =
     map (\<lambda>q. Some (AnsReq (tree_serve root q))) qs @ map (\<lambda>(p, off). Some (AnsReadAt (tree_read n p off))) reads"
proof -
  let ?calls = "map CallReq qs @ map (\<lambda>(p, off). CallReadAt f p off) reads"
  have "list_all (call_ok W fs) ?calls"
    using request_shown [OF fs] f by (auto simp: list_all_iff call_ok_def)
  from results_steady [OF M(1) [unfolded pool_def] M(2) contents_coherent [THEN iffD2, OF c] calls_steady [OF this]]
  have "map result (threads M) = map (\<lambda>q. Some (fst (call_seq mk fs q None))) ?calls" by (simp add: run_call comp_def)
  then have "map (map_option forget_answer) (map result (threads M)) =
      map (\<lambda>q. Some (forget_answer (fst (call_seq mk fs q None)))) ?calls" by simp
  also have "\<dots> = map (\<lambda>q. Some (AnsReq (tree_serve root q))) qs @ map (\<lambda>(p, off). Some (AnsReadAt (tree_read n p off))) reads"
    using reads r serve_shown [OF fs] by (auto simp: forget_answer_def call_seq_def list_all_iff)
  finally show ?thesis by (simp only: map_map)
qed

text \<open>
  C2: A built image serves goroutines. Any number of goroutines send requests to the
  opened image, and others read at any offsets through one shared open file, all at
  the same time on one cache. Every schedule of them ends, and when it has ended each
  request has the answer of the tree and each read the bytes of the file.
\<close>

theorem image_serves_goroutines:
  assumes "buildImage libs root opts = Inr img" "codec_libs_ok libs" "makeBytes_ok mk" "fits root"
    and n: "tree_lookup root path True = Inr n" "kind n = sIFREG" and reads: "list_all (\<lambda>(p, off). 0 \<le>s off) reads"
  shows "\<exists>fs f c. Open libs (bytesReader img) closer (of_nat (length img)) = Inr (fs, Some newBlockCache) \<and>
     fs_OpenFile fs path (Some newBlockCache) = (Inr f, c) \<and>
     (\<exists>P. P = pool mk fs c (map CallReq qs @ map (\<lambda>(p, off). CallReadAt f p off) reads) \<and>
        (\<nexists>s. s 0 = P \<and> (\<forall>n. step (s n) (s (Suc n)))) \<and>
        (\<forall>M. step\<^sup>*\<^sup>* P M \<and> (\<nexists>M'. step M M') \<longrightarrow>
           map (map_option forget_answer \<circ> result) (threads M) =
           map (\<lambda>q. Some (AnsReq (tree_serve root q))) qs @ map (\<lambda>(p, off). Some (AnsReadAt (tree_read n p off))) reads))"
proof -
  obtain fs W where fs: "Open libs (bytesReader img) closer (of_nat (length img)) = Inr (fs, Some newBlockCache)"
    "fs_shows mk W fs root"
    by (rule image_shows [OF assms(1-4)])
  obtain i f where f: "newFile fs i = Inr f" "file_sized W fs i"
    "\<And>c. coherent fs (data_coherent fs W) c \<Longrightarrow>
       \<exists>c'. fs_OpenFile fs path c = (Inr f, c') \<and> coherent fs (data_coherent fs W) c'"
    "\<And>p off c. \<lbrakk>coherent fs (data_coherent fs W) c; 0 \<le>s off\<rbrakk> \<Longrightarrow> fst (file_ReadAt f p off c) = tree_read n p off"
    by (rule open_shown [OF fs(2) assms(4) n]) blast
  obtain c where c: "fs_OpenFile fs path (Some newBlockCache) = (Inr f, c)" "coherent fs (data_coherent fs W) c"
    using f(3) [OF empty_cache_coherent] by auto
  have "coherent fs (data_coherent fs W) None" by (simp add: coherent_def data_coherent_def)
  from pool_shown [OF fs(2) f(1,2) f(4) [OF this] c(2) reads] show ?thesis
    using fs(1) c(1) mutex.no_endless_run by blast
qed

theorem image_serves_goroutines_witness:
  "\<exists>img fs f c M. buildImage demoLibs demoRoot demoOpts = Inr img \<and>
     Open demoLibs (bytesReader img) None (of_nat (length img)) = Inr (fs, Some newBlockCache) \<and>
     fs_OpenFile fs (gostring ''/l'') (Some newBlockCache) = (Inr f, c) \<and>
     step\<^sup>*\<^sup>* (pool demoMake fs c [CallReq (ReqReadLink (gostring ''l'')), CallReadAt f [0, 0, 0] 1]) M \<and>
     map (map_option forget_answer \<circ> result) (threads M) =
       [Some (AnsReq (Inr (RepBytes (gostring ''a'')))), Some (AnsReadAt (2, Some EOF, [8, 9, 0]))]"
proof -
  obtain img where img: "buildImage demoLibs demoRoot demoOpts = Inr img" by (rule demo_build)
  let ?n = "Node (gostring ''a'') 0x81A4 0 0 [] [7, 8, 9] [] 0 0"
  have n: "tree_lookup demoRoot (gostring ''/l'') True = Inr ?n" "kind ?n = sIFREG"
    "list_all (\<lambda>(p, off). 0 \<le>s off) [([0, 0, 0] :: bytes, 1 :: int64)]" by code_simp+
  from image_serves_goroutines [OF img demoLibs_ok demoMake_ok demoRoot_fits n, of None "[ReqReadLink (gostring ''l'')]"]
  obtain fs f c where fs: "Open demoLibs (bytesReader img) None (of_nat (length img)) = Inr (fs, Some newBlockCache)"
    "fs_OpenFile fs (gostring ''/l'') (Some newBlockCache) = (Inr f, c)"
    and a: "\<And>M. \<lbrakk>step\<^sup>*\<^sup>* (pool demoMake fs c [CallReq (ReqReadLink (gostring ''l'')), CallReadAt f [0, 0, 0] 1]) M; \<nexists>M'. step M M'\<rbrakk> \<Longrightarrow>
      map (map_option forget_answer \<circ> result) (threads M) =
       [Some (AnsReq (tree_serve demoRoot (ReqReadLink (gostring ''l'')))), Some (AnsReadAt (tree_read ?n [0, 0, 0] 1))]"
    by auto
  obtain M where M: "step\<^sup>*\<^sup>* (pool demoMake fs c [CallReq (ReqReadLink (gostring ''l'')), CallReadAt f [0, 0, 0] 1]) M" "all_done M"
    using mutex.completes [OF disciplined_spawn] by (metis pool_def)
  have "tree_serve demoRoot (ReqReadLink (gostring ''l'')) = Inr (RepBytes (gostring ''a''))"
    "tree_read ?n [0, 0, 0] 1 = (2, Some EOF, [8, 9, 0])" by code_simp+
  with a [OF M(1)] all_done_stuck [OF M(2)] M(1) img fs show ?thesis by auto
qed


section \<open>Links\<close>

text \<open>A path of directories is walked to its end.\<close>

lemma treeWalk_descend:
  "\<lbrakk>descend n parts = Some d; kind d = sIFDIR\<rbrakk> \<Longrightarrow> treeWalk root n (parts @ ps) ff hops = treeWalk root d ps ff hops"
proof (induction n parts rule: descend.induct)
  case (2 n name rest)
  then obtain c where c: "kind n = sIFDIR" "find (\<lambda>c. nd_name c = name) (nd_children n) = Some c" "descend c rest = Some d"
    by (auto split: if_splits option.splits)
  have "kind c = sIFDIR" using c(3) "2.prems"(2) by (cases rest) (auto split: if_splits)
  with c 2 show ?case by (simp add: treeWalk.simps)
qed simp

text \<open>
  A link that names itself: \<open>l\<close> is the child \<open>name\<close> of the directory \<open>parts\<close> leads to, and
  its target is that name or, from the root, the whole path.
\<close>

definition self_link :: "node \<Rightarrow> bytes list \<Rightarrow> bytes \<Rightarrow> bool" where
  "self_link root parts name \<longleftrightarrow>
     (case descend root parts of
        None \<Rightarrow> False
      | Some d \<Rightarrow> kind d = sIFDIR \<and>
          (case find (\<lambda>c. nd_name c = name) (nd_children d) of
             None \<Rightarrow> False
           | Some l \<Rightarrow> kind l = sIFLNK \<and>
               splitPath (nd_target l) = (if take 1 (nd_target l) = [slash] then parts @ [name] else [name])))"

lemma self_link_walk:
  assumes "self_link root parts name"
  obtains d where "descend root parts = Some d" "kind d = sIFDIR"
    "\<And>rest ff hops. rest \<noteq> [] \<or> ff \<Longrightarrow> treeWalk root d (name # rest) ff hops = Inl ErrTooManyLinks"
proof -
  from assms obtain d l where d: "descend root parts = Some d" "kind d = sIFDIR"
    and l: "find (\<lambda>c. nd_name c = name) (nd_children d) = Some l" "kind l = sIFLNK"
      "splitPath (nd_target l) = (if take 1 (nd_target l) = [slash] then parts @ [name] else [name])"
    by (auto simp: self_link_def split: option.splits)
  let ?base = "if take 1 (nd_target l) = [slash] then root else d"
  have enter: "treeWalk root ?base (splitPath (nd_target l)) True hops = treeWalk root d [name] True hops" for hops
    using treeWalk_descend [OF d, of root "[name]"] by (simp add: l(3))
  have loop: "treeResolve root ?base (nd_target l) True hops = Inl ErrTooManyLinks" for hops
  proof (induction "41 - hops" arbitrary: hops)
    case 0
    then show ?case by (simp add: treeResolve.simps)
  next
    case (Suc n)
    then have "treeResolve root ?base (nd_target l) True (hops + 1) = Inl ErrTooManyLinks" by simp
    then have "treeWalk root d [name] True hops = Inl ErrTooManyLinks" using d(2) l(1,2) by (simp add: treeWalk.simps)
    with enter show ?case by (simp add: treeResolve.simps)
  qed
  have "treeWalk root d (name # rest) ff hops = Inl ErrTooManyLinks" if "rest \<noteq> [] \<or> ff" for rest ff hops
    using that d(2) l(1,2) loop [of "hops + 1"] by (simp add: treeWalk.simps)
  with d that show thesis by blast
qed

lemma self_link_lookup:
  assumes "self_link root parts name" "list_all component (parts @ name # rest)" "rest \<noteq> [] \<or> ff"
  shows "tree_lookup root (joinPath (parts @ name # rest)) ff = Inl ErrTooManyLinks"
proof -
  have "splitPath (joinPath (parts @ name # rest)) = parts @ name # rest"
    by (rule splitPath_joinPath) (use assms(2) in \<open>simp add: list_all_iff\<close>)
  with self_link_walk [OF assms(1)] treeWalk_descend [of root parts] assms(3) show ?thesis
    by (metis tree_lookup_def treeResolve.simps not_less_zero)
qed

text \<open>
  C7: A link to itself is an error, not a loop. On an image of a tree that fits the format
  and holds, in any directory, a link whose target is its own name or its own absolute
  path, every request for a path through the link, or to it where the last link is
  followed, fails with \<open>ErrTooManyLinks\<close>: reading, listing, \<^verbatim>\<open>Stat\<close>, attributes, opening,
  and \<^verbatim>\<open>ReadLink\<close> of something beyond it.
\<close>

theorem image_link_loop:
  assumes "buildImage libs root opts = Inr img" "codec_libs_ok libs" "makeBytes_ok mk" "fits root"
    and l: "self_link root parts name" "list_all component (parts @ name # rest)"
    and path: "path = joinPath (parts @ name # rest)"
  shows "\<exists>fs. Open libs (bytesReader img) closer (of_nat (length img)) = Inr (fs, Some newBlockCache) \<and>
     (\<forall>qs q. q \<in> {ReqListDir path, ReqStat path, ReqXattrs path} \<union> range (ReqReadFileLimit path) \<union>
          (if rest = [] then {} else {ReqReadLink path}) \<longrightarrow>
        fst (serve mk fs q (after_requests mk fs qs (Some newBlockCache))) = Inl ErrTooManyLinks) \<and>
     (\<forall>qs. fst (fs_OpenFile fs path (after_requests mk fs qs (Some newBlockCache))) = Inl ErrTooManyLinks)"
proof -
  obtain fs W where fs: "Open libs (bytesReader img) closer (of_nat (length img)) = Inr (fs, Some newBlockCache)"
    "fs_shows mk W fs root"
    by (rule image_shows [OF assms(1-4)])
  note look = self_link_lookup [OF l, folded path]
  have "fst (serve mk fs q (after_requests mk fs qs (Some newBlockCache))) = Inl ErrTooManyLinks"
    if "q \<in> {ReqListDir path, ReqStat path, ReqXattrs path} \<union> range (ReqReadFileLimit path) \<union>
          (if rest = [] then {} else {ReqReadLink path})" for q qs
  proof -
    have "tree_serve root q = Inl ErrTooManyLinks" using that look [of True] look [of False]
      by (auto simp: tree_serve_def tree_ReadFileLimit_def tree_ListDir_def tree_Stat_def tree_ReadLink_def split: if_splits)
    with served_after [OF fs(2), of q qs] show ?thesis
      by (cases "fst (serve mk fs q (after_requests mk fs qs (Some newBlockCache)))") simp_all
  qed
  moreover have "fst (fs_OpenFile fs path (after_requests mk fs qs (Some newBlockCache))) = Inl ErrTooManyLinks" for qs
  proof -
    have "resolve fs path True None = (Inl ErrTooManyLinks, None)"
      using resolve_shown [OF fs(2), of path True] look [of True] by simp
    then have "fst (resolve fs path True (after_requests mk fs qs (Some newBlockCache))) = Inl ErrTooManyLinks"
      using transparentD(2) [OF resolve_transparent after_requests_coherent [OF fs(2), of qs], of path True] by simp
    then show ?thesis by (auto simp: fs_OpenFile_def bindM_def split: prod.split)
  qed
  ultimately show ?thesis using fs(1) by blast
qed

text \<open>A directory with a link to itself, by its path.\<close>

definition loopDir :: node where
  "loopDir = Node [] 0x41ED 0 0 [] [] [Node (gostring ''d'') 0x41ED 0 0 [] []
     [Node (gostring ''o'') 0xA1FF 0 0 (gostring ''/d/o'') [] [] 0 0] 0 0] 0 0"

theorem image_link_loop_witness:
  "\<exists>img fs. buildImage demoLibs loopDir demoOpts = Inr img \<and>
     Open demoLibs (bytesReader img) None (of_nat (length img)) = Inr (fs, Some newBlockCache) \<and>
     fst (serve demoMake fs (ReqReadLink (gostring ''/d/o/x'')) (Some newBlockCache)) = Inl ErrTooManyLinks"
proof -
  obtain img where img: "buildImage demoLibs loopDir demoOpts = Inr img" by (rule demo_build)
  have l: "self_link loopDir [gostring ''d''] (gostring ''o'')"
    "list_all component ([gostring ''d''] @ gostring ''o'' # [gostring ''x''])"
    "gostring ''/d/o/x'' = joinPath ([gostring ''d''] @ gostring ''o'' # [gostring ''x''])" by code_simp+
  have fit: "fits loopDir"
    by (simp add: fits_def loopDir_def gostring_def name_ok_def mode_defs metaBlockMax_def defaultBlockSize_def)
  from image_link_loop [OF img demoLibs_ok demoMake_ok fit l, of None] obtain fs where
    "Open demoLibs (bytesReader img) None (of_nat (length img)) = Inr (fs, Some newBlockCache)"
    "\<And>qs. fst (serve demoMake fs (ReqReadLink (gostring ''/d/o/x'')) (after_requests demoMake fs qs (Some newBlockCache))) =
       Inl ErrTooManyLinks" by auto
  from this(1) this(2) [of "[]"] img show ?thesis by (auto simp: after_requests_def)
qed


section \<open>Inode numbers\<close>

text \<open>
  C6: Inode numbers agree. On an image of a tree that fits the format the number
  \<^verbatim>\<open>ListDir\<close> reports for a child of a directory is the number \<^verbatim>\<open>Stat\<close> reports for the
  child's path, whatever was requested before: the 16-bit differences in which a listing
  stores numbers never overflow. The child is not a link, which \<^verbatim>\<open>Stat\<close> would follow, and
  its name is a path component (not empty, no dot names, no slash).
\<close>

theorem image_numbers_agree:
  assumes "buildImage libs root opts = Inr img" "codec_libs_ok libs" "makeBytes_ok mk" "fits root"
    and n: "tree_lookup root path True = Inr n" "kind n = sIFDIR"
    and c: "c \<in> set (nd_children n)" "kind c \<noteq> sIFLNK" "component (nd_name c)"
  shows "\<exists>fs es num t mode sz.
     Open libs (bytesReader img) closer (of_nat (length img)) = Inr (fs, Some newBlockCache) \<and>
     fst (serve mk fs (ReqListDir path) (after_requests mk fs qs (Some newBlockCache))) = Inr (RepEntries es) \<and>
     (num, nd_name c, t) \<in> set es \<and>
     fst (serve mk fs (ReqStat (path @ slash # nd_name c)) (after_requests mk fs qs' (Some newBlockCache))) =
       Inr (RepStat (mode, sz, num))"
proof -
  obtain fs W where fs: "Open libs (bytesReader img) closer (of_nat (length img)) = Inr (fs, Some newBlockCache)"
    "fs_shows mk W fs root"
    by (rule image_shows [OF assms(1-4)])
  note inv = fsServer.serve_invisible [OF request_shown [OF fs(2)] after_requests_coherent [OF fs(2)], of mk]
  obtain es num t mode sz where r:
    "ListDir (\<lambda>num name t. (num, name, t)) fs path None = (Inr es, None)" "(num, nd_name c, t) \<in> set es"
    "Stat (\<lambda>mode sz num. (mode, sz, num)) fs (path @ slash # nd_name c) None = (Inr (mode, sz, num), None)"
    by (rule number_shown [OF fs(2) n c])
  have "fst (serve mk fs (ReqListDir path) (after_requests mk fs qs (Some newBlockCache))) = Inr (RepEntries es)"
    unfolding inv using r(1) by (simp add: serve_def fst_mapM)
  moreover have "fst (serve mk fs (ReqStat (path @ slash # nd_name c)) (after_requests mk fs qs' (Some newBlockCache))) =
      Inr (RepStat (mode, sz, num))"
    unfolding inv using r(3) by (simp add: serve_def fst_mapM)
  ultimately show ?thesis using fs(1) r(2) by blast
qed

theorem image_numbers_agree_witness:
  "\<exists>img fs es num t mode sz. buildImage demoLibs demoRoot demoOpts = Inr img \<and>
     Open demoLibs (bytesReader img) None (of_nat (length img)) = Inr (fs, Some newBlockCache) \<and>
     fst (serve demoMake fs (ReqListDir []) (Some newBlockCache)) = Inr (RepEntries es) \<and>
     (num, gostring ''a'', t) \<in> set es \<and>
     fst (serve demoMake fs (ReqStat (gostring ''/a'')) (Some newBlockCache)) = Inr (RepStat (mode, sz, num))"
proof -
  obtain img where img: "buildImage demoLibs demoRoot demoOpts = Inr img" by (rule demo_build)
  let ?c = "Node (gostring ''a'') 0x81A4 0 0 [] [7, 8, 9] [] 0 0"
  have n: "tree_lookup demoRoot [] True = Inr demoRoot" "kind demoRoot = sIFDIR"
    and k: "kind ?c \<noteq> sIFLNK" "component (nd_name ?c)" and p: "[] @ slash # nd_name ?c = gostring ''/a''" by code_simp+
  have c: "?c \<in> set (nd_children demoRoot)" by (simp add: demoRoot_def)
  from image_numbers_agree [OF img demoLibs_ok demoMake_ok demoRoot_fits n c k, of None "[]" "[]"] obtain fs es num t mode sz where
    r: "Open demoLibs (bytesReader img) None (of_nat (length img)) = Inr (fs, Some newBlockCache)"
    "fst (serve demoMake fs (ReqListDir []) (after_requests demoMake fs [] (Some newBlockCache))) = Inr (RepEntries es)"
    "(num, nd_name ?c, t) \<in> set es"
    "fst (serve demoMake fs (ReqStat (gostring ''/a'')) (after_requests demoMake fs [] (Some newBlockCache))) = Inr (RepStat (mode, sz, num))"
    unfolding p by blast
  from r(2-4) img r(1) show ?thesis
    by (intro exI [of _ img] exI [of _ fs] exI [of _ es] exI [of _ num] exI [of _ t] exI [of _ mode] exI [of _ sz])
      (simp add: after_requests_def)
qed


section \<open>From a host directory to the reader\<close>

text \<open>
  C4: From host directory to reader. Where a host directory is scanned without an error to
  a tree that fits the format, and the encoder exists, \<^verbatim>\<open>BuildFromDir\<close> writes an image and
  returns what the write returns. The image opens, and after any history of requests a
  regular file the host holds at a path of directories is read back as the bytes the host
  gave for it: by \<^verbatim>\<open>ReadFileLimit\<close> unless they exceed the limit, and by \<^verbatim>\<open>ReadFile\<close> up to
  its limit of 1 GiB, beyond which both report \<open>ErrTooLarge\<close>.
\<close>

theorem BuildFromDir_preserves_files:
  assumes opts: "bo_Uncompressed opts \<or> bo_Compressor opts \<in> {0, compGZIP, compZSTD, compXZ, compLZ4}"
    and root: "scanDir (Inr perm) (Inr entries) = Inr root" "fits root" "host_perms (HostDir perm None entries)"
    and libs: "codec_libs_ok libs" "makeBytes_ok mk"
    and h: "host_descend (HostDir perm None entries) parts = Some (HostRegular p (Inr content))" "list_all component parts"
  shows "\<exists>img fs. (\<forall>writeFile. BuildFromDir libs writeFile (Inr perm) (Inr entries) opts = writeFile img) \<and>
     Open libs (bytesReader img) closer (of_nat (length img)) = Inr (fs, Some newBlockCache) \<and>
     (\<forall>qs maxLen. fst (ReadFileLimit mk fs (joinPath parts) maxLen (after_requests mk fs qs (Some newBlockCache))) =
        (if 0 \<le>s maxLen \<and> maxLen < of_nat (length content) then Inl (Wrapped ErrTooLarge) else Inr content)) \<and>
     (\<forall>qs. fst (ReadFile mk fs (joinPath parts) (after_requests mk fs qs (Some newBlockCache))) =
        (if length content \<le> 2 ^ 30 then Inr content else Inl (Wrapped ErrTooLarge)))"
proof -
  obtain img where img: "buildImage libs root opts = Inr img" by (rule buildImage_ok [OF opts])
  then have wr: "BuildFromDir libs writeFile (Inr perm) (Inr entries) opts = writeFile img" for writeFile
    by (simp add: BuildFromDir_def root(1))
  from root(1) have "scanEntry (HostDir perm None entries) [] = Inr (Some root)"
    by (auto simp: scanDir_def bindE_eq_Inr)
  with scan_mirrors(1) [OF root(3), of "[]"] have "mirrors root (HostDir perm None entries)" by simp
  from mirrors_file [OF this h(1)] perms_descend [OF root(3) h(1)] obtain m where
    m: "descend root parts = Some m" "kind m = sIFREG" "nd_data m = content" by (auto simp: perm_kind mode_kinds)
  obtain fs W where fs: "Open libs (bytesReader img) closer (of_nat (length img)) = Inr (fs, Some newBlockCache)"
    "fs_shows mk W fs root"
    by (rule image_shows [OF img libs root(2)])
  from root(2) have "tree_ok root" by (simp add: fits_def)
  note read = read_file_after [OF fs(2) this m(1,2) h(2), unfolded m(3)]
  show ?thesis
    by (intro exI [of _ img] exI [of _ fs]) (simp add: wr fs(1) read)
qed

theorem BuildFromDir_preserves_files_witness:
  "\<exists>img fs. (\<forall>writeFile. BuildFromDir demoLibs writeFile (Inr 0x1ED) (Inr demoEntries) demoOpts = writeFile img) \<and>
     Open demoLibs (bytesReader img) None (of_nat (length img)) = Inr (fs, Some newBlockCache) \<and>
     fst (ReadFile demoMake fs (gostring ''/d/a'') (Some newBlockCache)) = Inr [7, 8, 9]"
proof -
  let ?root = "Node [] 0x41ED 0 0 [] []
     [Node (gostring ''d'') 0x41ED 0 0 [] [] [Node (gostring ''a'') 0x81A4 0 0 [] [7, 8, 9] [] 0 0] 0 0,
      Node (gostring ''l'') 0xA1FF 0 0 (gostring ''d'') [] [] 0 0] 0 0"
  have s: "scanDir (Inr 0x1ED) (Inr demoEntries) = Inr ?root" by code_simp
  have f: "fits ?root"
    by (simp add: fits_def gostring_def name_ok_def mode_defs metaBlockMax_def defaultBlockSize_def)
  have p: "host_perms (HostDir 0x1ED None demoEntries)"
    and d: "host_descend (HostDir 0x1ED None demoEntries) [gostring ''d'', gostring ''a''] = Some (HostRegular 0x1A4 (Inr [7, 8, 9]))"
    "list_all component [gostring ''d'', gostring ''a'']"
    and j: "joinPath [gostring ''d'', gostring ''a''] = gostring ''/d/a''" by code_simp+
  have opt: "bo_Uncompressed demoOpts \<or> bo_Compressor demoOpts \<in> {0, compGZIP, compZSTD, compXZ, compLZ4}"
    by (simp add: demoOpts_def)
  from BuildFromDir_preserves_files [OF opt s f p demoLibs_ok demoMake_ok d, of None] obtain img fs where
    fs: "\<And>writeFile. BuildFromDir demoLibs writeFile (Inr 0x1ED) (Inr demoEntries) demoOpts = writeFile img"
    "Open demoLibs (bytesReader img) None (of_nat (length img)) = Inr (fs, Some newBlockCache)"
    "\<And>qs. fst (ReadFile demoMake fs (gostring ''/d/a'') (after_requests demoMake fs qs (Some newBlockCache))) = Inr [7, 8, 9]"
    unfolding j by auto
  from fs(3) [of "[]"] have "fst (ReadFile demoMake fs (gostring ''/d/a'') (Some newBlockCache)) = Inr [7, 8, 9]"
    by (simp add: after_requests_def)
  with fs(1,2) show ?thesis by blast
qed


section \<open>The benchmark program\<close>

text \<open>The host's file with an image in it.\<close>

definition imageFile :: "bytes \<Rightarrow> error + unit \<Rightarrow> error + hostFile" where
  "imageFile img closed = Inr \<lparr>hf_reader = bytesReader img, hf_stat = Inr (of_nat (length img)), hf_close = closed\<rparr>"

lemma bench_main_run:
  assumes "buildImage libs root opts = Inr img" "codec_libs_ok libs" "makeBytes_ok mk" "fits root"
    and "os_open name = imageFile img closed"
  obtains fs W where "serves mk W fs root (Some newBlockCache)"
    "bench_main libs mk ifc os_open [prog, gostring ''read'', name] =
       Option.bind (walk ifc mk fs (absPath []) (0, 0) (Some newBlockCache)) (\<lambda>(r, c').
         Some (r, case r of Inl f \<Rightarrow> False | Inr t \<Rightarrow> True))"
proof -
  obtain fs W where fs: "Open libs (bytesReader img) (Some closed) (of_nat (length img)) = Inr (fs, Some newBlockCache)"
    "fs_shows mk W fs root"
    by (rule image_shows [OF assms(1-4)])
  show thesis
  proof (rule that)
    show "serves mk W fs root (Some newBlockCache)" using fs(2) by (simp add: serves_def empty_cache_coherent)
  qed (simp add: bench_main_def OpenFile_def assms(5) imageFile_def fs(1) absPath_def)
qed

text \<open>
  C8: The benchmark visits the tree. On an image of a tree in which no link leads to a
  directory the command ends, with the outcome of a visit to the tree's files and
  links in the order of their paths, which stops at the first link that cannot be
  followed and the first file that cannot be read, and closes the image when there
  is none. Then the counts printed are the number of those paths and the bytes of
  the files they are or lead to.
\<close>

theorem bench_visits_tree:
  assumes "buildImage libs root opts = Inr img" "codec_libs_ok libs" "makeBytes_ok mk" "fits root"
    and "os_open name = imageFile img closed" "iface_ok ifc" "kind root = sIFDIR" "links_ok root [] root"
  shows "bench_main libs mk ifc os_open [prog, gostring ''read'', name] =
       Some (visits root (leaves [] root) (0, 0), \<not> isl (visits root (leaves [] root) (0, 0))) \<and>
     (list_all (\<lambda>p. contents_of root p \<noteq> None) (leaves [] root) \<longrightarrow>
       bench_main libs mk ifc os_open [prog, gostring ''read'', name] =
         Some (Inr (of_nat (length (leaves [] root)),
           of_nat (sum_list (map (\<lambda>p. length (the (contents_of root p))) (leaves [] root)))), True))"
proof -
  obtain fs W where fs: "serves mk W fs root (Some newBlockCache)"
    "bench_main libs mk ifc os_open [prog, gostring ''read'', name] =
       Option.bind (walk ifc mk fs (absPath []) (0, 0) (Some newBlockCache)) (\<lambda>(r, c').
         Some (r, case r of Inl f \<Rightarrow> False | Inr t \<Rightarrow> True))"
    by (rule bench_main_run [where os_open = os_open and name = name, OF assms(1-5)])
  from walk_visits [OF assms(6) fs(1) _ assms(7) _ assms(8), of "(0, 0)"]
  have "bench_main libs mk ifc os_open [prog, gostring ''read'', name] =
      Some (visits root (leaves [] root) (0, 0), \<not> isl (visits root (leaves [] root) (0, 0)))"
    unfolding fs(2) by (auto split: sum.split)
  then show ?thesis using visits_contents [of root "leaves [] root" "(0, 0)"] by simp
qed

definition demoIface :: "(bytes, u16) iface" where
  "demoIface = \<lparr>if_NewDirEntry = (\<lambda>num name t. name), if_Name = id, if_NewStat = (\<lambda>mode sz num. mode), if_Mode = id\<rparr>"

lemma demoIface_ok: "iface_ok demoIface"
  by (simp add: iface_ok_def demoIface_def)

definition benchRoot :: node where
  "benchRoot = Node [] 0x41ED 0 0 [] []
     [Node (gostring ''l'') 0xA1FF 0 0 (gostring ''d/a'') [] [] 0 0,
      Node (gostring ''d'') 0x41ED 0 0 [] [] [Node (gostring ''a'') 0x81A4 0 0 [] [7, 8, 9] [] 0 0] 0 0] 0 0"

definition danglingRoot :: node where
  "danglingRoot = Node [] 0x41ED 0 0 [] []
     [Node (gostring ''n'') 0xA1FF 0 0 (gostring ''x'') [] [] 0 0,
      Node (gostring ''a'') 0x81A4 0 0 [] [7, 8, 9] [] 0 0] 0 0"

theorem bench_visits_tree_witness:
  "\<exists>img img'. buildImage demoLibs benchRoot demoOpts = Inr img \<and> buildImage demoLibs danglingRoot demoOpts = Inr img' \<and>
     bench_main demoLibs demoMake demoIface (\<lambda>_. imageFile img (Inr ())) [gostring ''bench'', gostring ''read'', gostring ''i''] =
       Some (Inr (2, 6), True) \<and>
     bench_main demoLibs demoMake demoIface (\<lambda>_. imageFile img' (Inr ())) [gostring ''bench'', gostring ''read'', gostring ''i''] =
       Some (Inl (StatFailed (gostring ''/n'') (Wrapped ErrNotFound)), False)"
proof -
  obtain img img' where img: "buildImage demoLibs benchRoot demoOpts = Inr img"
    and img': "buildImage demoLibs danglingRoot demoOpts = Inr img'" by (metis demo_build)
  have f: "fits benchRoot" "fits danglingRoot"
    by (simp_all add: fits_def benchRoot_def danglingRoot_def gostring_def name_ok_def mode_defs metaBlockMax_def defaultBlockSize_def)
  have k: "kind benchRoot = sIFDIR" "kind danglingRoot = sIFDIR" by (simp_all add: benchRoot_def danglingRoot_def mode_defs)
  have l: "links_ok benchRoot [] benchRoot" "links_ok danglingRoot [] danglingRoot" by code_simp+
  have n: "list_all (\<lambda>p. contents_of benchRoot p \<noteq> None) (leaves [] benchRoot)" "length (leaves [] benchRoot) = 2"
    "sum_list (map (\<lambda>p. length (the (contents_of benchRoot p))) (leaves [] benchRoot)) = 6"
    "visits danglingRoot (leaves [] danglingRoot) (0, 0) = Inl (StatFailed (gostring ''/n'') (Wrapped ErrNotFound))"
    by code_simp+
  from bench_visits_tree [where os_open = "\<lambda>_. imageFile img (Inr ())" and name = "gostring ''i''",
      OF img demoLibs_ok demoMake_ok f(1) refl demoIface_ok k(1) l(1), of "gostring ''bench''", THEN conjunct2, THEN mp, OF n(1)]
    bench_visits_tree [where os_open = "\<lambda>_. imageFile img' (Inr ())" and name = "gostring ''i''",
      OF img' demoLibs_ok demoMake_ok f(2) refl demoIface_ok k(2) l(2), of "gostring ''bench''"] img img'
  show ?thesis by (simp add: n)
qed

text \<open>
  C9: The benchmark may not end. \<^verbatim>\<open>walk\<close> asks \<^verbatim>\<open>Stat\<close>, which follows links, and enters what
  is a directory then: on an image of a directory whose only entry is a link to the
  directory itself, it calls itself without end and the command has no result.
\<close>

theorem bench_link_endless:
  assumes "buildImage libs root opts = Inr img" "codec_libs_ok libs" "makeBytes_ok mk" "fits root"
    and "os_open name = imageFile img closed" "iface_ok ifc"
    and "kind root = sIFDIR" "nd_children root = [l]" "kind l = sIFLNK" "splitPath (nd_target l) = []" "walk_name (nd_name l)"
  shows "bench_main libs mk ifc os_open [prog, gostring ''read'', name] = None"
proof -
  obtain fs W where fs: "serves mk W fs root (Some newBlockCache)"
    "bench_main libs mk ifc os_open [prog, gostring ''read'', name] =
       Option.bind (walk ifc mk fs (absPath []) (0, 0) (Some newBlockCache)) (\<lambda>(r, c').
         Some (r, case r of Inl f \<Rightarrow> False | Inr t \<Rightarrow> True))"
    by (rule bench_main_run [where os_open = os_open and name = name, OF assms(1-5)])
  from walk_endless [OF assms(6) fs(1) assms(7-11), where k = 0] show ?thesis unfolding fs(2) by simp
qed

definition loopRoot :: node where
  "loopRoot = Node [] 0x41ED 0 0 [] [] [Node (gostring ''o'') 0xA1FF 0 0 (gostring ''.'') [] [] 0 0] 0 0"

theorem bench_link_endless_witness:
  "\<exists>img. buildImage demoLibs loopRoot demoOpts = Inr img \<and>
     bench_main demoLibs demoMake demoIface (\<lambda>_. imageFile img (Inr ())) [gostring ''bench'', gostring ''read'', gostring ''i''] = None"
proof -
  obtain img where img: "buildImage demoLibs loopRoot demoOpts = Inr img" by (rule demo_build)
  have f: "fits loopRoot"
    by (simp add: fits_def loopRoot_def gostring_def name_ok_def mode_defs metaBlockMax_def defaultBlockSize_def)
  let ?l = "Node (gostring ''o'') 0xA1FF 0 0 (gostring ''.'') [] [] 0 0"
  have c: "nd_children loopRoot = [?l]" by (simp add: loopRoot_def)
  have k: "kind loopRoot = sIFDIR" "kind ?l = sIFLNK" "splitPath (nd_target ?l) = []" "walk_name (nd_name ?l)"
    by code_simp+
  from bench_link_endless [where os_open = "\<lambda>_. imageFile img (Inr ())" and name = "gostring ''i''", OF img demoLibs_ok demoMake_ok f refl demoIface_ok k(1) c k(2-4), of "gostring ''bench''"] img
  show ?thesis by simp
qed

end
